(* ===== verification/Prelude.thy ===== *)
theory Prelude
  imports Main "HOL-Library.Word" "HOL-Library.Monad_Syntax"
begin

unbundle bit_operations_syntax

text \<open>
  Shared vocabulary of the development: the integer types of \<^verbatim>\<open>kernel.h\<close>, bounded access
  to C objects (an access outside an object is \<^const>\<open>None\<close>), the byte strings that C literals
  denote, and the generic lemmas on words, lists and options the component theories share.
  The collections \<open>mem_simps\<close> and \<open>word_nat_simps\<close> gather the rewrite rules for memory
  accesses and for moving 32-bit arithmetic to the natural numbers.
\<close>

section \<open>Integer types and collections\<close>

type_synonym u8 = "8 word"
type_synonym u16 = "16 word"
type_synonym u32 = "32 word"

named_theorems mem_simps
named_theorems word_nat_simps

section \<open>Bytes of C string literals\<close>

definition bytes :: "string \<Rightarrow> u8 list" where
  "bytes s = map of_char s"

text \<open>A C string literal: its bytes and the terminating NUL.\<close>

definition cstr :: "string \<Rightarrow> u8 list" where
  "cstr s = bytes s @ [0]"

section \<open>Bounded access to C objects\<close>

text \<open>
  A C object is the list of its bytes. Reading or writing outside it is undefined behaviour,
  the value \<^const>\<open>None\<close>.
\<close>

definition rd :: "'a list \<Rightarrow> nat \<Rightarrow> 'a option" where
  "rd b i = (if i < length b then Some (b ! i) else None)"

definition wr :: "'a list \<Rightarrow> nat \<Rightarrow> 'a \<Rightarrow> 'a list option" where
  "wr b i v = (if i < length b then Some (b[i := v]) else None)"

lemma rd_eq_Some_iff: "rd b i = Some v \<longleftrightarrow> i < length b \<and> b ! i = v"
  by (auto simp: rd_def)

lemma wr_eq_Some_iff: "wr b i v = Some b' \<longleftrightarrow> i < length b \<and> b' = b[i := v]"
  by (auto simp: wr_def)

lemma rd_in_bounds [simp]: "i < length b \<Longrightarrow> rd b i = Some (b ! i)"
  by (simp add: rd_def)

lemma wr_in_bounds [simp]: "i < length b \<Longrightarrow> wr b i v = Some (b[i := v])"
  by (simp add: wr_def)

lemma wr_length: "wr b i v = Some b' \<Longrightarrow> length b' = length b"
  by (auto simp: wr_eq_Some_iff)

section \<open>Words and natural numbers\<close>

lemma unat_of_nat_small [word_nat_simps]:
  "n < 2 ^ 32 \<Longrightarrow> unat (word_of_nat n :: u32) = n"
  by (simp add: unat_of_nat take_bit_nat_eq_self)

lemma of_nat_unat_u32 [simp]: "word_of_nat (unat (w :: u32)) = w"
  by simp

lemma unat_u32_less: "unat (w :: u32) < 4294967296"
  using unsigned_less [of w] by simp

lemma unat_mult_small [word_nat_simps]:
  "unat (a :: u32) * unat b < 2 ^ 32 \<Longrightarrow> unat (a * b) = unat a * unat b"
  by (simp add: unat_word_ariths)

lemma unat_add_small [word_nat_simps]:
  "unat (a :: u32) + unat b < 2 ^ 32 \<Longrightarrow> unat (a + b) = unat a + unat b"
  by (simp add: unat_word_ariths)

lemma unat_sub_small [word_nat_simps]:
  "b \<le> (a :: u32) \<Longrightarrow> unat (a - b) = unat a - unat b"
  by (rule unat_sub)

lemma u32_eq_iff_unat: "(a :: u32) = b \<longleftrightarrow> unat a = unat b"
  by (simp add: word_unat_eq_iff)

lemma dvd_unat_add:
  assumes "k dvd unat (a :: u32)" and "k dvd unat b" and "k dvd 4294967296"
  shows "k dvd unat (a + b)"
  using assms by (simp add: unat_word_ariths dvd_mod)

lemma dvd_unat_mult:
  assumes "k dvd unat (a :: u32)" and "k dvd 4294967296"
  shows "k dvd unat (a * b)"
  using assms by (simp add: unat_word_ariths dvd_mod)

text \<open>Block arithmetic: a number below \<open>2 ^ 32\<close> split into a multiple of a block size and
  an offset inside the block.\<close>

lemma block_eq_iff:
  assumes "i < n" and "j < (n :: nat)"
  shows "n * x + i = n * y + j \<longleftrightarrow> x = y \<and> i = j"
proof
  assume eq: "n * x + i = n * y + j"
  have "x = (n * x + i) div n" and "y = (n * y + j) div n" using assms by simp_all
  with eq have "x = y" by simp
  with eq show "x = y \<and> i = j" by simp
qed simp

lemma dvd_offset_less:
  assumes "n dvd m" and "n dvd (b :: nat)" and "m < b" and "i < n"
  shows "m + i < b"
proof -
  from assms(1,2) obtain x y where xy: "m = n * x" "b = n * y" by (auto elim!: dvdE)
  with assms(3) have "x < y" by auto
  then have "n * (x + 1) \<le> n * y" by (intro mult_le_mono2) simp
  with xy assms(4) show ?thesis by simp
qed

lemma dvd_offset_eq_iff:
  assumes "n dvd m" and "n dvd (k :: nat)" and "i < n" and "j < n"
  shows "m + i = k + j \<longleftrightarrow> m = k \<and> i = j"
  using assms block_eq_iff [OF assms(3,4)] by (auto elim!: dvdE)

text \<open>Rounding down to a multiple of a power of two by masking, and rounding up with it.\<close>

lemma unat_and_not_mask: "unat ((y :: u32) AND NOT (mask n)) = unat y div 2 ^ n * 2 ^ n"
proof -
  have "y AND NOT (mask n) = push_bit n (drop_bit n y)"
    by (intro bit_word_eqI) (auto simp: bit_simps)
  moreover have "take_bit 32 (unat y) = unat y"
    using unat_u32_less [of y] by (simp add: take_bit_nat_eq_self)
  ultimately have "unat (y AND NOT (mask n)) = take_bit 32 (push_bit n (drop_bit n (unat y)))"
    by (simp add: unsigned_push_bit_eq unsigned_drop_bit_eq take_bit_drop_bit)
  also have "\<dots> = (unat y div 2 ^ n * 2 ^ n) mod 2 ^ 32"
    by (simp add: take_bit_eq_mod push_bit_eq_mult drop_bit_eq_div)
  also have "\<dots> = unat y div 2 ^ n * 2 ^ n"
    using unat_u32_less [of y] by (intro mod_less) (simp add: le_less_trans [OF div_times_less_eq_dividend])
  finally show ?thesis .
qed

lemma unat_two_power:
  assumes "n < 32"
  shows "unat (2 ^ n :: u32) = 2 ^ n"
proof -
  have "(2 :: nat) ^ n < 2 ^ 32" using assms by (intro power_strict_increasing) simp_all
  then show ?thesis using unat_of_nat_small [of "2 ^ n"] by (simp only: of_nat_power of_nat_numeral)
qed

lemma unat_align_up:
  assumes "unat x + (2 ^ n - 1) < 4294967296" and "n < 32"
  shows "unat ((x + 2 ^ n - 1) AND NOT (2 ^ n - 1 :: u32)) = (unat x + (2 ^ n - 1)) div 2 ^ n * 2 ^ n"
proof -
  have m: "(2 ^ n - 1 :: u32) = mask n" by (simp add: mask_eq_exp_minus_1)
  have um: "unat (mask n :: u32) = 2 ^ n - 1"
  proof -
    have "unat (2 ^ n :: u32) = 2 ^ n" using assms(2) by (rule unat_two_power)
    then show ?thesis using assms(2) by (simp add: mask_eq_exp_minus_1 unat_sub word_le_nat_alt)
  qed
  have "x + 2 ^ n - 1 = x + mask n" by (simp add: mask_eq_exp_minus_1)
  moreover have "unat (x + mask n) = unat x + (2 ^ n - 1)" using assms(1) um by (simp add: unat_add_small)
  ultimately show ?thesis unfolding m unat_and_not_mask by (simp only:)
qed

section \<open>Counted loops\<close>

text \<open>
  A loop \<^verbatim>\<open>for (i = a; i < b; i++) body\<close> without early exit is a fold of the body over
  \<open>[a..<b]\<close>. Its induction principle keeps an invariant that may mention the counter.
\<close>

lemma fold_upt_invariant:
  assumes "P a s" and "a \<le> b"
    and "\<And>i t. a \<le> i \<Longrightarrow> i < b \<Longrightarrow> P i t \<Longrightarrow> P (Suc i) (f i t)"
  shows "P b (fold f [a..<b] s)"
proof -
  have "P (a + n) (fold f [a..<a + n] s)" if "a + n \<le> b" for n
    using that
  proof (induction n)
    case 0
    then show ?case using assms(1) by simp
  next
    case (Suc n)
    then show ?case using assms(3) [of "a + n"] by simp
  qed
  from this [of "b - a"] show ?thesis using assms(2) by simp
qed

section \<open>Signed reading of words\<close>

lemma sint_u32: "sint v = (if unat v < 2 ^ 31 then int (unat v) else int (unat v) - 2 ^ 32)" for v :: u32
proof -
  have b: "0 \<le> uint v" "uint v < 2 ^ 32" using unsigned_less [of v] by simp_all
  have "sint v = signed_take_bit 31 (uint v)" by (simp add: sint_uint)
  also have "\<dots> = (uint v + 2 ^ 31) mod 2 ^ 32 - 2 ^ 31"
    by (simp add: signed_take_bit_eq_take_bit_shift take_bit_eq_mod)
  also have "(uint v + 2 ^ 31) mod 2 ^ 32 = (if uint v < 2 ^ 31 then uint v + 2 ^ 31 else uint v + 2 ^ 31 - 2 ^ 32)"
  proof (cases "uint v < 2 ^ 31")
    case True
    with b(1) show ?thesis by simp
  next
    case False
    have "(uint v + 2 ^ 31) mod 2 ^ 32 = (uint v + 2 ^ 31 - 2 ^ 32) mod 2 ^ 32" by (rule minus_mod_self2 [symmetric])
    also have "\<dots> = uint v + 2 ^ 31 - 2 ^ 32" using False b(2) by (intro mod_pos_pos_trivial) simp_all
    finally show ?thesis using False by simp
  qed
  finally have f: "sint v = (if uint v < 2 ^ 31 then uint v + 2 ^ 31 else uint v + 2 ^ 31 - 2 ^ 32) - 2 ^ 31" .
  define n where "n = unat v"
  have u: "uint v = int n" by (simp add: n_def)
  show ?thesis using f unfolding u n_def [symmetric] by simp
qed

lemma unat_neg: "v \<noteq> 0 \<Longrightarrow> int (unat (- v)) = 2^32 - int (unat v)" for v :: u32
proof -
  assume "v \<noteq> 0"
  then have b: "0 < uint v" "uint v < 2 ^ 32" using unsigned_less [of v] unsigned_greater_eq [of v] by (simp_all add: order.strict_iff_order uint_0_iff)
  have "uint (- v) = (- uint v) mod 2 ^ 32" by (simp add: uint_word_ariths)
  also have "\<dots> = (2 ^ 32 - uint v) mod 2 ^ 32" by (simp add: mod_diff_left_eq [symmetric])
  also have "\<dots> = 2 ^ 32 - uint v" using b by (intro mod_pos_pos_trivial) simp_all
  finally show ?thesis by simp
qed

section \<open>Bytes\<close>

lemma unat_u8_less: "unat (w :: u8) < 256"
  using unsigned_less [of w] by simp

lemma u8_high_bit: "w AND 0x80 = 0 \<longleftrightarrow> w < (0x80 :: u8)"
proof -
  have "w AND 0x80 = 0 \<longleftrightarrow> \<not> bit w 7"
    using and_exp_eq_0_iff_not_bit [of w 7] by simp
  also have "bit w 7 \<longleftrightarrow> bit (unat w) 7" by (simp add: bit_unsigned_iff)
  also have "bit (unat w) 7 \<longleftrightarrow> odd (unat w div 128)" by (simp add: bit_iff_odd)
  also have "unat w div 128 = (if unat w < 128 then 0 else 1)"
    using unat_u8_less [of w] by auto
  finally show ?thesis by (auto simp: word_less_nat_alt)
qed

lemma u8_low_bits: "w AND 0x7F = (if w < (0x80 :: u8) then w else w - 0x80)"
proof -
  have "w AND 0x7F = w mod 0x80"
    using take_bit_eq_mask [of 7 w] take_bit_eq_mod [of 7 w] by (simp add: mask_eq_exp_minus_1)
  then have "unat (w AND 0x7F) = unat w mod 128" by (simp add: unat_mod)
  also have "\<dots> = (if unat w < 128 then unat w else unat w - 128)" using unat_u8_less [of w] by (simp add: mod_if)
  finally show ?thesis by (simp add: word_unat_eq_iff word_less_nat_alt unat_sub word_le_nat_alt)
qed

section \<open>Checked arithmetic\<close>

text \<open>Rust code is compiled with overflow checks: a result that does not fit stops the kernel,
  \<^const>\<open>None\<close>.\<close>

definition checked_add :: "u32 \<Rightarrow> u32 \<Rightarrow> u32 option" where
  "checked_add a b = (if unat a + unat b < 2 ^ 32 then Some (a + b) else None)"

definition checked_sub :: "u32 \<Rightarrow> u32 \<Rightarrow> u32 option" where
  "checked_sub a b = (if b \<le> a then Some (a - b) else None)"

definition checked_mul :: "u32 \<Rightarrow> u32 \<Rightarrow> u32 option" where
  "checked_mul a b = (if unat a * unat b < 2 ^ 32 then Some (a * b) else None)"

lemma checked_eq_Some:
  "checked_add a b = Some c \<longleftrightarrow> unat a + unat b < 2 ^ 32 \<and> c = a + b"
  "checked_sub a b = Some c \<longleftrightarrow> b \<le> a \<and> c = a - b"
  "checked_mul a b = Some c \<longleftrightarrow> unat a * unat b < 2 ^ 32 \<and> c = a * b"
  by (auto simp: checked_add_def checked_sub_def checked_mul_def)

end
