(* ===== verification/PortIO.thy ===== *)
theory PortIO
  imports Prelude
begin

text \<open>
  Port input and output (\<^verbatim>\<open>interrupts/io.h\<close>). The devices are not part of the program: a
  device is a parameter that answers every read as a function of the port and of the whole history
  of port accesses before it, so the theorems hold for every device. The history is the state of
  the drivers' hardware side, oldest access first.
\<close>

datatype io_event = Outb u16 u8 | Inb u16 u8 | Outw u16 u16 | Inw u16 u16 | Out32 u16 u32 | In32 u16 u32

type_synonym history = "io_event list"

record device =
  dev_inb :: "history \<Rightarrow> u16 \<Rightarrow> u8"
  dev_inw :: "history \<Rightarrow> u16 \<Rightarrow> u16"
  dev_inl :: "history \<Rightarrow> u16 \<Rightarrow> u32"

definition outb :: "u16 \<Rightarrow> u8 \<Rightarrow> history \<Rightarrow> history" where
  "outb port val h = h @ [Outb port val]"

definition inb :: "device \<Rightarrow> u16 \<Rightarrow> history \<Rightarrow> u8 \<times> history" where
  "inb d port h = (let v = dev_inb d h port in (v, h @ [Inb port v]))"

definition outw :: "u16 \<Rightarrow> u16 \<Rightarrow> history \<Rightarrow> history" where
  "outw port val h = h @ [Outw port val]"

definition inw :: "device \<Rightarrow> u16 \<Rightarrow> history \<Rightarrow> u16 \<times> history" where
  "inw d port h = (let v = dev_inw d h port in (v, h @ [Inw port v]))"

definition outl :: "u16 \<Rightarrow> u32 \<Rightarrow> history \<Rightarrow> history" where
  "outl port val h = h @ [Out32 port val]"

definition inl :: "device \<Rightarrow> u16 \<Rightarrow> history \<Rightarrow> u32 \<times> history" where
  "inl d port h = (let v = dev_inl d h port in (v, h @ [In32 port v]))"

definition io_wait :: "history \<Rightarrow> history" where
  "io_wait h = outb 0x80 0 h"

text \<open>What a run added to the history, and the bytes it wrote to a port.\<close>

definition added :: "history \<Rightarrow> history \<Rightarrow> history" where
  "added h h' = drop (length h) h'"

definition writes_to :: "u16 \<Rightarrow> history \<Rightarrow> u8 list" where
  "writes_to port h = concat (map (\<lambda>e. case e of Outb q v \<Rightarrow> if q = port then [v] else [] | _ \<Rightarrow> []) h)"

lemma added_append [simp]: "added h (h @ k) = k"
  by (simp add: added_def)

lemma writes_to_append [simp]: "writes_to p (h @ k) = writes_to p h @ writes_to p k"
  by (simp add: writes_to_def)

lemma writes_to_simps [simp]:
  "writes_to p [] = []"
  "writes_to p (Outb q v # h) = (if q = p then v # writes_to p h else writes_to p h)"
  "writes_to p (Inb q v # h) = writes_to p h"
  "writes_to p (Outw q w # h) = writes_to p h"
  "writes_to p (Inw q w # h) = writes_to p h"
  by (simp_all add: writes_to_def)

end
