(* ===== verification/Libk.thy ===== *)
theory Libk
  imports Prelude
begin

text \<open>
  The freestanding C library of the kernel: character classes (\<^verbatim>\<open>lib/libk.h\<close>), strings
  (\<^verbatim>\<open>lib/string.c\<close>, and \<^verbatim>\<open>strlen\<close> of \<^verbatim>\<open>kernel.c\<close>) and number conversion (\<^verbatim>\<open>lib/conv.c\<close>).
  A string argument is the bytes from the pointer to the end of its object; a destination is its
  object and an index into it. Reading or writing outside an object, and signed overflow, is the
  value \<^const>\<open>None\<close>. The lemmas relate the string functions to lists cut at the first NUL and the
  conversions to positional digits.
\<close>

section \<open>Character classes\<close>

definition isdigit :: "u8 \<Rightarrow> bool" where "isdigit c \<longleftrightarrow> c \<ge> 48 \<and> c \<le> 57"
definition isupper :: "u8 \<Rightarrow> bool" where "isupper c \<longleftrightarrow> c \<ge> 65 \<and> c \<le> 90"
definition islower :: "u8 \<Rightarrow> bool" where "islower c \<longleftrightarrow> c \<ge> 97 \<and> c \<le> 122"
definition isalpha :: "u8 \<Rightarrow> bool" where "isalpha c \<longleftrightarrow> isupper c \<or> islower c"
definition isalnum :: "u8 \<Rightarrow> bool" where "isalnum c \<longleftrightarrow> isalpha c \<or> isdigit c"
definition isspace :: "u8 \<Rightarrow> bool" where "isspace c \<longleftrightarrow> c = 32 \<or> c = 9 \<or> c = 10 \<or> c = 13 \<or> c = 11 \<or> c = 12"
definition toupper :: "u8 \<Rightarrow> u8" where "toupper c = (if islower c then c - 32 else c)"
definition tolower :: "u8 \<Rightarrow> u8" where "tolower c = (if isupper c then c + 32 else c)"

section \<open>Strings\<close>

fun strlen :: "u8 list \<Rightarrow> u32 option" where
  "strlen [] = None"
| "strlen (c # cs) = (if c = 0 then Some 0 else map_option (\<lambda>n. n + 1) (strlen cs))"

fun strcmp :: "u8 list \<Rightarrow> u8 list \<Rightarrow> int option" where
  "strcmp (x # a) (y # b) = (if x \<noteq> 0 \<and> x = y then strcmp a b else Some (uint x - uint y))"
| "strcmp a b = None"

fun strncmp :: "u8 list \<Rightarrow> u8 list \<Rightarrow> nat \<Rightarrow> int option" where
  "strncmp a b 0 = Some 0"
| "strncmp (x # a) (y # b) (Suc n) =
     (if x \<noteq> y then Some (uint x - uint y) else if x = 0 then Some 0 else strncmp a b n)"
| "strncmp a b (Suc n) = None"

text \<open>Copying \<open>src\<close> with its NUL to \<open>dest\<close> from index \<open>i\<close> on.\<close>

fun copy_string :: "u8 list \<Rightarrow> nat \<Rightarrow> u8 list \<Rightarrow> u8 list option" where
  "copy_string dest i [] = None"
| "copy_string dest i (c # src) =
     do { d \<leftarrow> wr dest i c; if c = 0 then Some d else copy_string d (i + 1) src }"

definition strcpy :: "u8 list \<Rightarrow> u8 list \<Rightarrow> u8 list option" where
  "strcpy dest src = copy_string dest 0 src"

fun strncpy_fill :: "u8 list \<Rightarrow> nat \<Rightarrow> nat \<Rightarrow> u8 list option" where
  "strncpy_fill dest i 0 = Some dest"
| "strncpy_fill dest i (Suc n) = do { d \<leftarrow> wr dest i 0; strncpy_fill d (i + 1) n }"

fun strncpy_from :: "u8 list \<Rightarrow> nat \<Rightarrow> u8 list \<Rightarrow> nat \<Rightarrow> u8 list option" where
  "strncpy_from dest i src 0 = Some dest"
| "strncpy_from dest i [] (Suc n) = None"
| "strncpy_from dest i (c # src) (Suc n) =
     (if c = 0 then strncpy_fill dest i (Suc n)
      else do { d \<leftarrow> wr dest i c; strncpy_from d (i + 1) src n })"

definition strncpy :: "u8 list \<Rightarrow> u8 list \<Rightarrow> nat \<Rightarrow> u8 list option" where
  "strncpy dest src n = strncpy_from dest 0 src n"

text \<open>The first loop of \<^verbatim>\<open>strcat\<close>: the index of the NUL of \<open>dest\<close>.\<close>

fun nul_index :: "u8 list \<Rightarrow> nat option" where
  "nul_index [] = None"
| "nul_index (c # cs) = (if c = 0 then Some 0 else map_option Suc (nul_index cs))"

definition strcat :: "u8 list \<Rightarrow> u8 list \<Rightarrow> u8 list option" where
  "strcat dest src = do { i \<leftarrow> nul_index dest; copy_string dest i src }"

text \<open>The result of \<^verbatim>\<open>strchr\<close> is the offset of the match, or \<^const>\<open>None\<close> inside for a null
  pointer.\<close>

fun strchr_from :: "nat \<Rightarrow> u8 list \<Rightarrow> u8 \<Rightarrow> nat option option" where
  "strchr_from i [] ch = None"
| "strchr_from i (c # s) ch =
     (if c = ch then Some (Some i) else if c = 0 then Some None else strchr_from (i + 1) s ch)"

definition strchr :: "u8 list \<Rightarrow> u32 \<Rightarrow> nat option option" where
  "strchr s c = strchr_from 0 s (ucast c)"

section \<open>Number conversion\<close>

definition digits :: "u8 list" where
  "digits = bytes ''0123456789abcdef''"

text \<open>The loop that collects the digits in \<open>tmp\<close>, last digit first. The array has 33 elements; a base
  below 2, with which the loop would not end, does not reach it.\<close>

function utoa_loop :: "u32 \<Rightarrow> u32 \<Rightarrow> u8 list \<Rightarrow> u8 list option" where
  "utoa_loop base value tmp =
     (if value = 0 \<or> base < 2 then Some tmp
      else if length tmp < 33
      then do { c \<leftarrow> rd digits (unat (value mod base)); utoa_loop base (value div base) (tmp @ [c]) }
      else None)"
  by pat_completeness auto
termination
  by (relation "measure (\<lambda>(base, value, tmp). unat value)") (auto simp: unat_div word_less_nat_alt unat_gt_0)

text \<open>Copying the digits to the buffer, last one first, and terminating it.\<close>

fun copy_digits :: "u8 list \<Rightarrow> nat \<Rightarrow> u8 list \<Rightarrow> u8 list option" where
  "copy_digits buf j [] = wr buf j 0"
| "copy_digits buf j (c # cs) = do { b \<leftarrow> wr buf j c; copy_digits b (j + 1) cs }"

text \<open>\<open>off\<close> is the index in the object of the pointer \<^verbatim>\<open>buf\<close>; a negative base is below 2.\<close>

definition utoa :: "u32 \<Rightarrow> u8 list \<Rightarrow> nat \<Rightarrow> int \<Rightarrow> u8 list option" where
  "utoa value buf off base =
     (if base < 2 \<or> base > 16 then wr buf off 0
      else do {
        tmp \<leftarrow> (if value = 0 then Some [48] else utoa_loop (word_of_int base) value []);
        copy_digits buf off (rev tmp)
      })"

text \<open>\<^verbatim>\<open>int32_t\<close> values are 32-bit words read as signed numbers.\<close>

definition itoa :: "u32 \<Rightarrow> u8 list \<Rightarrow> nat \<Rightarrow> int \<Rightarrow> u8 list option" where
  "itoa value buf off base =
     (if base = 10 \<and> sint value < 0
      then do { b \<leftarrow> wr buf off 45; utoa (NOT value + 1) b (off + 1) 10 }
      else utoa value buf off base)"

definition int_ok :: "int \<Rightarrow> int option" where
  "int_ok i = (if -(2 ^ 31) \<le> i \<and> i < 2 ^ 31 then Some i else None)"

fun skip_spaces :: "u8 list \<Rightarrow> u8 list option" where
  "skip_spaces [] = None"
| "skip_spaces (c # s) = (if isspace c then skip_spaces s else Some (c # s))"

fun atoi_digits :: "int \<Rightarrow> u8 list \<Rightarrow> int option" where
  "atoi_digits result [] = None"
| "atoi_digits result (c # s) =
     (if isdigit c then do { m \<leftarrow> int_ok (result * 10); r \<leftarrow> int_ok (m + (uint c - 48)); atoi_digits r s }
      else Some result)"

definition atoi :: "u8 list \<Rightarrow> int option" where
  "atoi s0 =
     do {
       s \<leftarrow> skip_spaces s0;
       let c = hd s;
       let sign = (if c = 45 then -1 else 1 :: int);
       r \<leftarrow> atoi_digits 0 (if c = 43 \<or> c = 45 then tl s else s);
       int_ok (sign * r)
     }"

section \<open>Strings as lists\<close>

text \<open>The contents of a string: the bytes before its first NUL; \<open>terminated\<close> says there is one.\<close>

definition contents :: "u8 list \<Rightarrow> u8 list" where
  "contents s = takeWhile (\<lambda>c. c \<noteq> 0) s"

abbreviation terminated :: "u8 list \<Rightarrow> bool" where
  "terminated s \<equiv> 0 \<in> set s"

lemma contents_simps [simp]:
  "contents [] = []" "contents (c # s) = (if c = 0 then [] else c # contents s)"
  by (simp_all add: contents_def)

lemma contents_append [simp]: "0 \<notin> set xs \<Longrightarrow> contents (xs @ ys) = xs @ contents ys"
  by (induction xs) auto

lemma contents_nonzero: "0 \<notin> set (contents s)"
  by (induction s) auto

lemma strlen_spec: "terminated s \<Longrightarrow> strlen s = Some (word_of_nat (length (contents s)))"
  by (induction s) (auto simp: add.commute)

lemma strlen_unterminated: "\<not> terminated s \<Longrightarrow> strlen s = None"
  by (induction s) auto

lemma nul_index_spec: "terminated s \<Longrightarrow> nul_index s = Some (length (contents s))"
  by (induction s) auto

lemma uint_u8_less: "uint (w :: u8) < 256"
  using unsigned_less [of w] by simp

lemma strcmp_zero: "terminated a \<Longrightarrow> terminated b \<Longrightarrow>
    \<exists>r. strcmp a b = Some r \<and> (r = 0 \<longleftrightarrow> contents a = contents b) \<and> \<bar>r\<bar> < 256"
proof (induction a b rule: strcmp.induct)
  case (1 x a y b)
  show ?case
  proof (cases "x \<noteq> 0 \<and> x = y")
    case True
    with 1 show ?thesis by auto
  next
    case False
    have "0 \<le> uint x" "0 \<le> uint y" by simp_all
    then have "\<bar>uint x - uint y\<bar> < 256" using uint_u8_less [of x] uint_u8_less [of y] by linarith
    moreover have "uint x - uint y = 0 \<longleftrightarrow> x = y" by (simp add: word_uint_eq_iff)
    ultimately show ?thesis using False by auto
  qed
qed auto

lemma strncmp_prefix:
  "0 \<notin> set p \<Longrightarrow> terminated a \<Longrightarrow>
    \<exists>r. strncmp a (p @ q) (length p) = Some r \<and> (r = 0 \<longleftrightarrow> take (length p) (contents a) = p)"
proof (induction p arbitrary: a)
  case (Cons y p)
  then obtain x a' where a: "a = x # a'" by (cases a) auto
  have "uint x - uint y = 0 \<longleftrightarrow> x = y" by (simp add: word_uint_eq_iff)
  with Cons a show ?case by auto
qed simp

text \<open>Copying a string keeps the rest of the destination.\<close>

lemma copy_string_spec:
  assumes "terminated src" and "i + length (contents src) < length dest"
  shows "copy_string dest i src =
    Some (take i dest @ contents src @ [0] @ drop (i + length (contents src) + 1) dest)"
  using assms
proof (induction src arbitrary: dest i)
  case (Cons c src)
  have u: "dest[i := c] = take i dest @ c # drop (i + 1) dest" using Cons.prems(2) by (simp add: upd_conv_take_nth_drop)
  show ?case
  proof (cases "c = 0")
    case True
    with Cons.prems(2) u show ?thesis by simp
  next
    case False
    then have "copy_string dest i (c # src) = copy_string (dest[i := c]) (i + 1) src" using Cons.prems(2) by simp
    also have "\<dots> = Some (take (i + 1) (dest[i := c]) @ contents src @ [0] @ drop (i + 1 + length (contents src) + 1) (dest[i := c]))"
      using Cons False by (intro Cons.IH) auto
    finally show ?thesis using False Cons.prems(2) by (simp add: take_Suc_conv_app_nth)
  qed
qed simp

section \<open>Digits\<close>

text \<open>The digits of a number in a base, most significant first.\<close>

fun base_digits :: "nat \<Rightarrow> nat \<Rightarrow> nat list" where
  "base_digits b n = (if n < b \<or> b < 2 then [n] else base_digits b (n div b) @ [n mod b])"

declare base_digits.simps [simp del]

definition numeral_string :: "nat \<Rightarrow> nat \<Rightarrow> u8 list" where
  "numeral_string b n = map (\<lambda>d. digits ! d) (base_digits b n)"

definition number_of_digits :: "nat \<Rightarrow> nat list \<Rightarrow> nat" where
  "number_of_digits b ds = foldl (\<lambda>a d. a * b + d) 0 ds"

lemma base_digits_value: "number_of_digits b (base_digits b n) = n"
proof (induction b n rule: base_digits.induct)
  case (1 b n)
  then show ?case by (subst base_digits.simps) (auto simp: number_of_digits_def)
qed

lemma base_digits_less: "2 \<le> b \<Longrightarrow> d \<in> set (base_digits b n) \<Longrightarrow> d < b"
proof (induction b n rule: base_digits.induct)
  case (1 b n)
  then show ?case using base_digits.simps [of b n] by (auto split: if_splits)
qed

lemma base_digits_nonempty [simp]: "base_digits b n \<noteq> []"
  by (subst base_digits.simps) simp

text \<open>No leading zero.\<close>

lemma base_digits_hd: "2 \<le> b \<Longrightarrow> hd (base_digits b n) = 0 \<longleftrightarrow> n = 0"
proof (induction b n rule: base_digits.induct)
  case (1 b n)
  show ?case
  proof (cases "n < b")
    case True
    with 1 show ?thesis by (subst base_digits.simps) simp
  next
    case False
    then have "n div b \<noteq> 0" "n \<noteq> 0" using 1 by (auto simp: div_eq_0_iff)
    with 1 False show ?thesis by (subst base_digits.simps) simp
  qed
qed

lemma base_digits_length: "2 \<le> b \<Longrightarrow> n < b ^ Suc k \<Longrightarrow> length (base_digits b n) \<le> Suc k"
proof (induction k arbitrary: n)
  case 0
  then show ?case by (subst base_digits.simps) simp
next
  case (Suc k)
  show ?case
  proof (cases "n < b")
    case True
    then show ?thesis by (subst base_digits.simps) simp
  next
    case False
    have "n div b < b ^ Suc k" using Suc.prems by (simp add: less_mult_imp_div_less mult.commute)
    from Suc.IH [OF Suc.prems(1) this] show ?thesis using Suc.prems False by (subst base_digits.simps) simp
  qed
qed

lemma numeral_string_length: "2 \<le> b \<Longrightarrow> n < 2 ^ 32 \<Longrightarrow> length (numeral_string b n) \<le> 32"
proof -
  assume b: "2 \<le> b" and n: "n < 2 ^ 32"
  have "(2 :: nat) ^ 32 \<le> b ^ 32" using b by (rule power_mono) simp
  then have "n < b ^ Suc 31" using n by simp
  from base_digits_length [OF b this] show ?thesis by (simp add: numeral_string_def)
qed

lemma decimal_length: "n < 2 ^ 32 \<Longrightarrow> length (numeral_string 10 n) \<le> 10"
  using base_digits_length [of 10 n 9] by (simp add: numeral_string_def)

lemma length_digits [simp]: "length digits = 16"
  by (simp add: digits_def bytes_def)

lemma digits_nonzero: "d < 16 \<Longrightarrow> digits ! d \<noteq> 0 \<and> digits ! d \<noteq> 45"
proof -
  assume d: "d < 16"
  have "\<forall>c \<in> set digits. c \<noteq> 0 \<and> c \<noteq> 45" by (simp add: digits_def bytes_def)
  with d show ?thesis by simp
qed

lemma numeral_string_nonzero: "2 \<le> b \<Longrightarrow> b \<le> 16 \<Longrightarrow> 0 \<notin> set (numeral_string b n)"
  using base_digits_less [of b] digits_nonzero by (force simp: numeral_string_def)

text \<open>The loop of \<^verbatim>\<open>utoa\<close> computes the digits and stays inside its array.\<close>

lemma utoa_loop_spec:
  assumes "2 \<le> b" and "b \<le> 16"
  shows "v \<noteq> 0 \<Longrightarrow> length tmp + length (base_digits b (unat v)) \<le> 33 \<Longrightarrow>
    utoa_loop (word_of_nat b) v tmp = Some (tmp @ rev (numeral_string b (unat v)))"
proof (induction "unat v" arbitrary: v tmp rule: less_induct)
  case less
  have ub: "unat (word_of_nat b :: u32) = b" using assms(2) by (simp add: unat_of_nat_small)
  then have b2: "\<not> (word_of_nat b :: u32) < 2" using assms(1) by (simp add: word_less_nat_alt)
  let ?b = "word_of_nat b :: u32" and ?n = "unat v"
  have m: "unat (v mod ?b) = ?n mod b" "unat (v div ?b) = ?n div b" by (simp_all add: unat_mod unat_div ub)
  have md: "?n mod b < 16" using assms by (meson less_le_trans mod_less_divisor zero_less_numeral)
  have n0: "?n \<noteq> 0" using less.prems(1) by (simp add: unat_eq_0)
  have lt: "length tmp < 33" using less.prems(2) base_digits_nonempty [of b ?n] by (cases "base_digits b ?n") auto
  have st: "utoa_loop ?b v tmp = utoa_loop ?b (v div ?b) (tmp @ [digits ! (?n mod b)])"
    using less.prems(1) b2 lt m(1) md by (subst utoa_loop.simps) simp
  show ?case
  proof (cases "?n < b")
    case True
    then have "v div ?b = 0" using m(2) by (simp add: unat_eq_0 [symmetric])
    moreover have "base_digits b ?n = [?n]" using True by (subst base_digits.simps) simp
    ultimately show ?thesis using st True by (simp add: numeral_string_def utoa_loop.simps)
  next
    case False
    then have d0: "v div ?b \<noteq> 0" using m(2) assms(1) by (auto simp: unat_eq_0 [symmetric] div_eq_0_iff)
    have e: "base_digits b ?n = base_digits b (?n div b) @ [?n mod b]" using False assms(1) by (subst base_digits.simps) simp
    have "unat (v div ?b) < ?n" unfolding m(2) using n0 assms(1) by simp
    from less.hyps [OF this d0, of "tmp @ [digits ! (?n mod b)]"] less.prems(2)
    show ?thesis unfolding st m(2) by (simp add: e numeral_string_def)
  qed
qed

lemma copy_digits_spec:
  "j + length cs < length buf \<Longrightarrow> copy_digits buf j cs = Some (take j buf @ cs @ [0] @ drop (j + length cs + 1) buf)"
proof (induction cs arbitrary: buf j)
  case Nil
  then show ?case by (simp add: upd_conv_take_nth_drop)
next
  case (Cons c cs)
  have u: "buf[j := c] = take j buf @ c # drop (j + 1) buf" using Cons.prems by (simp add: upd_conv_take_nth_drop)
  have "copy_digits buf j (c # cs) = copy_digits (buf[j := c]) (j + 1) cs" using Cons.prems by simp
  also have "\<dots> = Some (take (j + 1) (buf[j := c]) @ cs @ [0] @ drop (j + 1 + length cs + 1) (buf[j := c]))"
    using Cons by simp
  finally show ?case using Cons.prems by (simp add: take_Suc_conv_app_nth)
qed

lemma utoa_spec:
  assumes "2 \<le> b" and "b \<le> 16" and "off + length (numeral_string b (unat v)) < length buf"
  shows "utoa v buf off (int b) =
    Some (take off buf @ numeral_string b (unat v) @ [0] @ drop (off + length (numeral_string b (unat v)) + 1) buf)"
proof -
  have l: "length (base_digits b (unat v)) \<le> 32"
    using numeral_string_length [OF assms(1), of "unat v"] unat_u32_less [of v] by (simp add: numeral_string_def)
  have t: "(if v = 0 then Some [48] else utoa_loop (word_of_int (int b)) v []) = Some (rev (numeral_string b (unat v)))"
  proof (cases "v = 0")
    case True
    have "base_digits b 0 = [0]" using assms(1) by (subst base_digits.simps) simp
    moreover have "digits ! 0 = 48" by (simp add: digits_def bytes_def)
    ultimately show ?thesis using True by (simp add: numeral_string_def)
  next
    case False
    then show ?thesis using utoa_loop_spec [OF assms(1,2) False, of "[]"] l by simp
  qed
  show ?thesis using assms(1,2) unfolding utoa_def t by (simp add: copy_digits_spec [OF assms(3)])
qed

section \<open>Reading numbers back\<close>

lemma decimal_digit:
  assumes "d < 10"
  shows "digits ! d = 48 + word_of_nat d" and "isdigit (48 + word_of_nat d)" and "uint (48 + word_of_nat d :: u8) = 48 + int d"
proof -
  have "d \<in> {0, 1, 2, 3, 4, 5, 6, 7, 8, 9}" using assms by auto
  then show "digits ! d = 48 + word_of_nat d" "isdigit (48 + word_of_nat d)" "uint (48 + word_of_nat d :: u8) = 48 + int d"
    by (auto simp: digits_def bytes_def isdigit_def)
qed

lemma foldl_digits_mono: "a \<le> foldl (\<lambda>a d. a * 10 + d) a ds" for a :: nat
proof (induction ds arbitrary: a)
  case (Cons d ds)
  have "a \<le> a * 10 + d" by simp
  also have "\<dots> \<le> foldl (\<lambda>a d. a * 10 + d) (a * 10 + d) ds" by (rule Cons.IH)
  finally show ?case by simp
qed simp

lemma atoi_digits_spec:
  assumes "\<And>d. d \<in> set ds \<Longrightarrow> d < 10" and "\<not> isdigit c"
  shows "atoi_digits (int r) (map (\<lambda>d. digits ! d) ds @ c # cs) =
    (if foldl (\<lambda>a d. a * 10 + d) r ds < 2 ^ 31 \<or> ds = [] then Some (int (foldl (\<lambda>a d. a * 10 + d) r ds)) else None)"
  using assms(1)
proof (induction ds arbitrary: r)
  case Nil
  then show ?case using assms(2) by simp
next
  case (Cons d ds)
  let ?r = "r * 10 + d" and ?f = "foldl (\<lambda>a d. a * 10 + d)"
  have d: "d < 10" using Cons.prems by simp
  note dd = decimal_digit [OF d]
  have IH: "atoi_digits (int ?r) (map (\<lambda>d. digits ! d) ds @ c # cs) =
      (if ?f ?r ds < 2 ^ 31 \<or> ds = [] then Some (int (?f ?r ds)) else None)"
    using Cons.IH [of ?r] Cons.prems by simp
  have st: "atoi_digits (int r) (map (\<lambda>d. digits ! d) (d # ds) @ c # cs) =
      (if ?r < 2 ^ 31 then atoi_digits (int ?r) (map (\<lambda>d. digits ! d) ds @ c # cs) else None)"
  proof -
    have a: "atoi_digits (int r) (map (\<lambda>d. digits ! d) (d # ds) @ c # cs) =
        do { m \<leftarrow> int_ok (int r * 10); x \<leftarrow> int_ok (m + int d); atoi_digits x (map (\<lambda>d. digits ! d) ds @ c # cs) }"
      using dd by simp
    show ?thesis
    proof (cases "?r < 2 ^ 31")
      case True
      then have "int_ok (int r * 10) = Some (int r * 10)" "int_ok (int r * 10 + int d) = Some (int ?r)"
        by (simp_all add: int_ok_def)
      with True show ?thesis unfolding a by simp
    next
      case False
      then have n: "int_ok (int r * 10 + int d) = None" by (simp add: int_ok_def)
      have "int_ok (int r * 10) = None \<or> int_ok (int r * 10) = Some (int r * 10)" by (simp add: int_ok_def)
      then show ?thesis unfolding a using n False by (elim disjE) simp_all
    qed
  qed
  have "?r \<le> ?f ?r ds" by (rule foldl_digits_mono)
  then show ?case unfolding st IH by auto
qed

lemma atoi_decimal:
  assumes "\<not> isdigit c"
  shows "atoi_digits 0 (numeral_string 10 n @ c # cs) = (if n < 2 ^ 31 then Some (int n) else None)"
  using atoi_digits_spec [of "base_digits 10 n" c 0 cs] base_digits_less [of 10] base_digits_value [of 10 n] assms
  by (simp add: numeral_string_def number_of_digits_def)

lemma digit_not_space: "isdigit c \<Longrightarrow> \<not> isspace c"
  by (auto simp: isdigit_def isspace_def)

lemma numeral_string_cons: "\<exists>c cs. numeral_string 10 n = c # cs \<and> isdigit c"
proof -
  obtain d ds where ds: "base_digits 10 n = d # ds" by (cases "base_digits 10 n") auto
  then have "d < 10" using base_digits_less [of 10 d n] by simp
  with ds decimal_digit [of d] show ?thesis by (simp add: numeral_string_def)
qed

lemma sint_cases:
  fixes v :: u32
  shows "sint v < 0 \<Longrightarrow> sint v = - int (unat (- v))" and "sint v < 0 \<Longrightarrow> unat (- v) \<le> 2 ^ 31"
    and "\<not> sint v < 0 \<Longrightarrow> sint v = int (unat v)" and "\<not> sint v < 0 \<Longrightarrow> unat v < 2 ^ 31"
proof -
  define n m s where "n = unat v" and "m = unat (- v)" and "s = sint v"
  have lt: "n < 2 ^ 32" using unat_u32_less [of v] by (simp add: n_def)
  have s: "s = (if n < 2 ^ 31 then int n else int n - 2 ^ 32)" unfolding s_def n_def by (rule sint_u32)
  have m: "int m = 2 ^ 32 - int n" if "\<not> n < 2 ^ 31"
    unfolding m_def n_def by (rule unat_neg) (use that n_def in auto)
  have "(s < 0 \<longrightarrow> s = - int m \<and> m \<le> 2 ^ 31) \<and> (\<not> s < 0 \<longrightarrow> s = int n \<and> n < 2 ^ 31)"
    using s m lt by (cases "n < 2 ^ 31") auto
  then show "sint v < 0 \<Longrightarrow> sint v = - int (unat (- v))" and "sint v < 0 \<Longrightarrow> unat (- v) \<le> 2 ^ 31"
    and "\<not> sint v < 0 \<Longrightarrow> sint v = int (unat v)" and "\<not> sint v < 0 \<Longrightarrow> unat v < 2 ^ 31"
    unfolding s_def n_def m_def by blast+
qed

text \<open>The decimal text of a signed number.\<close>

definition decimal :: "u32 \<Rightarrow> u8 list" where
  "decimal v = (if sint v < 0 then 45 # numeral_string 10 (unat (- v)) else numeral_string 10 (unat v))"

lemma decimal_facts: "length (decimal v) \<le> 11" "0 \<notin> set (decimal v)"
proof -
  have l: "length (numeral_string 10 (unat w)) \<le> 10" for w :: u32
    using unat_u32_less [of w] by (intro decimal_length) simp
  show "length (decimal v) \<le> 11" using l [of v] l [of "- v"] by (simp add: decimal_def)
  show "0 \<notin> set (decimal v)" by (simp add: decimal_def numeral_string_nonzero)
qed

lemma itoa_spec:
  assumes "off + 12 \<le> length buf"
  shows "itoa v buf off 10 = Some (take off buf @ decimal v @ [0] @ drop (off + length (decimal v) + 1) buf)"
proof -
  have l: "length (numeral_string 10 (unat w)) \<le> 10" for w :: u32
    using unat_u32_less [of w] by (intro decimal_length) simp
  show ?thesis
  proof (cases "sint v < 0")
    case True
    let ?n = "numeral_string 10 (unat (- v))" and ?b = "buf[off := 45]"
    have neg: "NOT v + 1 = - v" by (simp add: minus_eq_not_plus_1)
    have "itoa v buf off 10 = utoa (- v) ?b (off + 1) (int 10)"
      using True assms by (simp add: itoa_def neg)
    also have "\<dots> = Some (take (off + 1) ?b @ ?n @ [0] @ drop (off + 1 + length ?n + 1) ?b)"
      using assms l [of "- v"] by (intro utoa_spec) simp_all
    finally show ?thesis using True assms by (simp add: decimal_def take_Suc_conv_app_nth)
  next
    case False
    then have "itoa v buf off 10 = utoa v buf off (int 10)" by (simp add: itoa_def)
    also have "\<dots> = Some (take off buf @ numeral_string 10 (unat v) @ [0] @
        drop (off + length (numeral_string 10 (unat v)) + 1) buf)"
      using assms l [of v] by (intro utoa_spec) simp_all
    finally show ?thesis using False by (simp add: decimal_def)
  qed
qed

lemma int_ok_nat: "n < 2 ^ 31 \<Longrightarrow> int_ok (int n) = Some (int n)" "n < 2 ^ 31 \<Longrightarrow> int_ok (- int n) = Some (- int n)"
  by (simp_all add: int_ok_def)

lemma atoi_decimal_text:
  assumes "\<not> isdigit c"
  shows "atoi (decimal v @ c # cs) = (if sint v = -(2 ^ 31) then None else Some (sint v))"
proof (cases "sint v < 0")
  case True
  let ?m = "unat (- v)"
  have d: "decimal v @ c # cs = 45 # (numeral_string 10 ?m @ c # cs)" using True by (simp add: decimal_def)
  have "atoi (decimal v @ c # cs) = do { r \<leftarrow> atoi_digits 0 (numeral_string 10 ?m @ c # cs); int_ok (- r) }"
    unfolding d atoi_def by (simp add: isspace_def)
  also have "\<dots> = (if ?m < 2 ^ 31 then Some (- int ?m) else None)"
    unfolding atoi_decimal [OF assms] using int_ok_nat(2) [of ?m] by simp
  finally have a: "atoi (decimal v @ c # cs) = (if ?m < 2 ^ 31 then Some (- int ?m) else None)" .
  define m where "m = ?m"
  have "sint v = - int m" "m \<le> 2 ^ 31" unfolding m_def by (rule sint_cases(1,2) [OF True])+
  then show ?thesis using a unfolding m_def [symmetric] by auto
next
  case False
  obtain x xs where x: "numeral_string 10 (unat v) = x # xs" "isdigit x" using numeral_string_cons by blast
  then have xn: "x \<noteq> 43" "x \<noteq> 45" by (auto simp: isdigit_def)
  have "atoi (decimal v @ c # cs) = do { r \<leftarrow> atoi_digits 0 (numeral_string 10 (unat v) @ c # cs); int_ok r }"
    using False x xn digit_not_space [OF x(2)] by (simp add: decimal_def atoi_def)
  also have "\<dots> = Some (int (unat v))"
    unfolding atoi_decimal [OF assms] using sint_cases(4) [OF False] int_ok_nat(1) [of "unat v"] by simp
  finally have a: "atoi (decimal v @ c # cs) = Some (sint v)" unfolding sint_cases(3) [OF False] .
  have "sint v \<noteq> - (2 ^ 31)" using False by auto
  with a show ?thesis by simp
qed

section \<open>Properties\<close>

text \<open>\<^verbatim>\<open>utoa\<close> in a base from 2 to 16 writes the digits of the number and a NUL, nothing else,
  when they fit; the digits are below the base, have no leading zero, give the number back and are at
  most 32, so the internal array is large enough. Any other base writes the empty string.\<close>

theorem utoa_correct:
  assumes "2 \<le> b \<and> b \<le> 16 \<and> off + length (numeral_string b (unat v)) < length buf"
  shows "utoa v buf off (int b) =
      Some (take off buf @ numeral_string b (unat v) @ [0] @ drop (off + length (numeral_string b (unat v)) + 1) buf) \<and>
    numeral_string b (unat v) = map (\<lambda>d. digits ! d) (base_digits b (unat v)) \<and>
    number_of_digits b (base_digits b (unat v)) = unat v \<and> (\<forall>d \<in> set (base_digits b (unat v)). d < b) \<and>
    (hd (base_digits b (unat v)) = 0 \<longleftrightarrow> v = 0) \<and> length (numeral_string b (unat v)) \<le> 32 \<and>
    (c < 2 \<or> 16 < c \<longrightarrow> utoa v buf off c = Some (buf[off := 0]))"
proof -
  from assms have b: "2 \<le> b" "b \<le> 16" and l: "off + length (numeral_string b (unat v)) < length buf" by simp_all
  have "utoa v buf off c = Some (buf[off := 0])" if "c < 2 \<or> 16 < c" using that l by (simp add: utoa_def)
  moreover have "length (numeral_string b (unat v)) \<le> 32"
    using numeral_string_length [OF b(1), of "unat v"] unat_u32_less [of v] by simp
  moreover have "hd (base_digits b (unat v)) = 0 \<longleftrightarrow> v = 0" using base_digits_hd [OF b(1), of "unat v"] by (simp add: unat_eq_0)
  ultimately show ?thesis
    using utoa_spec [OF b l] base_digits_value base_digits_less [OF b(1)] by (simp add: numeral_string_def)
qed

theorem utoa_correct_witness: "utoa 255 (replicate 5 7) 1 (int 16) = Some [7, 0x66, 0x66, 0, 7]"
proof -
  have n: "numeral_string 16 (unat (255 :: u32)) = [0x66, 0x66]"
    by (simp add: numeral_string_def base_digits.simps digits_def bytes_def)
  have "2 \<le> (16 :: nat) \<and> (16 :: nat) \<le> 16 \<and> 1 + length (numeral_string 16 (unat (255 :: u32))) < length (replicate 5 (7 :: u8))"
    unfolding n by simp
  from utoa_correct [OF this, THEN conjunct1] show ?thesis unfolding n by (simp add: numeral_eq_Suc)
qed

text \<open>C32: \<^verbatim>\<open>itoa\<close> in base 10 needs 12 bytes at most and \<^verbatim>\<open>atoi\<close> reads its result back, whatever
  non-digit follows it, for every signed number but the smallest: there the digits of 2147483648
  overflow \<^verbatim>\<open>int\<close> before the sign is applied.\<close>

theorem itoa_atoi_roundtrip:
  assumes "12 \<le> length buf"
  shows "\<exists>b. itoa v buf 0 10 = Some b \<and> length b = length buf \<and> contents b = decimal v \<and>
    drop 12 b = drop 12 buf \<and> atoi b = (if sint v = -(2 ^ 31) then None else Some (sint v))"
proof -
  let ?b = "decimal v @ 0 # drop (length (decimal v) + 1) buf"
  have i: "itoa v buf 0 10 = Some ?b" using itoa_spec [of 0 buf v] assms by simp
  have "\<not> isdigit 0" by (simp add: isdigit_def)
  note a = atoi_decimal_text [OF this, of v "drop (length (decimal v) + 1) buf"]
  have l: "length ?b = length buf" "drop 12 ?b = drop 12 buf"
    using decimal_facts(1) [of v] assms by (simp_all add: drop_Cons' Suc_diff_le [symmetric])
  have c: "contents ?b = decimal v" using decimal_facts(2) [of v] by simp
  show ?thesis by (rule exI [of _ ?b]) (intro conjI i l c a)
qed

theorem itoa_atoi_roundtrip_witness:
  "\<exists>b. itoa (- 42) (replicate 12 1) 0 10 = Some b \<and> atoi b = Some (- 42)"
proof -
  have "sint (- 42 :: u32) = - 42" by simp
  then show ?thesis using itoa_atoi_roundtrip [of "replicate 12 1" "- 42"] by auto
qed

end
