(* ===== verification/Serial.thy ===== *)
theory Serial
  imports PortIO Libk
begin

text \<open>
  The serial port driver (\<^verbatim>\<open>drivers/serial.c\<close>). The driver polls the line status register without a
  limit, so a call does not return (\<^const>\<open>None\<close>) when the transmitter or the receiver never becomes
  ready. The lemmas show that a string reaches the port unchanged and that no byte is sent before the
  port said it can take one.
\<close>

section \<open>Operations\<close>

definition COM1 :: u16 where [simp]: "COM1 = 0x3F8"

definition serial_is_transmit_empty :: "device \<Rightarrow> u16 \<Rightarrow> history \<Rightarrow> bool \<times> history" where
  "serial_is_transmit_empty d port h = (let (v, h1) = inb d (port + 5) h in (v AND 0x20 \<noteq> 0, h1))"

definition serial_init :: "device \<Rightarrow> u16 \<Rightarrow> history \<Rightarrow> int \<times> history" where
  "serial_init d port h =
     (let h = outb (port + 1) 0x00 h; h = outb (port + 3) 0x80 h; h = outb (port + 0) 0x03 h;
          h = outb (port + 1) 0x00 h; h = outb (port + 3) 0x03 h; h = outb (port + 2) 0xC7 h;
          h = outb (port + 4) 0x0B h; h = outb (port + 4) 0x1E h; h = outb (port + 0) 0xAE h;
          (v, h) = inb d (port + 0) h
      in if v \<noteq> 0xAE then (1, h) else (0, outb (port + 4) 0x0F h))"

partial_function (option) serial_wait_transmit :: "device \<Rightarrow> u16 \<Rightarrow> history \<Rightarrow> history option" where
  "serial_wait_transmit d port h =
     (case serial_is_transmit_empty d port h of (ready, h1) \<Rightarrow> if ready then Some h1 else serial_wait_transmit d port h1)"

definition serial_putchar :: "device \<Rightarrow> u16 \<Rightarrow> u8 \<Rightarrow> history \<Rightarrow> history option" where
  "serial_putchar d port c h = map_option (outb port c) (serial_wait_transmit d port h)"

fun serial_writestring :: "device \<Rightarrow> u16 \<Rightarrow> u8 list \<Rightarrow> history \<Rightarrow> history option" where
  "serial_writestring d port [] h = None"
| "serial_writestring d port (c # s) h =
     (if c = 0 then Some h else do { h1 \<leftarrow> serial_putchar d port c h; serial_writestring d port s h1 })"

definition serial_received :: "device \<Rightarrow> u16 \<Rightarrow> history \<Rightarrow> bool \<times> history" where
  "serial_received d port h = (let (v, h1) = inb d (port + 5) h in (v AND 1 \<noteq> 0, h1))"

partial_function (option) serial_wait_receive :: "device \<Rightarrow> u16 \<Rightarrow> history \<Rightarrow> history option" where
  "serial_wait_receive d port h =
     (case serial_received d port h of (ready, h1) \<Rightarrow> if ready then Some h1 else serial_wait_receive d port h1)"

definition serial_getchar :: "device \<Rightarrow> u16 \<Rightarrow> history \<Rightarrow> (u8 \<times> history) option" where
  "serial_getchar d port h = map_option (inb d port) (serial_wait_receive d port h)"

section \<open>Polling\<close>

text \<open>The history after polling a port \<open>n\<close> times, and a port whose status has one of the bits \<open>m\<close> set
  after finitely many polls, whatever happened before.\<close>

definition poll :: "device \<Rightarrow> u16 \<Rightarrow> nat \<Rightarrow> history \<Rightarrow> history" where
  "poll d port n h = ((\<lambda>h. snd (inb d port h)) ^^ n) h"

definition becomes_ready :: "device \<Rightarrow> u16 \<Rightarrow> u8 \<Rightarrow> bool" where
  "becomes_ready d port m \<longleftrightarrow> (\<forall>h. \<exists>n. dev_inb d (poll d port n h) port AND m \<noteq> 0)"

lemma poll_Suc: "poll d port (Suc n) h = poll d port n (h @ [Inb port (dev_inb d h port)])"
  by (simp add: poll_def funpow_Suc_right inb_def Let_def del: funpow.simps)

lemma wait_transmit_spec:
  assumes "dev_inb d (poll d (port + 5) n h) (port + 5) AND 0x20 \<noteq> 0"
  shows "\<exists>vs v. serial_wait_transmit d port h = Some (h @ map (Inb (port + 5)) vs @ [Inb (port + 5) v]) \<and> v AND 0x20 \<noteq> 0"
  using assms
proof (induction n arbitrary: h)
  case 0
  then show ?case
    by (subst serial_wait_transmit.simps) (auto simp: serial_is_transmit_empty_def inb_def poll_def Let_def intro: exI [of _ "[]"])
next
  case (Suc n)
  let ?v = "dev_inb d h (port + 5)" and ?h = "h @ [Inb (port + 5) (dev_inb d h (port + 5))]"
  show ?case
  proof (cases "?v AND 0x20 = 0")
    case True
    have "dev_inb d (poll d (port + 5) n ?h) (port + 5) AND 0x20 \<noteq> 0" using Suc.prems by (simp add: poll_Suc)
    from Suc.IH [OF this] obtain vs v where
      "serial_wait_transmit d port ?h = Some (?h @ map (Inb (port + 5)) vs @ [Inb (port + 5) v])" "v AND 0x20 \<noteq> 0" by blast
    with True show ?thesis
      by (subst serial_wait_transmit.simps) (auto simp: serial_is_transmit_empty_def inb_def Let_def intro!: exI [of _ "?v # vs"])
  next
    case False
    then show ?thesis
      by (subst serial_wait_transmit.simps) (auto simp: serial_is_transmit_empty_def inb_def Let_def intro: exI [of _ "[]"])
  qed
qed

text \<open>Every byte sent to the port directly follows a read of the status that showed room.\<close>

fun paced :: "u16 \<Rightarrow> bool \<Rightarrow> history \<Rightarrow> bool" where
  "paced port ready [] = True"
| "paced port ready (Outb p v # h) = ((p = port \<longrightarrow> ready) \<and> paced port False h)"
| "paced port ready (Inb p v # h) = paced port (p = port + 5 \<and> v AND 0x20 \<noteq> 0) h"
| "paced port ready (e # h) = paced port False h"

lemma paced_append: "paced port r (h @ [Inb (port + 5) v]) \<Longrightarrow> v AND 0x20 \<noteq> 0 \<Longrightarrow>
    paced port False k \<Longrightarrow> paced port r (h @ [Inb (port + 5) v, Outb port c] @ k)"
  by (induction port r h rule: paced.induct) auto

lemma paced_polls: "paced port r (map (Inb (port + 5)) vs @ [Inb (port + 5) v])"
  by (induction vs arbitrary: r) auto

lemma writes_to_polls [simp]: "writes_to port (map (Inb q) vs) = []"
  by (induction vs) auto

lemma serial_putchar_spec:
  assumes "becomes_ready d (port + 5) 0x20"
  obtains k where "serial_putchar d port c h = Some (h @ k)" and "writes_to port k = [c]"
    and "\<And>r k'. paced port False k' \<Longrightarrow> paced port r (k @ k')"
proof -
  obtain n where "dev_inb d (poll d (port + 5) n h) (port + 5) AND 0x20 \<noteq> 0"
    using assms by (auto simp: becomes_ready_def)
  then obtain vs v where w: "serial_wait_transmit d port h = Some (h @ map (Inb (port + 5)) vs @ [Inb (port + 5) v])"
    and v: "v AND 0x20 \<noteq> 0" using wait_transmit_spec by blast
  show thesis
  proof (rule that [of "map (Inb (port + 5)) vs @ [Inb (port + 5) v, Outb port c]"])
    show "paced port False k' \<Longrightarrow> paced port r ((map (Inb (port + 5)) vs @ [Inb (port + 5) v, Outb port c]) @ k')" for r k'
      using paced_append [OF paced_polls v] by simp
  qed (simp_all add: serial_putchar_def w outb_def)
qed

lemma serial_writestring_spec:
  assumes "becomes_ready d (port + 5) 0x20" and "terminated s"
  obtains k where "serial_writestring d port s h = Some (h @ k)" and "writes_to port k = contents s" and "paced port False k"
  using assms(2)
proof (induction s arbitrary: h thesis)
  case (Cons c s)
  show ?case
  proof (cases "c = 0")
    case True
    then show ?thesis using Cons.prems(1) [of "[]"] by simp
  next
    case False
    obtain k where k: "serial_putchar d port c h = Some (h @ k)" "writes_to port k = [c]"
      "\<And>r k'. paced port False k' \<Longrightarrow> paced port r (k @ k')" using serial_putchar_spec [OF assms(1)] by metis
    obtain k' where k': "serial_writestring d port s (h @ k) = Some ((h @ k) @ k')" "writes_to port k' = contents s" "paced port False k'"
      using Cons.IH [of "h @ k"] Cons.prems(2) False by auto
    show ?thesis using Cons.prems(1) [of "k @ k'"] k k' False by simp
  qed
qed simp

section \<open>Properties\<close>

text \<open>over a port whose transmitter always becomes ready again, \<^verbatim>\<open>serial_writestring\<close> returns; the
  bytes sent to the port are the string, in order, and each was sent right after the status register
  showed that there was room.\<close>

theorem serial_writestring_correct:
  assumes "becomes_ready d (port + 5) 0x20" and "terminated s"
  shows "\<exists>h'. serial_writestring d port s h = Some h' \<and> h' = h @ added h h' \<and>
    writes_to port (added h h') = contents s \<and> paced port False (added h h')"
  using serial_writestring_spec [OF assms, of h] by (metis added_append)

definition ready_uart :: device where
  "ready_uart = \<lparr>dev_inb = (\<lambda>h port. 0x20), dev_inw = (\<lambda>h port. 0), dev_inl = (\<lambda>h port. 0)\<rparr>"

theorem serial_writestring_correct_witness:
  "\<exists>h'. serial_writestring ready_uart COM1 (cstr ''ok'') [] = Some h' \<and> writes_to COM1 h' = bytes ''ok''"
proof -
  have r: "becomes_ready ready_uart (COM1 + 5) 0x20" by (simp add: becomes_ready_def ready_uart_def)
  have "terminated (cstr ''ok'')" "contents (cstr ''ok'') = bytes ''ok''" by (simp_all add: cstr_def bytes_def)
  with serial_writestring_correct [OF r, of "cstr ''ok''" "[]"] show ?thesis by (auto simp: added_def)
qed

end
