(* ===== verification/Printf.thy ===== *)
theory Printf
  imports Libk
begin

text \<open>
  Formatted output (\<^verbatim>\<open>lib/printf.c\<close>): \<open>kvsnprintf\<close> with its bounded sink \<open>putc_buf\<close>, padding and
  the conversions. A variadic argument is a 32-bit value or a string pointer; taking one of the other
  kind, or one more than there are, is undefined behaviour, as are running off a string and a field
  width that overflows \<^verbatim>\<open>int\<close>. The reference \<open>format_text\<close> is the unbounded output text; the
  main lemma shows that \<open>kvsnprintf\<close> stores exactly its longest prefix that fits with the NUL.
\<close>

section \<open>Output to a bounded buffer\<close>

datatype va = VInt u32 | VStr "u8 list option"

type_synonym sink = "u8 list \<times> u32"

definition putc_buf :: "u32 \<Rightarrow> u8 \<Rightarrow> sink \<Rightarrow> sink option" where
  "putc_buf sz c = (\<lambda>(buf, tot).
     do { b \<leftarrow> (if tot + 1 < sz then wr buf (unat tot) c else Some buf); Some (b, tot + 1) })"

fun puts_buf :: "u32 \<Rightarrow> u8 list \<Rightarrow> sink \<Rightarrow> sink option" where
  "puts_buf sz [] st = None"
| "puts_buf sz (c # s) st = (if c = 0 then Some st else do { st1 \<leftarrow> putc_buf sz c st; puts_buf sz s st1 })"

text \<open>\<^verbatim>\<open>for (int i = field; i < width; i++)\<close>: \<open>width - field\<close> times the padding character.\<close>

fun pad_buf :: "u32 \<Rightarrow> u8 \<Rightarrow> nat \<Rightarrow> sink \<Rightarrow> sink option" where
  "pad_buf sz c 0 st = Some st"
| "pad_buf sz c (Suc n) st = do { st1 \<leftarrow> putc_buf sz c st; pad_buf sz c n st1 }"

definition emit_num :: "u32 \<Rightarrow> u8 list \<Rightarrow> u8 \<Rightarrow> int \<Rightarrow> bool \<Rightarrow> sink \<Rightarrow> sink option" where
  "emit_num sz ds sign width zero st =
     do {
       len \<leftarrow> nul_index ds;
       let field = int len + (if sign \<noteq> 0 then 1 else 0);
       let n = nat (width - field);
       st1 \<leftarrow> (if zero then do {
                 st \<leftarrow> (if sign \<noteq> 0 then putc_buf sz sign st else Some st);
                 pad_buf sz 48 n st
               } else do {
                 st \<leftarrow> pad_buf sz 32 n st;
                 if sign \<noteq> 0 then putc_buf sz sign st else Some st
               });
       puts_buf sz ds st1
     }"

section \<open>Formats\<close>

fun parse_width :: "int \<Rightarrow> u8 list \<Rightarrow> (int \<times> u8 list) option" where
  "parse_width w [] = None"
| "parse_width w (c # s) =
     (if isdigit c then do { m \<leftarrow> int_ok (w * 10); r \<leftarrow> int_ok (m + (uint c - 48)); parse_width r s }
      else Some (w, c # s))"

text \<open>The optional zero flag after the percent sign.\<close>

definition parse_zero :: "u8 list \<Rightarrow> (bool \<times> u8 list) option" where
  "parse_zero p = (case p of [] \<Rightarrow> None | c # q \<Rightarrow> Some (if c = 48 then (True, q) else (False, p)))"

text \<open>The loop of \<^verbatim>\<open>%X\<close> over the digits up to the NUL.\<close>

fun upcase :: "u8 list \<Rightarrow> u8 list option" where
  "upcase [] = None"
| "upcase (c # s) = (if c = 0 then Some (c # s) else map_option (Cons (toupper c)) (upcase s))"

text \<open>\<^verbatim>\<open>numbuf\<close>, 33 bytes; what it holds before the conversion is not read.\<close>

definition number_text :: "u32 \<Rightarrow> int \<Rightarrow> u8 list option" where
  "number_text v base = utoa v (replicate 33 0) 0 base"

text \<open>The \<^verbatim>\<open>switch\<close> on the conversion character, for every character but NUL.\<close>

definition convert :: "u32 \<Rightarrow> u8 \<Rightarrow> bool \<Rightarrow> int \<Rightarrow> va list \<Rightarrow> sink \<Rightarrow> (va list \<times> sink) option" where
  "convert sz k zero width args st =
     (if k = 0x63 then (case args of VInt v # as \<Rightarrow> map_option (Pair as) (putc_buf sz (ucast v) st) | _ \<Rightarrow> None)
      else if k = 0x73 then
        (case args of VStr s # as \<Rightarrow>
           map_option (Pair as) (puts_buf sz (case s of Some s \<Rightarrow> s | None \<Rightarrow> cstr ''(null)'') st) | _ \<Rightarrow> None)
      else if k = 0x64 \<or> k = 0x69 then
        (case args of VInt v # as \<Rightarrow> do {
             let (sign, mag) = (if sint v < 0 then (45, NOT v + 1) else (0, v));
             ds \<leftarrow> number_text mag 10;
             st1 \<leftarrow> emit_num sz ds sign width zero st;
             Some (as, st1) } | _ \<Rightarrow> None)
      else if k = 0x75 then
        (case args of VInt v # as \<Rightarrow> do {
             ds \<leftarrow> number_text v 10; st1 \<leftarrow> emit_num sz ds 0 width zero st; Some (as, st1) } | _ \<Rightarrow> None)
      else if k = 0x78 then
        (case args of VInt v # as \<Rightarrow> do {
             ds \<leftarrow> number_text v 16; st1 \<leftarrow> emit_num sz ds 0 width zero st; Some (as, st1) } | _ \<Rightarrow> None)
      else if k = 0x58 then
        (case args of VInt v # as \<Rightarrow> do {
             ds \<leftarrow> number_text v 16; us \<leftarrow> upcase ds; st1 \<leftarrow> emit_num sz us 0 width zero st; Some (as, st1) }
         | _ \<Rightarrow> None)
      else if k = 0x70 then
        do { st1 \<leftarrow> puts_buf sz (cstr ''0x'') st;
             (case args of VInt v # as \<Rightarrow> do {
                 ds \<leftarrow> number_text v 16; st2 \<leftarrow> emit_num sz ds 0 width zero st1; Some (as, st2) } | _ \<Rightarrow> None) }
      else if k = 0x25 then map_option (Pair args) (putc_buf sz 0x25 st)
      else do { st1 \<leftarrow> putc_buf sz 0x25 st; st2 \<leftarrow> putc_buf sz k st1; Some (args, st2) })"

lemma parse_width_length: "parse_width w p = Some (w', q) \<Longrightarrow> length q \<le> length p"
  by (induction w p rule: parse_width.induct) (force simp: bind_eq_Some_conv split: if_splits)+

lemma parse_zero_length: "parse_zero p = Some (z, q) \<Longrightarrow> length q \<le> length p"
  by (auto simp: parse_zero_def split: list.splits if_splits)

text \<open>A percent sign at the end of the format ends the output: the pointer steps back and the loop
  finds the NUL.\<close>

function kvs_loop :: "u32 \<Rightarrow> u8 list \<Rightarrow> va list \<Rightarrow> sink \<Rightarrow> sink option" where
  "kvs_loop sz [] args st = None"
| "kvs_loop sz (c # p) args st =
     (if c = 0 then Some st
      else if c \<noteq> 0x25 then do { st1 \<leftarrow> putc_buf sz c st; kvs_loop sz p args st1 }
      else case parse_zero p of
        None \<Rightarrow> None
      | Some (zero, p1) \<Rightarrow>
          (case parse_width 0 p1 of
             Some (width, k # rest) \<Rightarrow>
               if k = 0 then Some st
               else do { (as, st1) \<leftarrow> convert sz k zero width args st; kvs_loop sz rest as st1 }
           | _ \<Rightarrow> None))"
  by pat_completeness auto
termination
  by (relation "measure (\<lambda>(sz, p, args, st). length p)") (auto dest!: parse_zero_length parse_width_length)

definition kvsnprintf :: "u8 list \<Rightarrow> u32 \<Rightarrow> u8 list \<Rightarrow> va list \<Rightarrow> (u8 list \<times> int) option" where
  "kvsnprintf buf sz fmt args =
     do {
       (b, tot) \<leftarrow> kvs_loop sz fmt args (buf, 0);
       b1 \<leftarrow> (if sz > 0 then wr b (unat (if tot < sz then tot else sz - 1)) 0 else Some b);
       Some (b1, sint tot)
     }"

definition ksnprintf :: "u8 list \<Rightarrow> u32 \<Rightarrow> u8 list \<Rightarrow> va list \<Rightarrow> (u8 list \<times> int) option" where
  "ksnprintf buf sz fmt args = kvsnprintf buf sz fmt args"

section \<open>The unbounded text\<close>

definition padded :: "bool \<Rightarrow> int \<Rightarrow> u8 list \<Rightarrow> u8 list \<Rightarrow> u8 list" where
  "padded zero width sign ds =
     (let n = nat (width - int (length sign + length ds))
      in if zero then sign @ replicate n 48 @ ds else replicate n 32 @ sign @ ds)"

definition string_text :: "u8 list option \<Rightarrow> u8 list option" where
  "string_text s = (case s of None \<Rightarrow> Some (bytes ''(null)'') | Some s \<Rightarrow> if terminated s then Some (contents s) else None)"

definition conversion_text :: "u8 \<Rightarrow> bool \<Rightarrow> int \<Rightarrow> va list \<Rightarrow> (va list \<times> u8 list) option" where
  "conversion_text k zero width args =
     (if k = 0x25 then Some (args, [0x25])
      else if k \<in> {0x63, 0x64, 0x69, 0x75, 0x78, 0x58, 0x70} then
        (case args of
           VInt v # as \<Rightarrow> Some (as,
             if k = 0x63 then [ucast v]
             else if k \<in> {0x64, 0x69} then
               padded zero width (if sint v < 0 then [45] else [])
                 (numeral_string 10 (unat (if sint v < 0 then - v else v)))
             else if k = 0x75 then padded zero width [] (numeral_string 10 (unat v))
             else if k = 0x78 then padded zero width [] (numeral_string 16 (unat v))
             else if k = 0x58 then padded zero width [] (map toupper (numeral_string 16 (unat v)))
             else bytes ''0x'' @ padded zero width [] (numeral_string 16 (unat v)))
         | _ \<Rightarrow> None)
      else if k = 0x73 then
        (case args of VStr s # as \<Rightarrow> map_option (Pair as) (string_text s) | _ \<Rightarrow> None)
      else Some (args, [0x25, k]))"

function format_text :: "u8 list \<Rightarrow> va list \<Rightarrow> u8 list option" where
  "format_text [] args = None"
| "format_text (c # p) args =
     (if c = 0 then Some []
      else if c \<noteq> 0x25 then map_option (Cons c) (format_text p args)
      else case parse_zero p of
        None \<Rightarrow> None
      | Some (zero, p1) \<Rightarrow>
          (case parse_width 0 p1 of
             Some (width, k # rest) \<Rightarrow>
               if k = 0 then Some []
               else do { (as, t) \<leftarrow> conversion_text k zero width args; map_option (append t) (format_text rest as) }
           | _ \<Rightarrow> None))"
  by pat_completeness auto
termination
  by (relation "measure (\<lambda>(p, args). length p)") (auto dest!: parse_zero_length parse_width_length)

section \<open>The buffer after some output\<close>

text \<open>What the buffer \<open>buf\<close> holds after the text \<open>out\<close>, before the final NUL, and the count.\<close>

definition sink_at :: "u32 \<Rightarrow> u8 list \<Rightarrow> u8 list \<Rightarrow> sink" where
  "sink_at sz buf out =
     (take (unat sz - 1) out @ drop (min (length out) (unat sz - 1)) buf, word_of_nat (length out))"

text \<open>An output step that appends a text, as long as the count does not wrap around.\<close>

definition emits :: "u32 \<Rightarrow> u8 list \<Rightarrow> (sink \<Rightarrow> sink option) \<Rightarrow> u8 list \<Rightarrow> bool" where
  "emits sz buf f tx \<longleftrightarrow>
     (\<forall>out. length out + length tx < 2 ^ 32 - 1 \<longrightarrow> f (sink_at sz buf out) = Some (sink_at sz buf (out @ tx)))"

lemma emits_nil: "emits sz buf Some []"
  by (simp add: emits_def)

lemma emits_bind:
  assumes "emits sz buf f a" and "emits sz buf g b"
  shows "emits sz buf (\<lambda>st. Option.bind (f st) g) (a @ b)"
  using assms by (simp add: emits_def)

lemma emits_putc:
  assumes "unat sz \<le> length buf"
  shows "emits sz buf (putc_buf sz c) [c]"
  unfolding emits_def
proof (intro allI impI)
  fix out :: "u8 list"
  assume l: "length out + length [c] < 2 ^ 32 - 1"
  let ?n = "length out" and ?k = "unat sz - 1"
  have u: "unat (word_of_nat ?n :: u32) = ?n" "unat (word_of_nat ?n + 1 :: u32) = ?n + 1"
    using l by (simp_all add: unat_of_nat_small unat_add_small)
  have c: "(word_of_nat ?n + 1 :: u32) < sz \<longleftrightarrow> ?n < ?k" using u(2) by (auto simp: word_less_nat_alt)
  show "putc_buf sz c (sink_at sz buf out) = Some (sink_at sz buf (out @ [c]))"
  proof (cases "?n < ?k")
    case True
    then have "drop ?n buf = buf ! ?n # drop (Suc ?n) buf" using assms by (simp add: Cons_nth_drop_Suc)
    with True c u(1) assms show ?thesis by (simp add: putc_buf_def sink_at_def add.commute)
  next
    case False
    with c show ?thesis by (simp add: putc_buf_def sink_at_def add.commute)
  qed
qed

lemma emits_puts:
  assumes "unat sz \<le> length buf" and "0 \<notin> set xs"
  shows "emits sz buf (puts_buf sz (xs @ 0 # zs)) xs"
  using assms(2)
proof (induction xs)
  case (Cons x xs)
  then have "emits sz buf (\<lambda>st. Option.bind (putc_buf sz x st) (puts_buf sz (xs @ 0 # zs))) ([x] @ xs)"
    by (intro emits_bind emits_putc [OF assms(1)]) simp
  with Cons show ?case by (simp add: emits_def)
qed (simp add: emits_def)

lemma emits_pad:
  assumes "unat sz \<le> length buf"
  shows "emits sz buf (pad_buf sz c n) (replicate n c)"
proof (induction n)
  case (Suc n)
  from emits_bind [OF emits_putc [OF assms, of c] Suc] show ?case by (simp add: emits_def)
qed (simp add: emits_def)

lemma nul_index_text: "0 \<notin> set xs \<Longrightarrow> nul_index (xs @ 0 # zs) = Some (length xs)"
  by (induction xs) auto

lemma emits_num:
  assumes sz: "unat sz \<le> length buf" and nz: "0 \<notin> set xs"
  shows "emits sz buf (emit_num sz (xs @ 0 # zs) sign width zero)
    (padded zero width (if sign = 0 then [] else [sign]) xs)"
proof -
  define n where "n = nat (width - (int (length xs) + (if sign \<noteq> 0 then 1 else 0)))"
  let ?sg = "if sign = 0 then [] else [sign]"
  let ?h = "\<lambda>st. if zero then do {
                 st \<leftarrow> (if sign \<noteq> 0 then putc_buf sz sign st else Some st);
                 pad_buf sz 48 n st
               } else do {
                 st \<leftarrow> pad_buf sz 32 n st;
                 if sign \<noteq> 0 then putc_buf sz sign st else Some st
               }"
  have s: "emits sz buf (\<lambda>st. if sign \<noteq> 0 then putc_buf sz sign st else Some st) ?sg"
    using emits_putc [OF sz, of sign] by (simp add: emits_def)
  have z: "emits sz buf ?h (if zero then ?sg @ replicate n 48 else replicate n 32 @ ?sg)"
  proof (cases zero)
    case True
    then show ?thesis using emits_bind [OF s emits_pad [OF sz, of 48 n]] by simp
  next
    case False
    then show ?thesis using emits_bind [OF emits_pad [OF sz, of 32 n] s] by simp
  qed
  have e: "emit_num sz (xs @ 0 # zs) sign width zero = (\<lambda>st. Option.bind (?h st) (puts_buf sz (xs @ 0 # zs)))"
    by (rule ext) (simp add: emit_num_def nul_index_text [OF nz] n_def Let_def)
  have p: "padded zero width ?sg xs = (if zero then ?sg @ replicate n 48 else replicate n 32 @ ?sg) @ xs"
    by (simp add: padded_def n_def Let_def add.commute)
  show ?thesis unfolding e p by (rule emits_bind [OF z emits_puts [OF sz nz]])
qed

lemma number_text_spec:
  assumes "b = 10 \<or> b = 16"
  obtains zs where "number_text v (int b) = Some (numeral_string b (unat v) @ 0 # zs)"
    and "0 \<notin> set (numeral_string b (unat v))"
proof -
  have b: "2 \<le> b" "b \<le> 16" using assms by auto
  have l: "length (numeral_string b (unat v)) \<le> 32"
    using numeral_string_length [OF b(1), of "unat v"] unat_u32_less [of v] by simp
  then have "number_text v (int b) = Some (numeral_string b (unat v) @ 0 # drop (length (numeral_string b (unat v)) + 1) (replicate 33 0))"
    unfolding number_text_def by (subst utoa_spec [OF b]) simp_all
  then show thesis using that numeral_string_nonzero [OF b] by blast
qed

lemma upcase_text: "0 \<notin> set xs \<Longrightarrow> upcase (xs @ 0 # zs) = Some (map toupper xs @ 0 # zs)"
  by (induction xs) auto

lemma toupper_nonzero: "c \<noteq> 0 \<Longrightarrow> toupper c \<noteq> 0"
  by (auto simp: toupper_def islower_def)

lemma toupper_text: "0 \<notin> set xs \<Longrightarrow> 0 \<notin> set (map toupper xs)"
  by (induction xs) (auto simp: toupper_nonzero [THEN not_sym])

lemma terminated_split: "terminated s \<Longrightarrow> \<exists>zs. s = contents s @ 0 # zs"
  by (induction s) auto

section \<open>The conversions\<close>

lemma convert_number:
  assumes sz: "unat sz \<le> length buf" and b: "b = 10 \<or> b = 16"
    and l: "length out + length (padded zero width (if sign = 0 then [] else [sign]) (numeral_string b (unat v))) < 2 ^ 32 - 1"
  shows "(do { ds \<leftarrow> number_text v (int b); st1 \<leftarrow> emit_num sz ds sign width zero (sink_at sz buf out); Some (as, st1) }) =
      Some (as, sink_at sz buf (out @ padded zero width (if sign = 0 then [] else [sign]) (numeral_string b (unat v))))"
proof -
  obtain zs where z: "number_text v (int b) = Some (numeral_string b (unat v) @ 0 # zs)" "0 \<notin> set (numeral_string b (unat v))"
    by (rule number_text_spec [OF b])
  from emits_num [OF sz z(2), of zs sign width zero] l show ?thesis by (simp add: z(1) emits_def)
qed

lemma convert_upper:
  assumes sz: "unat sz \<le> length buf"
    and l: "length out + length (padded zero width [] (map toupper (numeral_string 16 (unat v)))) < 2 ^ 32 - 1"
  shows "(do { ds \<leftarrow> number_text v 16; us \<leftarrow> upcase ds; st1 \<leftarrow> emit_num sz us 0 width zero (sink_at sz buf out); Some (as, st1) }) =
      Some (as, sink_at sz buf (out @ padded zero width [] (map toupper (numeral_string 16 (unat v)))))"
proof -
  obtain zs where z: "number_text v (int 16) = Some (numeral_string 16 (unat v) @ 0 # zs)" "0 \<notin> set (numeral_string 16 (unat v))"
    by (rule number_text_spec [of 16 v]) simp
  have u: "0 \<notin> set (map toupper (numeral_string 16 (unat v)))" by (rule toupper_text [OF z(2)])
  from emits_num [OF sz u, of zs 0 width zero] l z upcase_text [OF z(2), of zs] show ?thesis by (simp add: emits_def)
qed

lemma convert_string:
  assumes sz: "unat sz \<le> length buf" and "string_text s = Some tx" and l: "length out + length tx < 2 ^ 32 - 1"
  shows "puts_buf sz (case s of Some s \<Rightarrow> s | None \<Rightarrow> cstr ''(null)'') (sink_at sz buf out) = Some (sink_at sz buf (out @ tx))"
proof -
  obtain zs where "(case s of Some s \<Rightarrow> s | None \<Rightarrow> cstr ''(null)'') = tx @ 0 # zs" "0 \<notin> set tx"
  proof (cases s)
    case None
    then show thesis using assms(2) that [of "[]"] by (auto simp: string_text_def cstr_def bytes_def)
  next
    case (Some x)
    with assms(2) have "terminated x" "tx = contents x" by (auto simp: string_text_def split: if_splits)
    with Some that show thesis using terminated_split [of x] contents_nonzero [of x] by auto
  qed
  with emits_puts [OF sz, of tx zs] l show ?thesis by (simp add: emits_def)
qed

lemma convert_signed:
  assumes sz: "unat sz \<le> length buf" and k: "k = 0x64 \<or> k = 0x69" and c: "conversion_text k zero width args = Some (as, tx)"
    and l: "length out + length tx < 2 ^ 32 - 1"
  shows "convert sz k zero width args (sink_at sz buf out) = Some (as, sink_at sz buf (out @ tx))"
proof -
  obtain v where a: "args = VInt v # as" and t: "tx = padded zero width (if sint v < 0 then [45] else [])
      (numeral_string 10 (unat (if sint v < 0 then - v else v)))"
    using c k by (auto simp: conversion_text_def split: list.splits va.splits)
  let ?sg = "if sint v < 0 then 45 else 0 :: u8" and ?m = "if sint v < 0 then - v else v"
  have sg: "(if ?sg = 0 then [] else [?sg]) = (if sint v < 0 then [45] else [])" by simp
  have neg: "NOT w + 1 = - w" for w :: u32 by (simp add: minus_eq_not_plus_1)
  have "convert sz k zero width args (sink_at sz buf out) =
      (do { ds \<leftarrow> number_text ?m (int 10); st1 \<leftarrow> emit_num sz ds ?sg width zero (sink_at sz buf out); Some (as, st1) })"
    using k a by (auto simp: convert_def neg)
  then show ?thesis using convert_number [OF sz, of 10 out zero width ?sg ?m as] l unfolding sg t by simp
qed

lemma convert_pointer:
  assumes sz: "unat sz \<le> length buf" and c: "conversion_text 0x70 zero width args = Some (as, tx)"
    and l: "length out + length tx < 2 ^ 32 - 1"
  shows "convert sz 0x70 zero width args (sink_at sz buf out) = Some (as, sink_at sz buf (out @ tx))"
proof -
  obtain v where a: "args = VInt v # as" and t: "tx = bytes ''0x'' @ padded zero width [] (numeral_string 16 (unat v))"
    using c by (auto simp: conversion_text_def split: list.splits va.splits)
  have "puts_buf sz (cstr ''0x'') (sink_at sz buf out) = Some (sink_at sz buf (out @ bytes ''0x''))"
    using emits_puts [OF sz, of "bytes ''0x''" "[]"] l unfolding t by (simp add: emits_def cstr_def bytes_def)
  then show ?thesis
    using a convert_number [OF sz, of 16 "out @ bytes ''0x''" zero width 0 v as] l unfolding t by (simp add: convert_def)
qed

lemma convert_spec:
  assumes sz: "unat sz \<le> length buf" and c: "conversion_text k zero width args = Some (as, tx)"
    and l: "length out + length tx < 2 ^ 32 - 1"
  shows "convert sz k zero width args (sink_at sz buf out) = Some (as, sink_at sz buf (out @ tx))"
proof -
  have putc: "putc_buf sz x (sink_at sz buf o1) = Some (sink_at sz buf (o1 @ [x]))" if "length o1 + 1 < 2 ^ 32 - 1" for x o1
    using emits_putc [OF sz, of x] that by (simp add: emits_def)
  consider "k = 0x63" | "k = 0x73" | "k = 0x64 \<or> k = 0x69" | "k = 0x75" | "k = 0x78" | "k = 0x58" | "k = 0x70" | "k = 0x25"
    | "k \<notin> {0x63, 0x73, 0x64, 0x69, 0x75, 0x78, 0x58, 0x70, 0x25}" by auto
  then show ?thesis
  proof cases
    case 1
    with c obtain v where "args = VInt v # as" "tx = [ucast v]"
      by (auto simp: conversion_text_def split: list.splits va.splits)
    with 1 l putc show ?thesis by (simp add: convert_def)
  next
    case 2
    with c obtain s where "args = VStr s # as" "string_text s = Some tx"
      by (auto simp: conversion_text_def split: list.splits va.splits)
    with 2 convert_string [OF sz _ l] show ?thesis by (simp add: convert_def)
  next
    case 3
    then show ?thesis by (rule convert_signed [OF sz _ c l])
  next
    case 4
    then show ?thesis using c l convert_number [OF sz, of 10 out zero width 0 _ as]
      by (auto simp: conversion_text_def convert_def split: list.splits va.splits)
  next
    case 5
    then show ?thesis using c l convert_number [OF sz, of 16 out zero width 0 _ as]
      by (auto simp: conversion_text_def convert_def split: list.splits va.splits)
  next
    case 6
    then show ?thesis using c l convert_upper [OF sz, of out zero width _ as]
      by (auto simp: conversion_text_def convert_def split: list.splits va.splits)
  next
    case 7
    show ?thesis using convert_pointer [OF sz c [unfolded 7] l] unfolding 7 .
  next
    case 8
    with c have "args = as" "tx = [0x25]" by (auto simp: conversion_text_def)
    with 8 l putc show ?thesis by (simp add: convert_def)
  next
    case 9
    with c have "args = as" "tx = [0x25, k]" by (auto simp: conversion_text_def)
    with 9 l putc show ?thesis by (simp add: convert_def)
  qed
qed

section \<open>The loop\<close>

lemma kvs_loop_spec:
  assumes "unat sz \<le> length buf"
  shows "format_text fmt args = Some tx \<Longrightarrow> length out + length tx < 2 ^ 32 - 1 \<Longrightarrow>
    kvs_loop sz fmt args (sink_at sz buf out) = Some (sink_at sz buf (out @ tx))"
proof (induction fmt args arbitrary: tx out rule: format_text.induct)
  case (2 c p args)
  consider "c = 0" | "c \<noteq> 0" "c \<noteq> 0x25" | "c = 0x25" by auto
  then show ?case
  proof cases
    case 1
    with 2 show ?thesis by simp
  next
    case c: 2
    with "2.prems"(1) obtain t where t: "format_text p args = Some t" "tx = c # t" by auto
    have "putc_buf sz c (sink_at sz buf out) = Some (sink_at sz buf (out @ [c]))"
      using emits_putc [OF assms, of c] "2.prems"(2) t(2) by (simp add: emits_def)
    with "2.IH"(1) [OF c t(1), of "out @ [c]"] "2.prems"(2) c t(2) show ?thesis by simp
  next
    case 3
    with "2.prems"(1) obtain zero p1 width k rest where
      z: "parse_zero p = Some (zero, p1)" and w: "parse_width 0 p1 = Some (width, k # rest)"
      by (auto split: option.splits list.splits)
    show ?thesis
    proof (cases "k = 0")
      case True
      with "2.prems" 3 z w show ?thesis by simp
    next
      case False
      with "2.prems"(1) 3 z w obtain as t r where t: "conversion_text k zero width args = Some (as, t)"
        and r: "format_text rest as = Some r" and e: "tx = t @ r"
        by (auto simp: bind_eq_Some_conv)
      have l: "length out + length t < 2 ^ 32 - 1" "length (out @ t) + length r < 2 ^ 32 - 1"
        using "2.prems"(2) e by simp_all
      have "convert sz k zero width args (sink_at sz buf out) = Some (as, sink_at sz buf (out @ t))"
        by (rule convert_spec [OF assms t l(1)])
      moreover have "kvs_loop sz rest as (sink_at sz buf (out @ t)) = Some (sink_at sz buf ((out @ t) @ r))"
        by (rule "2.IH"(2) [OF _ _ z refl w refl refl False t refl r l(2)]) (use 3 in simp_all)
      ultimately show ?thesis using 3 z w False e by simp
    qed
  qed
qed simp

lemma kvsnprintf_spec:
  assumes "unat sz \<le> length buf" and "format_text fmt args = Some tx" and "length tx < 2 ^ 31"
  shows "kvsnprintf buf sz fmt args =
    Some (if sz = 0 then buf
          else take (unat sz - 1) tx @ [0] @ drop (min (length tx) (unat sz - 1) + 1) buf, int (length tx))"
proof -
  let ?w = "word_of_nat (length tx) :: u32" and ?k = "unat sz - 1"
  have s0: "sink_at sz buf [] = (buf, 0)" by (simp add: sink_at_def)
  have l: "kvs_loop sz fmt args (buf, 0) = Some (sink_at sz buf tx)"
    using kvs_loop_spec [OF assms(1,2), of "[]"] assms(3) by (simp add: s0)
  have u: "unat ?w = length tx" using assms(3) by (simp add: unat_of_nat_small)
  have si: "sint ?w = int (length tx)" unfolding sint_u32 u using assms(3) by simp
  show ?thesis
  proof (cases "sz = 0")
    case True
    then show ?thesis using l si by (simp add: kvsnprintf_def sink_at_def)
  next
    case False
    then have p: "0 < unat sz" by (simp add: unat_gt_0)
    let ?i = "unat (if ?w < sz then ?w else sz - 1)" and ?b = "take ?k tx @ drop (min (length tx) ?k) buf"
    have i: "?i = min (length tx) ?k"
      using u p by (auto simp: word_less_nat_alt unat_sub_small word_le_nat_alt)
    have lb: "?i < length ?b" and lt: "length (take ?k tx) = ?i" using i p assms(1) by auto
    have "drop ?i buf = buf ! ?i # drop (?i + 1) buf" using i p assms(1) by (simp add: Cons_nth_drop_Suc)
    then have "?b[?i := 0] = take ?k tx @ 0 # drop (?i + 1) buf"
      unfolding i [symmetric] using lt by (metis list_update_length)
    then show ?thesis using False l si lb i by (simp add: kvsnprintf_def sink_at_def word_gt_0)
  qed
qed

section \<open>Properties\<close>

text \<open>C27: \<^verbatim>\<open>kvsnprintf\<close> never writes outside the first \<^verbatim>\<open>size\<close> bytes, terminates the buffer whenever
  it has room for the NUL, stores the longest prefix of the formatted text that fits, and returns the
  length of the whole text; bytes after the NUL are untouched.\<close>

theorem kvsnprintf_correct:
  assumes "unat sz \<le> length buf" and "format_text fmt args = Some tx" and "length tx < 2 ^ 31"
  shows "kvsnprintf buf sz fmt args =
    Some (if sz = 0 then buf
          else take (unat sz - 1) tx @ [0] @ drop (min (length tx) (unat sz - 1) + 1) buf, int (length tx))"
  by (rule kvsnprintf_spec [OF assms])

lemma selfcheck_text:
  "format_text (cstr ''%d %u %x %s %c %%'') [VInt (- 5), VInt 7, VInt 255, VStr (Some (cstr ''ok'')), VInt 65] =
     Some (bytes ''-5 7 ff ok A %'')"
  by (simp add: cstr_def bytes_def parse_zero_def conversion_text_def string_text_def padded_def isdigit_def
      numeral_string_def base_digits.simps digits_def)

theorem kvsnprintf_correct_witness:
  "kvsnprintf (replicate 64 7) 64 (cstr ''%d %u %x %s %c %%'')
     [VInt (- 5), VInt 7, VInt 255, VStr (Some (cstr ''ok'')), VInt 65] =
   Some (cstr ''-5 7 ff ok A %'' @ replicate 49 7, 14)"
proof -
  have "unat (64 :: u32) \<le> length (replicate 64 (7 :: u8))" "length (bytes ''-5 7 ff ok A %'') < 2 ^ 31"
    by (simp_all add: bytes_def)
  from kvsnprintf_correct [OF this(1) selfcheck_text this(2)] show ?thesis by (simp add: cstr_def bytes_def)
qed

end
