(* ===== verification/Terminal.thy ===== *)
theory Terminal
  imports Libk
begin

text \<open>
  The VGA text terminal of \<^verbatim>\<open>kernel.c\<close>: clearing, writing, scrolling, backspace and the panic
  screen. Video memory is the array of 16-bit cells from \<^verbatim>\<open>VGA_MEMORY\<close> on; it has no bounds of its
  own, so that staying on the screen is a theorem. The abstract view is the list of the 25 lines of 80
  cells.
\<close>

section \<open>State\<close>

definition VGA_WIDTH :: nat where [simp]: "VGA_WIDTH = 80"
definition VGA_HEIGHT :: nat where [simp]: "VGA_HEIGHT = 25"

definition COLOR_BLACK :: u8 where [simp]: "COLOR_BLACK = 0"
definition COLOR_RED :: u8 where [simp]: "COLOR_RED = 4"
definition COLOR_LIGHT_GREY :: u8 where [simp]: "COLOR_LIGHT_GREY = 7"
definition COLOR_LIGHT_GREEN :: u8 where [simp]: "COLOR_LIGHT_GREEN = 10"
definition COLOR_LIGHT_CYAN :: u8 where [simp]: "COLOR_LIGHT_CYAN = 11"
definition COLOR_LIGHT_BROWN :: u8 where [simp]: "COLOR_LIGHT_BROWN = 14"
definition COLOR_WHITE :: u8 where [simp]: "COLOR_WHITE = 15"

record terminal =
  video_memory :: "nat \<Rightarrow> u16"
  terminal_row :: int
  terminal_column :: int
  terminal_color :: u8

section \<open>Operations\<close>

definition vga_entry_color :: "u8 \<Rightarrow> u8 \<Rightarrow> u8" where
  "vga_entry_color fg bg = fg OR push_bit 4 bg"

definition vga_entry :: "u8 \<Rightarrow> u8 \<Rightarrow> u16" where
  "vga_entry uc color = ucast uc OR push_bit 8 (ucast color)"

text \<open>\<^verbatim>\<open>const size_t index = terminal_row * VGA_WIDTH + terminal_column\<close>\<close>

definition cell_index :: "terminal \<Rightarrow> nat" where
  "cell_index s = unat (word_of_int (terminal_row s * 80 + terminal_column s) :: u32)"

definition terminal_clear :: "terminal \<Rightarrow> terminal" where
  "terminal_clear s =
     s\<lparr>video_memory := fold (\<lambda>y. fold (\<lambda>x m. m(y * VGA_WIDTH + x := vga_entry 32 (terminal_color s))) [0..<VGA_WIDTH])
          [0..<VGA_HEIGHT] (video_memory s),
       terminal_row := 0, terminal_column := 0\<rparr>"

definition terminal_setcolor :: "u8 \<Rightarrow> terminal \<Rightarrow> terminal" where
  "terminal_setcolor color s = s\<lparr>terminal_color := color\<rparr>"

text \<open>The scrolling loops of \<^verbatim>\<open>terminal_putchar\<close>: every line moves up, the last one is cleared.\<close>

definition scroll_up :: "u16 \<Rightarrow> (nat \<Rightarrow> u16) \<Rightarrow> nat \<Rightarrow> u16" where
  "scroll_up blank m =
     (let m1 = fold (\<lambda>y. fold (\<lambda>x m. m((y - 1) * VGA_WIDTH + x := m (y * VGA_WIDTH + x))) [0..<VGA_WIDTH])
                 [1..<VGA_HEIGHT] m
      in fold (\<lambda>x m. m((VGA_HEIGHT - 1) * VGA_WIDTH + x := blank)) [0..<VGA_WIDTH] m1)"

definition terminal_putchar :: "u8 \<Rightarrow> terminal \<Rightarrow> terminal" where
  "terminal_putchar c s =
     (if c = 10 then
        let s = s\<lparr>terminal_column := 0, terminal_row := terminal_row s + 1\<rparr>
        in if terminal_row s = int VGA_HEIGHT
           then s\<lparr>video_memory := scroll_up (vga_entry 32 (terminal_color s)) (video_memory s),
                  terminal_row := int VGA_HEIGHT - 1\<rparr>
           else s
      else
        let s = s\<lparr>video_memory := (video_memory s)(cell_index s := vga_entry c (terminal_color s)),
                  terminal_column := terminal_column s + 1\<rparr>
        in if terminal_column s = int VGA_WIDTH
           then let s = s\<lparr>terminal_column := 0, terminal_row := terminal_row s + 1\<rparr>
                in if terminal_row s = int VGA_HEIGHT then s\<lparr>terminal_row := 0\<rparr> else s
           else s)"

text \<open>\<open>data\<close> is the bytes from the pointer on.\<close>

fun terminal_write :: "u8 list \<Rightarrow> nat \<Rightarrow> terminal \<Rightarrow> terminal option" where
  "terminal_write data 0 s = Some s"
| "terminal_write [] (Suc n) s = None"
| "terminal_write (c # data) (Suc n) s = terminal_write data n (terminal_putchar c s)"

definition terminal_writestring :: "u8 list \<Rightarrow> terminal \<Rightarrow> terminal option" where
  "terminal_writestring data s = do { n \<leftarrow> strlen data; terminal_write data (unat n) s }"

definition terminal_backspace :: "terminal \<Rightarrow> terminal" where
  "terminal_backspace s =
     (if terminal_column s > 0 then
        let s = s\<lparr>terminal_column := terminal_column s - 1\<rparr>
        in s\<lparr>video_memory := (video_memory s)(cell_index s := vga_entry 32 (terminal_color s))\<rparr>
      else if terminal_row s > 0 then
        let s = s\<lparr>terminal_row := terminal_row s - 1, terminal_column := int VGA_WIDTH - 1\<rparr>
        in s\<lparr>video_memory := (video_memory s)(cell_index s := vga_entry 32 (terminal_color s))\<rparr>
      else s)"

text \<open>The screen on which \<^verbatim>\<open>kernel_panic\<close> stops the machine; a null message is \<^const>\<open>None\<close>.\<close>

definition kernel_panic :: "u8 list option \<Rightarrow> terminal \<Rightarrow> terminal option" where
  "kernel_panic msg s =
     do {
       s \<leftarrow> terminal_writestring (bytes [CHR 0x0A] @ bytes ''*** KERNEL PANIC ***'' @ [10, 0])
              (terminal_setcolor (vga_entry_color COLOR_WHITE COLOR_RED) s);
       case msg of
         None \<Rightarrow> Some s
       | Some m \<Rightarrow> do { s \<leftarrow> terminal_writestring m s; terminal_writestring [10, 0] s }
     }"

section \<open>The screen\<close>

definition screen :: "terminal \<Rightarrow> u16 list list" where
  "screen s = map (\<lambda>y. map (\<lambda>x. video_memory s (y * 80 + x)) [0..<80]) [0..<25]"

text \<open>The cursor is on the screen.\<close>

definition cursor_ok :: "terminal \<Rightarrow> bool" where
  "cursor_ok s \<longleftrightarrow> 0 \<le> terminal_row s \<and> terminal_row s < 25 \<and> 0 \<le> terminal_column s \<and> terminal_column s < 80"

lemma cell_index_ok: "cursor_ok s \<Longrightarrow> cell_index s = nat (terminal_row s) * 80 + nat (terminal_column s) \<and> cell_index s < 2000"
proof -
  assume "cursor_ok s"
  then obtain r c where rc: "terminal_row s = int r" "terminal_column s = int c" "r < 25" "c < 80"
    unfolding cursor_ok_def by (metis int_nat_eq nat_less_iff of_nat_numeral zero_le_imp_eq_int nat_int)
  have "word_of_int (int r * 80 + int c) = (word_of_nat (r * 80 + c) :: u32)" by simp
  moreover have "unat (word_of_nat (r * 80 + c) :: u32) = r * 80 + c" using rc by (intro unat_of_nat_small) simp
  ultimately show ?thesis using rc by (simp add: cell_index_def)
qed

lemma nested_fold:
  "fold (\<lambda>y. fold (\<lambda>x. g (y * 80 + x)) [0..<80]) [a..<a + n] = fold g [a * 80..<(a + n) * 80]" for g :: "nat \<Rightarrow> 'b \<Rightarrow> 'b"
proof (induction n)
  case (Suc n)
  have s: "[a * 80..<(a + Suc n) * 80] = [a * 80..<(a + n) * 80] @ [(a + n) * 80..<(a + n) * 80 + 80]"
    using upt_add_eq_append [of "a * 80" "(a + n) * 80" 80] by (simp add: algebra_simps)
  have m: "[(a + n) * 80..<(a + n) * 80 + 80] = map (\<lambda>x. (a + n) * 80 + x) [0..<80]"
    using map_add_upt [of "(a + n) * 80" 80] by (simp add: add.commute)
  show ?case unfolding s m using Suc by (simp add: fold_map o_def fun_eq_iff)
qed simp

lemma fold_blank: "fold (\<lambda>i m. m(a + i := v)) [0..<n] m j = (if a \<le> j \<and> j < a + n then v else m j)"
  by (induction n) auto

lemma fold_shift: "fold (\<lambda>i m. m(i - 80 := m i)) [80..<80 + n] m j = (if j < n then m (j + 80) else m j)" for j :: nat
proof (induction n arbitrary: j)
  case (Suc n)
  have "[80..<80 + Suc n] = [80..<80 + n] @ [80 + n]" using upt_Suc_append [of 80 "80 + n"] by simp
  then show ?case using Suc by (simp del: upt.simps) (auto simp: less_Suc_eq add.commute)
qed simp

lemma clear_cells: "video_memory (terminal_clear s) j = (if j < 2000 then vga_entry 32 (terminal_color s) else video_memory s j)"
proof -
  let ?v = "vga_entry 32 (terminal_color s)"
  have "video_memory (terminal_clear s) = fold (\<lambda>i m. m(0 + i := ?v)) [0..<2000] (video_memory s)"
    using nested_fold [of "\<lambda>i m. m(i := ?v)" 0 25] by (simp add: terminal_clear_def)
  then show ?thesis using fold_blank [of 0 ?v 2000] by simp
qed

lemma scroll_cells: "scroll_up v m j = (if j < 1920 then m (j + 80) else if j < 2000 then v else m j)"
proof -
  have r: "fold (\<lambda>x m. m((y - 1) * 80 + x := m (y * 80 + x))) [0..<80] = fold (\<lambda>x m. m(y * 80 + x - 80 := m (y * 80 + x))) [0..<80]"
    if "y \<in> set [1..<25]" for y and m :: "nat \<Rightarrow> u16"
  proof -
    have "(y - 1) * 80 + x = y * 80 + x - 80" for x using that by (simp add: algebra_simps)
    then show ?thesis by simp
  qed
  have "fold (\<lambda>y. fold (\<lambda>x m. m((y - 1) * 80 + x := m (y * 80 + x))) [0..<80]) [1..<25] m =
      fold (\<lambda>y. fold (\<lambda>x m. m(y * 80 + x - 80 := m (y * 80 + x))) [0..<80]) [1..<25] m"
    by (rule fold_cong [OF refl refl r])
  also have "\<dots> = fold (\<lambda>i m. m(i - 80 := m i)) [80..<80 + 1920] m"
    using nested_fold [of "\<lambda>i (m :: nat \<Rightarrow> u16). m(i - 80 := m i)" 1 24] by (simp del: upt_rec_numeral)
  finally show ?thesis
    unfolding scroll_up_def Let_def using fold_blank [of 1920 v 80] fold_shift [of 1920 m]
    by (simp add: add.commute del: upt_rec_numeral)
qed

text \<open>Writing a cell of the screen, and scrolling it.\<close>

lemma screen_update:
  assumes "r < 25" and "c < 80"
  shows "map (\<lambda>y. map (\<lambda>x. (m(r * 80 + c := v)) (y * 80 + x)) [0..<80]) [0..<25] =
    (map (\<lambda>y. map (\<lambda>x. m (y * 80 + x)) [0..<80]) [0..<25])[r := (map (\<lambda>x. m (r * 80 + x)) [0..<80])[c := v]]"
proof (rule nth_equalityI)
  fix y assume y: "y < length (map (\<lambda>y. map (\<lambda>x. (m(r * 80 + c := v)) (y * 80 + x)) [0..<80]) [0..<25])"
  have ne: "y * 80 + x = r * 80 + c \<longleftrightarrow> y = r \<and> x = c" if "x < 80" for x
    using block_eq_iff [OF that assms(2), of y r] by (simp add: mult.commute)
  show "map (\<lambda>y. map (\<lambda>x. (m(r * 80 + c := v)) (y * 80 + x)) [0..<80]) [0..<25] ! y =
      (map (\<lambda>y. map (\<lambda>x. m (y * 80 + x)) [0..<80]) [0..<25])[r := (map (\<lambda>x. m (r * 80 + x)) [0..<80])[c := v]] ! y"
    using y assms ne by (cases "y = r") (auto simp: nth_list_update intro!: nth_equalityI)
qed simp

lemma screen_scroll:
  "map (\<lambda>y. map (\<lambda>x. scroll_up v m (y * 80 + x)) [0..<80]) [0..<25] =
    tl (map (\<lambda>y. map (\<lambda>x. m (y * 80 + x)) [0..<80]) [0..<25]) @ [replicate 80 v]"
proof -
  have u: "[0..<25] = [0..<24] @ [24]" "[0..<25] = 0 # map Suc [0..<24]" by (simp_all add: upt_rec)
  have a: "map (\<lambda>y. map (\<lambda>x. scroll_up v m (y * 80 + x)) [0..<80]) [0..<24] = map (\<lambda>y. map (\<lambda>x. m (Suc y * 80 + x)) [0..<80]) [0..<24]"
    by (auto simp: scroll_cells algebra_simps)
  have b: "map (\<lambda>x. scroll_up v m (24 * 80 + x)) [0..<80] = replicate 80 v"
    by (rule nth_equalityI) (auto simp: scroll_cells)
  have "tl (map (\<lambda>y. map (\<lambda>x. m (y * 80 + x)) [0..<80]) [0..<25]) = map (\<lambda>y. map (\<lambda>x. m (Suc y * 80 + x)) [0..<80]) [0..<24]"
    unfolding u(2) by simp
  with a b show ?thesis unfolding u(1) by simp
qed

section \<open>The terminal as a text screen\<close>

text \<open>The lines of the screen with the cursor, and what a character does to them.\<close>

type_synonym text_screen = "u16 list list \<times> nat \<times> nat"

definition view :: "terminal \<Rightarrow> text_screen" where
  "view s = (screen s, nat (terminal_row s), nat (terminal_column s))"

definition put_spec :: "u8 \<Rightarrow> u8 \<Rightarrow> text_screen \<Rightarrow> text_screen" where
  "put_spec color c = (\<lambda>(ls, r, x).
     if c = 10 then (if r = 24 then (tl ls @ [replicate 80 (vga_entry 32 color)], 24, 0) else (ls, r + 1, 0))
     else (ls[r := (ls ! r)[x := vga_entry c color]],
           if x < 79 then (r, x + 1) else if r < 24 then (r + 1, 0) else (0, 0)))"

definition below_screen :: "terminal \<Rightarrow> nat \<Rightarrow> u16" where
  "below_screen s i = video_memory s (2000 + i)"

lemma putchar_refines:
  assumes ok: "cursor_ok s"
  shows "view (terminal_putchar c s) = put_spec (terminal_color s) c (view s)" and "cursor_ok (terminal_putchar c s)"
    and "terminal_color (terminal_putchar c s) = terminal_color s" and "below_screen (terminal_putchar c s) = below_screen s"
proof -
  define r x where "r = nat (terminal_row s)" and "x = nat (terminal_column s)"
  have rx: "terminal_row s = int r" "terminal_column s = int x" "r < 25" "x < 80" using ok by (auto simp: cursor_ok_def r_def x_def)
  have i: "cell_index s = r * 80 + x" "cell_index s < 2000" using cell_index_ok [OF ok] by (simp_all add: r_def x_def)
  let ?m = "video_memory s"
  have l: "screen s ! r = map (\<lambda>x. ?m (r * 80 + x)) [0..<80]" using rx by (simp add: screen_def)
  have u: "map (\<lambda>y. map (\<lambda>x. (?m(cell_index s := v)) (y * 80 + x)) [0..<80]) [0..<25] = (screen s)[r := (screen s ! r)[x := v]]" for v
    unfolding i(1) l by (simp only: screen_def screen_update [OF rx(3,4)])
  note sc = screen_scroll [of _ ?m, folded screen_def]
  have e: "terminal_putchar c s = (if c = 10 then
      if r = 24 then s\<lparr>video_memory := scroll_up (vga_entry 32 (terminal_color s)) ?m, terminal_row := 24, terminal_column := 0\<rparr>
      else s\<lparr>terminal_row := int r + 1, terminal_column := 0\<rparr>
    else s\<lparr>video_memory := ?m(cell_index s := vga_entry c (terminal_color s)),
      terminal_row := (if x < 79 then int r else if r < 24 then int r + 1 else 0),
      terminal_column := (if x < 79 then int x + 1 else 0)\<rparr>)"
    using rx by (cases s) (auto simp: terminal_putchar_def cell_index_def Let_def)
  show "view (terminal_putchar c s) = put_spec (terminal_color s) c (view s)"
    unfolding e using rx u sc
    by (simp add: view_def put_spec_def screen_def nat_add_distrib)
  show "cursor_ok (terminal_putchar c s)" unfolding e using rx by (auto simp: cursor_ok_def)
  show "terminal_color (terminal_putchar c s) = terminal_color s" unfolding e by simp
  show "below_screen (terminal_putchar c s) = below_screen s"
    unfolding e using i(2) by (auto simp: below_screen_def scroll_cells)
qed

lemma fold_putchar_refines:
  "cursor_ok s \<Longrightarrow> view (fold terminal_putchar cs s) = fold (put_spec (terminal_color s)) cs (view s) \<and>
    cursor_ok (fold terminal_putchar cs s) \<and> below_screen (fold terminal_putchar cs s) = below_screen s \<and>
    terminal_color (fold terminal_putchar cs s) = terminal_color s"
  by (induction cs arbitrary: s) (simp_all add: putchar_refines)

lemma terminal_write_take: "n \<le> length data \<Longrightarrow> terminal_write data n s = Some (fold terminal_putchar (take n data) s)"
  by (induction data n s rule: terminal_write.induct) auto

lemma contents_take: "terminated d \<Longrightarrow> take (length (contents d)) d = contents d" "length (contents d) \<le> length d"
  by (induction d) auto

lemma writestring_fold:
  assumes "terminated d" and "length (contents d) < 2 ^ 32"
  shows "terminal_writestring d s = Some (fold terminal_putchar (contents d) s)"
  using assms contents_take(1) [OF assms(1)] contents_take(2) [of d] by (simp add: terminal_writestring_def strlen_spec terminal_write_take unat_of_nat_small)

lemma contents_length: "length (contents xs) \<le> length xs"
  by (simp add: contents_def length_takeWhile_le)

lemma kernel_panic_total:
  assumes "length msg < 2 ^ 31"
  shows "\<exists>t'. kernel_panic (Some (cstr msg)) t = Some t'"
proof -
  have w: "\<exists>t'. terminal_writestring d t = Some t'" if "0 \<in> set d" "length d < 2 ^ 32" for d t
    using writestring_fold [of d t] that contents_length [of d] by auto
  obtain t1 where "terminal_writestring (bytes [CHR 0x0A] @ bytes ''*** KERNEL PANIC ***'' @ [10, 0])
      (terminal_setcolor (vga_entry_color COLOR_WHITE COLOR_RED) t) = Some t1"
    using w [of "bytes [CHR 0x0A] @ bytes ''*** KERNEL PANIC ***'' @ [10, 0]"] by (auto simp: bytes_def)
  moreover obtain t2 where "terminal_writestring (cstr msg) t1 = Some t2"
    using w [of "cstr msg" t1] assms by (auto simp: cstr_def bytes_def)
  moreover obtain t3 where "terminal_writestring [10, 0] t2 = Some t3" using w [of "[10, 0]" t2] by auto
  ultimately show ?thesis by (simp add: kernel_panic_def)
qed

text \<open>Erasing a character that was just typed.\<close>

lemma backspace_putchar:
  assumes "cursor_ok s" and "c \<noteq> 10" and "\<not> (terminal_row s = 24 \<and> terminal_column s = 79)"
  shows "terminal_backspace (terminal_putchar c s) = s\<lparr>video_memory := (video_memory s)(cell_index s := vga_entry 32 (terminal_color s))\<rparr>"
  using assms by (cases s) (auto simp: terminal_backspace_def terminal_putchar_def cursor_ok_def cell_index_def Let_def add.commute)

section \<open>Properties\<close>

text \<open>C28: \<^verbatim>\<open>terminal_writestring\<close> never touches memory outside the 80 by 25 screen and keeps the cursor on
  it. The screen it leaves is what writing the characters one by one to a text screen gives: a newline on
  the last line scrolls; a character in the last column moves to the next line, but from the last line
  the cursor goes back to the top of the screen without scrolling.\<close>

theorem terminal_writestring_refines:
  assumes "cursor_ok s" and "terminated d" and "length (contents d) < 2 ^ 32"
  shows "\<exists>s'. terminal_writestring d s = Some s' \<and> view s' = fold (put_spec (terminal_color s)) (contents d) (view s) \<and>
    cursor_ok s' \<and> below_screen s' = below_screen s"
  using writestring_fold [OF assms(2,3), of s] fold_putchar_refines [OF assms(1)] by simp

definition blank_terminal :: terminal where
  "blank_terminal = \<lparr>video_memory = (\<lambda>_. 0x720), terminal_row = 24, terminal_column = 79, terminal_color = 7\<rparr>"

theorem terminal_writestring_refines_witness:
  "\<exists>s'. terminal_writestring (cstr ''ab'') blank_terminal = Some s' \<and> snd (view s') = (0, 1) \<and>
    below_screen s' = below_screen blank_terminal"
proof -
  have ok: "cursor_ok blank_terminal" by (simp add: cursor_ok_def blank_terminal_def)
  have "terminated (cstr ''ab'')" "contents (cstr ''ab'') = bytes ''ab''" "length (contents (cstr ''ab'')) < 2 ^ 32"
    by (simp_all add: cstr_def bytes_def)
  from terminal_writestring_refines [OF ok this(1,3)] this(2) show ?thesis
    by (auto simp: bytes_def put_spec_def view_def blank_terminal_def)
qed

end
