(* ===== verification/Console.thy ===== *)
theory Console
  imports Serial Printf Terminal
begin

text \<open>
  The kernel log of \<^verbatim>\<open>kernel.c\<close>: text that goes to the screen and to the first serial port
  (\<^verbatim>\<open>klog\<close>, \<^verbatim>\<open>klog_uint\<close>, \<^verbatim>\<open>kprintf\<close>). The relation \<open>emitted\<close> says what a call put on both; it
  composes, so that the effect of a sequence of log calls is the concatenated text.
\<close>

section \<open>State and operations\<close>

record console =
  vga :: terminal
  ports :: history

text \<open>\<^verbatim>\<open>terminal_putchar(c); serial_putchar(COM1, c);\<close>\<close>

definition con_putchar :: "device \<Rightarrow> u8 \<Rightarrow> 'a console_scheme \<Rightarrow> 'a console_scheme option" where
  "con_putchar d c s =
     do { h \<leftarrow> serial_putchar d COM1 c (ports s); Some (s\<lparr>vga := terminal_putchar c (vga s), ports := h\<rparr>) }"

definition klog :: "device \<Rightarrow> u8 list \<Rightarrow> 'a console_scheme \<Rightarrow> 'a console_scheme option" where
  "klog d str s =
     do { t \<leftarrow> terminal_writestring str (vga s);
          h \<leftarrow> serial_writestring d COM1 str (ports s);
          Some (s\<lparr>vga := t, ports := h\<rparr>) }"

text \<open>What the local buffers hold before they are written is not read.\<close>

definition klog_uint :: "device \<Rightarrow> u32 \<Rightarrow> 'a console_scheme \<Rightarrow> 'a console_scheme option" where
  "klog_uint d v s = do { buf \<leftarrow> utoa v (replicate 12 0) 0 10; klog d buf s }"

definition kprintf :: "device \<Rightarrow> u8 list \<Rightarrow> va list \<Rightarrow> 'a console_scheme \<Rightarrow> 'a console_scheme option" where
  "kprintf d fmt args s = do { (buf, n) \<leftarrow> kvsnprintf (replicate 256 0) 256 fmt args; klog d buf s }"

section \<open>What was written\<close>

definition emitted :: "u8 list \<Rightarrow> 'a console_scheme \<Rightarrow> 'a console_scheme \<Rightarrow> bool" where
  "emitted cs s s' \<longleftrightarrow>
     (\<exists>k. s' = s\<lparr>vga := fold terminal_putchar cs (vga s), ports := ports s @ k\<rparr> \<and> writes_to COM1 k = cs)"

abbreviation uart_ready :: "device \<Rightarrow> bool" where
  "uart_ready d \<equiv> becomes_ready d (COM1 + 5) 0x20"

lemma emitted_nil [simp]: "emitted [] s s"
  unfolding emitted_def by (rule exI [of _ "[]"]) simp

lemma emitted_append:
  assumes "emitted xs s s1" and "emitted ys s1 s2"
  shows "emitted (xs @ ys) s s2"
proof -
  obtain k1 k2 where "s1 = s\<lparr>vga := fold terminal_putchar xs (vga s), ports := ports s @ k1\<rparr>" "writes_to COM1 k1 = xs"
    "s2 = s1\<lparr>vga := fold terminal_putchar ys (vga s1), ports := ports s1 @ k2\<rparr>" "writes_to COM1 k2 = ys"
    using assms unfolding emitted_def by blast
  then show ?thesis unfolding emitted_def by (intro exI [of _ "k1 @ k2"]) simp
qed

text \<open>The screen after the output, and the rest of the state.\<close>

lemma emitted_facts:
  assumes "emitted cs s s'"
  shows "vga s' = fold terminal_putchar cs (vga s)" and "ports s' = ports s @ added (ports s) (ports s')"
    and "writes_to COM1 (added (ports s) (ports s')) = cs" and "console.more s' = console.more s"
  using assms by (auto simp: emitted_def)

lemma emitted_screen:
  assumes "emitted cs s s'" and "cursor_ok (vga s)"
  shows "view (vga s') = fold (put_spec (terminal_color (vga s))) cs (view (vga s))" and "cursor_ok (vga s')"
    and "below_screen (vga s') = below_screen (vga s)"
  using fold_putchar_refines [OF assms(2), of cs] unfolding emitted_facts(1) [OF assms(1)] by simp_all

lemma con_putchar_emits:
  assumes "uart_ready d"
  shows "\<exists>s'. con_putchar d c s = Some s' \<and> emitted [c] s s'"
proof -
  obtain k where "serial_putchar d COM1 c (ports s) = Some (ports s @ k)" "writes_to COM1 k = [c]"
    using serial_putchar_spec [OF assms] by metis
  then show ?thesis by (auto simp: con_putchar_def emitted_def)
qed

lemma klog_emits:
  assumes "uart_ready d" and "terminated str" and "length (contents str) < 2 ^ 32"
  shows "\<exists>s'. klog d str s = Some s' \<and> emitted (contents str) s s'"
proof -
  obtain k where "serial_writestring d COM1 str (ports s) = Some (ports s @ k)" "writes_to COM1 k = contents str"
    using serial_writestring_spec [OF assms(1,2)] by metis
  then show ?thesis using writestring_fold [OF assms(2,3)] by (auto simp: klog_def emitted_def)
qed

lemma cstr_facts: "0 \<notin> set (bytes str) \<Longrightarrow> terminated (cstr str) \<and> contents (cstr str) = bytes str"
  by (simp add: cstr_def)

lemma text_terminated: "0 \<notin> set xs \<Longrightarrow> terminated (xs @ 0 # zs) \<and> contents (xs @ 0 # zs) = xs"
  by simp

lemma klog_text:
  assumes "uart_ready d" and "0 \<notin> set cs" and "length cs < 2 ^ 32"
  shows "\<exists>s'. klog d (cs @ 0 # zs) s = Some s' \<and> emitted cs s s'"
  using klog_emits [OF assms(1), of "cs @ 0 # zs"] assms(2,3) by simp

lemma klog_uint_emits:
  assumes "uart_ready d"
  shows "\<exists>s'. klog_uint d v s = Some s' \<and> emitted (numeral_string 10 (unat v)) s s'"
proof -
  have l: "length (numeral_string 10 (unat v)) \<le> 10" using decimal_length [of "unat v"] unat_u32_less [of v] by simp
  have "\<exists>zs. utoa v (replicate 12 0) 0 10 = Some (numeral_string 10 (unat v) @ 0 # zs)"
    using utoa_spec [where b = 10 and v = v and buf = "replicate 12 0" and off = 0] l by simp
  then show ?thesis
    using klog_text [OF assms numeral_string_nonzero [of 10 "unat v"]] l by (fastforce simp: klog_uint_def)
qed

text \<open>\<^verbatim>\<open>kprintf\<close> cuts the text at 255 characters.\<close>

lemma kprintf_emits:
  assumes "uart_ready d" and "format_text fmt args = Some tx" and "length tx < 2 ^ 31" and "0 \<notin> set tx"
  shows "\<exists>s'. kprintf d fmt args s = Some s' \<and> emitted (take 255 tx) s s'"
proof -
  have "kvsnprintf (replicate 256 0) 256 fmt args =
      Some (take 255 tx @ 0 # drop (min (length tx) 255 + 1) (replicate 256 0), int (length tx))"
    using kvsnprintf_spec [of 256 "replicate 256 0" fmt args tx] assms(2,3) by simp
  moreover have "0 \<notin> set (take 255 tx)" using assms(4) by (auto dest: in_set_takeD)
  moreover have "length (take 255 tx) < 2 ^ 32" by (simp add: min_def)
  ultimately show ?thesis using klog_text [OF assms(1), of "take 255 tx"] by (auto simp: kprintf_def)
qed

end
