(* ===== verification/BTreeMap.thy ===== *)
theory BTreeMap
  imports Prelude
begin

text \<open>
  The ordered map \<^verbatim>\<open>BTreeMap\<close> of the Rust standard library, as the list of its entries in key order:
  insertion, removal, and that they keep the order and update the map the list denotes.
\<close>

section \<open>Ordered maps of the standard library\<close>

fun bt_insert :: "'k :: linorder \<Rightarrow> 'v \<Rightarrow> ('k \<times> 'v) list \<Rightarrow> ('k \<times> 'v) list" where
  "bt_insert k v [] = [(k, v)]"
| "bt_insert k v ((a, b) # m) =
     (if k < a then (k, v) # (a, b) # m else if k = a then (k, v) # m else (a, b) # bt_insert k v m)"

definition bt_remove :: "'k \<Rightarrow> ('k \<times> 'v) list \<Rightarrow> ('k \<times> 'v) list" where
  "bt_remove k m = filter (\<lambda>(a, b). a \<noteq> k) m"

lemma map_of_bt_insert [simp]: "map_of (bt_insert k v m) = (map_of m)(k \<mapsto> v)"
  by (induction m rule: bt_insert.induct) auto

lemma keys_bt_insert [simp]: "fst ` set (bt_insert k v m) = insert k (fst ` set m)"
  by (induction m rule: bt_insert.induct) auto

lemma map_of_bt_remove [simp]: "map_of (bt_remove k m) = (map_of m)(k := None)"
  by (induction m) (auto simp: bt_remove_def)

abbreviation bt_ordered :: "('k :: linorder \<times> 'v) list \<Rightarrow> bool" where
  "bt_ordered m \<equiv> sorted_wrt (<) (map fst m)"

lemma bt_insert_ordered: "bt_ordered m \<Longrightarrow> bt_ordered (bt_insert k v m)"
proof (induction m rule: bt_insert.induct)
  case (2 k v a b m)
  then show ?case by (auto simp: image_iff)
qed simp

lemma bt_remove_insert [simp]: "bt_remove k (bt_insert k v m) = bt_remove k m"
  by (induction m rule: bt_insert.induct) (auto simp: bt_remove_def)

lemma bt_remove_absent: "map_of m k = None \<Longrightarrow> bt_remove k m = m"
  by (force simp: bt_remove_def map_of_eq_None_iff filter_id_conv)

lemma bt_remove_ordered: "bt_ordered m \<Longrightarrow> bt_ordered (bt_remove k m)"
  by (induction m) (auto simp: bt_remove_def)

lemma bt_insert_length: "length (bt_insert k v m) \<le> Suc (length m)"
  by (induction m rule: bt_insert.induct) auto

end
