(* ===== verification/Vfs.thy ===== *)
theory Vfs
  imports BTreeMap "HOL-Library.List_Lexorder"
begin

text \<open>
  The virtual file system (\<^verbatim>\<open>rust/munux-rs/src/vfs.rs\<close>): the in-memory file system, the table of open
  descriptors and the C entry points. A path
  is the list of its bytes. The locks of the two globals are taken and released inside each call, one
  after the other, and are not part of the state; running out of memory, which stops the kernel, is not
  modelled. The trait \<^verbatim>\<open>Filesystem\<close> is the locale \<open>filesystem\<close>, interpreted on \<^verbatim>\<open>TmpFs\<close>.
\<close>

section \<open>The in-memory file system\<close>

datatype VfsError = NotFound | AlreadyExists | NotADirectory | IsADirectory | InvalidPath
datatype NodeKind = KFile | KDir
datatype vnode = File "u8 list" | Dir

record Metadata =
  kind :: NodeKind
  msize :: nat

type_synonym path = "u8 list"
type_synonym TmpFs = "(path \<times> vnode) list"

definition TmpFs_new :: TmpFs where
  "TmpFs_new = bt_insert (bytes ''/'') Dir []"

definition clean :: "path \<Rightarrow> VfsError + path" where
  "clean p =
     (if p = [] \<or> hd p \<noteq> 47 then Inl InvalidPath
      else if length p > 1 \<and> last p = 47 then Inr (butlast p) else Inr p)"

fun rfind_slash :: "path \<Rightarrow> nat option" where
  "rfind_slash [] = None"
| "rfind_slash (c # s) =
     (case rfind_slash s of Some i \<Rightarrow> Some (Suc i) | None \<Rightarrow> if c = 47 then Some 0 else None)"

definition parent_of :: "path \<Rightarrow> path" where
  "parent_of p = (case rfind_slash p of None \<Rightarrow> bytes ''/'' | Some 0 \<Rightarrow> bytes ''/'' | Some i \<Rightarrow> take i p)"

definition basename :: "path \<Rightarrow> path" where
  "basename p = (case rfind_slash p of Some i \<Rightarrow> drop (i + 1) p | None \<Rightarrow> p)"

definition fs_contents :: "path \<Rightarrow> TmpFs \<Rightarrow> u8 list option" where
  "fs_contents p nodes =
     (case clean p of
        Inl e \<Rightarrow> None
      | Inr q \<Rightarrow> (case map_of nodes q of Some (File buf) \<Rightarrow> Some buf | _ \<Rightarrow> None))"

definition fs_create :: "path \<Rightarrow> NodeKind \<Rightarrow> TmpFs \<Rightarrow> VfsError + TmpFs" where
  "fs_create p k nodes =
     (case clean p of
        Inl e \<Rightarrow> Inl e
      | Inr q \<Rightarrow>
          if map_of nodes q \<noteq> None then Inl AlreadyExists
          else (case map_of nodes (parent_of q) of
                  Some Dir \<Rightarrow> Inr (bt_insert q (case k of KFile \<Rightarrow> File [] | KDir \<Rightarrow> Dir) nodes)
                | Some (File b) \<Rightarrow> Inl NotADirectory
                | None \<Rightarrow> Inl NotFound))"

definition fs_write :: "path \<Rightarrow> u8 list \<Rightarrow> TmpFs \<Rightarrow> VfsError + (nat \<times> TmpFs)" where
  "fs_write p data nodes =
     (case clean p of
        Inl e \<Rightarrow> Inl e
      | Inr q \<Rightarrow> (case map_of nodes q of
                    Some (File buf) \<Rightarrow> Inr (length data, bt_insert q (File data) nodes)
                  | Some Dir \<Rightarrow> Inl IsADirectory
                  | None \<Rightarrow> Inl NotFound))"

text \<open>\<open>out\<close> is the caller's buffer.\<close>

definition fs_read :: "path \<Rightarrow> u8 list \<Rightarrow> TmpFs \<Rightarrow> VfsError + (nat \<times> u8 list)" where
  "fs_read p out nodes =
     (case clean p of
        Inl e \<Rightarrow> Inl e
      | Inr q \<Rightarrow> (case map_of nodes q of
                    Some (File buf) \<Rightarrow>
                      let n = min (length buf) (length out) in Inr (n, take n buf @ drop n out)
                  | Some Dir \<Rightarrow> Inl IsADirectory
                  | None \<Rightarrow> Inl NotFound))"

definition fs_list :: "path \<Rightarrow> TmpFs \<Rightarrow> VfsError + path list" where
  "fs_list p nodes =
     (case clean p of
        Inl e \<Rightarrow> Inl e
      | Inr q \<Rightarrow> (case map_of nodes q of
                    Some Dir \<Rightarrow> Inr (map basename (filter (\<lambda>key. key \<noteq> q \<and> parent_of key = q) (map fst nodes)))
                  | Some (File b) \<Rightarrow> Inl NotADirectory
                  | None \<Rightarrow> Inl NotFound))"

definition fs_exists :: "path \<Rightarrow> TmpFs \<Rightarrow> bool" where
  "fs_exists p nodes = (case clean p of Inl e \<Rightarrow> False | Inr q \<Rightarrow> map_of nodes q \<noteq> None)"

definition fs_stat :: "path \<Rightarrow> TmpFs \<Rightarrow> VfsError + Metadata" where
  "fs_stat p nodes =
     (case clean p of
        Inl e \<Rightarrow> Inl e
      | Inr q \<Rightarrow> (case map_of nodes q of
                    Some (File buf) \<Rightarrow> Inr \<lparr>kind = KFile, msize = length buf\<rparr>
                  | Some Dir \<Rightarrow> Inr \<lparr>kind = KDir, msize = 0\<rparr>
                  | None \<Rightarrow> Inl NotFound))"

section \<open>Descriptors\<close>

record vfs =
  ROOT :: "TmpFs option"
  FDS :: "(int \<times> path \<times> nat) list option"

definition mount_tmpfs_root :: "vfs \<Rightarrow> vfs" where
  "mount_tmpfs_root s = s\<lparr>ROOT := Some TmpFs_new\<rparr>"

text \<open>\<^verbatim>\<open>let _ = fs.create(..)\<close>: the result is ignored.\<close>

definition or_same :: "VfsError + 'a \<Rightarrow> 'a \<Rightarrow> 'a" where
  "or_same r x = (case r of Inl e \<Rightarrow> x | Inr y \<Rightarrow> y)"

definition init_default :: "vfs \<Rightarrow> vfs" where
  "init_default s0 =
     (let s = mount_tmpfs_root s0;
          s = (case ROOT s of
                 None \<Rightarrow> s
               | Some fs \<Rightarrow>
                   let fs = or_same (fs_create (bytes ''/etc'') KDir fs) fs;
                       fs = or_same (fs_create (bytes ''/etc/motd'') KFile fs) fs;
                       fs = snd (or_same (fs_write (bytes ''/etc/motd'') (bytes ''Munux v0.4'' @ [10]) fs) (0, fs))
                   in s\<lparr>ROOT := Some fs\<rparr>)
      in s\<lparr>FDS := Some []\<rparr>)"

text \<open>The start-up self test; the operations act on the mounted file system itself, so what an early
  return leaves behind is the state at that point.\<close>

definition selftest_on :: "TmpFs \<Rightarrow> bool \<times> TmpFs" where
  "selftest_on fs0 =
     (case fs_create (bytes ''/etc'') KDir fs0 of
        Inl e \<Rightarrow> (False, fs0)
      | Inr fs1 \<Rightarrow>
     (case fs_create (bytes ''/etc/motd'') KFile fs1 of
        Inl e \<Rightarrow> (False, fs1)
      | Inr fs2 \<Rightarrow>
     (let msg = bytes ''Bem-vindo ao Munux'' in
      case fs_write (bytes ''/etc/motd'') msg fs2 of
        Inl e \<Rightarrow> (False, fs2)
      | Inr (w, fs) \<Rightarrow>
     (if w \<noteq> length msg then (False, fs) else
      case fs_read (bytes ''/etc/motd'') (replicate 64 0) fs of
        Inl e \<Rightarrow> (False, fs)
      | Inr (n, buf) \<Rightarrow>
     (if take n buf \<noteq> msg then (False, fs)
      else if (case fs_stat (bytes ''/etc/motd'') fs of Inr m \<Rightarrow> \<not> (kind m = KFile \<and> msize m = length msg) | _ \<Rightarrow> True)
      then (False, fs)
      else if (case fs_stat (bytes ''/etc'') fs of Inr m \<Rightarrow> kind m \<noteq> KDir | _ \<Rightarrow> True) then (False, fs)
      else case fs_list (bytes ''/etc'') fs of
        Inl e \<Rightarrow> (False, fs)
      | Inr etc \<Rightarrow>
     (if \<not> list_ex (\<lambda>e. e = bytes ''motd'') etc then (False, fs)
      else case fs_list (bytes ''/'') fs of
        Inl e \<Rightarrow> (False, fs)
      | Inr root \<Rightarrow>
     (if \<not> list_ex (\<lambda>e. e = bytes ''etc'') root then (False, fs)
      else if fs_create (bytes ''/etc'') KDir fs \<noteq> Inl AlreadyExists
      then (False, or_same (fs_create (bytes ''/etc'') KDir fs) fs)
      else if fs_read (bytes ''/nope'') buf fs \<noteq> Inl NotFound then (False, fs)
      else (True, fs))))))))"

definition vfs_selftest :: "vfs \<Rightarrow> bool \<times> vfs" where
  "vfs_selftest s0 =
     (let s = mount_tmpfs_root s0
      in case ROOT s of
           None \<Rightarrow> (False, s)
         | Some fs \<Rightarrow> (case selftest_on fs of (b, fs1) \<Rightarrow> (b, s\<lparr>ROOT := Some fs1\<rparr>)))"

text \<open>The search for the first free descriptor. The table would need 2 to the 31 entries for the
  counter to overflow.\<close>

function free_fd :: "(int \<times> 'v) list \<Rightarrow> int \<Rightarrow> int" where
  "free_fd table fd = (if map_of table fd \<noteq> None then free_fd table (fd + 1) else fd)"
  by pat_completeness auto
termination
proof (relation "measure (\<lambda>(table, fd). card (fst ` set table \<inter> {fd..}))")
  fix table :: "(int \<times> 'v) list" and fd
  assume "map_of table fd \<noteq> None"
  then have i: "fd \<in> fst ` set table \<inter> {fd..}" by (simp add: map_of_eq_None_iff)
  have "fst ` set table \<inter> {fd + 1..} = fst ` set table \<inter> {fd..} - {fd}" by auto
  then show "((table, fd + 1), (table, fd)) \<in> measure (\<lambda>(table, fd). card (fst ` set table \<inter> {fd..}))"
    using card_Diff1_less [OF _ i] by simp
qed simp

declare free_fd.simps [simp del]

definition fd_open :: "path \<Rightarrow> vfs \<Rightarrow> int \<times> vfs" where
  "fd_open p s =
     (if (case ROOT s of None \<Rightarrow> True | Some fs \<Rightarrow> fs_contents p fs = None) then (- 1, s)
      else (case FDS s of
              None \<Rightarrow> (- 1, s)
            | Some table \<Rightarrow> let fd = free_fd table 3 in (fd, s\<lparr>FDS := Some (bt_insert fd (p, 0) table)\<rparr>)))"

text \<open>The result is the return value, the buffer and the new state; the count is converted to
  \<^verbatim>\<open>i32\<close>.\<close>

definition fd_read :: "int \<Rightarrow> u8 list \<Rightarrow> vfs \<Rightarrow> int \<times> u8 list \<times> vfs" where
  "fd_read fd out s =
     (case Option.bind (FDS s) (\<lambda>t. map_of t fd) of
        None \<Rightarrow> (- 1, out, s)
      | Some (p, offset) \<Rightarrow>
          (case Option.bind (ROOT s) (fs_contents p) of
             None \<Rightarrow> (- 1, out, s)
           | Some content \<Rightarrow>
               if offset \<ge> length content then (0, out, s)
               else let n = min (length out) (length content - offset);
                        out1 = take n (drop offset content) @ drop n out;
                        s1 = s\<lparr>FDS := map_option (\<lambda>t. bt_insert fd (p, offset + n) t) (FDS s)\<rparr>
                    in (sint (word_of_nat n :: u32), out1, s1)))"

definition fd_close :: "int \<Rightarrow> vfs \<Rightarrow> int \<times> vfs" where
  "fd_close fd s =
     (case Option.bind (FDS s) (\<lambda>t. map_of t fd) of
        None \<Rightarrow> (- 1, s)
      | Some e \<Rightarrow> (0, s\<lparr>FDS := map_option (bt_remove fd) (FDS s)\<rparr>))"

section \<open>C entry points\<close>

text \<open>\<^verbatim>\<open>core::str::from_utf8\<close> accepts the well-formed byte sequences of the Unicode standard.\<close>

definition cont :: "u8 \<Rightarrow> bool" where "cont c \<longleftrightarrow> 0x80 \<le> c \<and> c \<le> 0xBF"

fun valid_utf8 :: "u8 list \<Rightarrow> bool" where
  "valid_utf8 [] = True"
| "valid_utf8 (a # s) =
     (if a < 0x80 then valid_utf8 s
      else if 0xC2 \<le> a \<and> a \<le> 0xDF then (case s of b # t \<Rightarrow> cont b \<and> valid_utf8 t | _ \<Rightarrow> False)
      else if 0xE0 \<le> a \<and> a \<le> 0xEF then
        (case s of b # c # t \<Rightarrow> cont b \<and> (a = 0xE0 \<longrightarrow> 0xA0 \<le> b) \<and> (a = 0xED \<longrightarrow> b \<le> 0x9F) \<and> cont c \<and> valid_utf8 t
         | _ \<Rightarrow> False)
      else if 0xF0 \<le> a \<and> a \<le> 0xF4 then
        (case s of b # c # d # t \<Rightarrow>
           cont b \<and> (a = 0xF0 \<longrightarrow> 0x90 \<le> b) \<and> (a = 0xF4 \<longrightarrow> b \<le> 0x8F) \<and> cont c \<and> cont d \<and> valid_utf8 t
         | _ \<Rightarrow> False)
      else False)"

definition munux_rs_vfs_open :: "u8 list \<Rightarrow> vfs \<Rightarrow> int \<times> vfs" where
  "munux_rs_vfs_open bs s = (if valid_utf8 bs then fd_open bs s else (- 1, s))"

definition munux_rs_vfs_read :: "int \<Rightarrow> u8 list \<Rightarrow> vfs \<Rightarrow> int \<times> u8 list \<times> vfs" where
  "munux_rs_vfs_read fd out s = fd_read fd out s"

definition munux_rs_vfs_close :: "int \<Rightarrow> vfs \<Rightarrow> int \<times> vfs" where
  "munux_rs_vfs_close fd s = fd_close fd s"

definition munux_rs_vfs_init :: "vfs \<Rightarrow> vfs" where
  "munux_rs_vfs_init s = init_default s"

definition munux_rs_vfs_selftest :: "vfs \<Rightarrow> int \<times> vfs" where
  "munux_rs_vfs_selftest s = (case vfs_selftest s of (b, s1) \<Rightarrow> (if b then 0 else 1, s1))"

section \<open>The self test passes\<close>

lemma selftest_on_new: "fst (selftest_on TmpFs_new)"
  by code_simp

lemma munux_rs_vfs_selftest_ok: "\<exists>s'. munux_rs_vfs_selftest s = (0, s')"
  using selftest_on_new
  by (cases "selftest_on TmpFs_new") (simp add: munux_rs_vfs_selftest_def vfs_selftest_def mount_tmpfs_root_def)

section \<open>The tree\<close>

text \<open>Entries are in key order, the root is a directory, and every other node stands in a directory that
  exists.\<close>

definition tree_ok :: "TmpFs \<Rightarrow> bool" where
  "tree_ok fs \<longleftrightarrow>
     bt_ordered fs \<and> map_of fs (bytes ''/'') = Some Dir \<and>
     (\<forall>q n. map_of fs q = Some n \<longrightarrow> hd q = 47 \<and> q \<noteq> [] \<and> map_of fs (parent_of q) = Some Dir)"

lemma clean_abs: "clean p = Inr q \<Longrightarrow> q \<noteq> [] \<and> hd q = 47"
  by (cases p rule: rev_cases) (auto simp: clean_def split: if_splits)

lemma create_cases:
  assumes "fs_create p k fs = Inr fs'"
  obtains q where "clean p = Inr q" and "map_of fs q = None" and "map_of fs (parent_of q) = Some Dir"
    and "fs' = bt_insert q (case k of KFile \<Rightarrow> File [] | KDir \<Rightarrow> Dir) fs"
  using assms by (auto simp: fs_create_def split: sum.splits if_splits option.splits vnode.splits)

lemma write_cases:
  assumes "fs_write p data fs = Inr (n, fs')"
  obtains q buf where "clean p = Inr q" and "map_of fs q = Some (File buf)" and "n = length data"
    and "fs' = bt_insert q (File data) fs"
  using assms by (auto simp: fs_write_def split: sum.splits option.splits vnode.splits)

lemma tree_ok_new: "tree_ok TmpFs_new"
  by (auto simp: tree_ok_def TmpFs_new_def bytes_def parent_of_def split: if_splits)

lemma tree_ok_create:
  assumes "tree_ok fs" and "fs_create p k fs = Inr fs'"
  shows "tree_ok fs'"
  using assms(2)
proof (cases rule: create_cases)
  case (1 q)
  show ?thesis unfolding tree_ok_def 1(4)
  proof (intro conjI allI impI)
    show "bt_ordered (bt_insert q (case k of KFile \<Rightarrow> File [] | KDir \<Rightarrow> Dir) fs)"
      using assms(1) by (simp add: tree_ok_def bt_insert_ordered)
  qed (use assms(1) 1 clean_abs [OF 1(1)] in \<open>auto simp: tree_ok_def split: if_splits\<close>)
qed

lemma tree_ok_write:
  assumes "tree_ok fs" and "fs_write p data fs = Inr (n, fs')"
  shows "tree_ok fs'"
  using assms(2)
proof (cases rule: write_cases)
  case (1 q buf)
  show ?thesis unfolding tree_ok_def 1(4)
  proof (intro conjI allI impI)
    show "bt_ordered (bt_insert q (File data) fs)"
      using assms(1) by (simp add: tree_ok_def bt_insert_ordered)
  qed (use assms(1) 1 clean_abs [OF 1(1)] in \<open>auto simp: tree_ok_def split: if_splits\<close>)
qed

section \<open>The contract of a file system\<close>

text \<open>What a client of the trait \<^verbatim>\<open>Filesystem\<close> relies on. \<open>key\<close> identifies the paths that name the same
  node.\<close>

locale filesystem =
  fixes fcreate :: "path \<Rightarrow> NodeKind \<Rightarrow> 'fs \<Rightarrow> VfsError + 'fs"
    and fwrite :: "path \<Rightarrow> u8 list \<Rightarrow> 'fs \<Rightarrow> VfsError + (nat \<times> 'fs)"
    and fread :: "path \<Rightarrow> u8 list \<Rightarrow> 'fs \<Rightarrow> VfsError + (nat \<times> u8 list)"
    and fstat :: "path \<Rightarrow> 'fs \<Rightarrow> VfsError + Metadata"
    and key :: "path \<Rightarrow> 'k"
  assumes create_stat: "fcreate p k s = Inr s' \<Longrightarrow> fstat p s = Inl NotFound \<and> fstat p s' = Inr \<lparr>kind = k, msize = 0\<rparr>"
    and create_frame: "fcreate p k s = Inr s' \<Longrightarrow> key q \<noteq> key p \<Longrightarrow> fstat q s' = fstat q s \<and> fread q b s' = fread q b s"
    and write_file: "fstat p s = Inr m \<Longrightarrow> kind m = KFile \<Longrightarrow> \<exists>s'. fwrite p data s = Inr (length data, s')"
    and write_read: "fwrite p data s = Inr (n, s') \<Longrightarrow>
      fread p b s' = Inr (min (length data) (length b), take (length b) data @ drop (length data) b)"
    and write_stat: "fwrite p data s = Inr (n, s') \<Longrightarrow> fstat p s' = Inr \<lparr>kind = KFile, msize = length data\<rparr>"
    and write_frame: "fwrite p data s = Inr (n, s') \<Longrightarrow> key q \<noteq> key p \<Longrightarrow> fstat q s' = fstat q s \<and> fread q b s' = fread q b s"
begin

definition publish :: "path \<Rightarrow> u8 list \<Rightarrow> 'fs \<Rightarrow> VfsError + 'fs" where
  "publish p data s =
     (case fcreate p KFile s of Inl e \<Rightarrow> Inl e
      | Inr s1 \<Rightarrow> (case fwrite p data s1 of Inl e \<Rightarrow> Inl e | Inr (n, s2) \<Rightarrow> Inr s2))"

lemma publish_steps:
  assumes "fcreate p KFile s = Inr s1"
  obtains s2 where "fwrite p data s1 = Inr (length data, s2)" and "publish p data s = Inr s2"
proof -
  from create_stat [OF assms] obtain s2 where "fwrite p data s1 = Inr (length data, s2)"
    using write_file [of p s1] by fastforce
  with assms that show thesis by (simp add: publish_def)
qed

lemma publish_read:
  assumes "publish p data s = Inr s2"
  shows "fread p b s2 = Inr (min (length data) (length b), take (length b) data @ drop (length data) b)"
    and "fstat p s2 = Inr \<lparr>kind = KFile, msize = length data\<rparr>"
    and "key q \<noteq> key p \<Longrightarrow> fstat q s2 = fstat q s \<and> fread q b s2 = fread q b s"
proof -
  from assms obtain s1 n where c: "fcreate p KFile s = Inr s1" and w: "fwrite p data s1 = Inr (n, s2)"
    by (auto simp: publish_def split: sum.splits prod.splits)
  show "fread p b s2 = Inr (min (length data) (length b), take (length b) data @ drop (length data) b)"
    by (rule write_read [OF w])
  show "fstat p s2 = Inr \<lparr>kind = KFile, msize = length data\<rparr>" by (rule write_stat [OF w])
  show "key q \<noteq> key p \<Longrightarrow> fstat q s2 = fstat q s \<and> fread q b s2 = fread q b s"
    using create_frame [OF c] write_frame [OF w] by metis
qed

end

interpretation tmpfs: filesystem fs_create fs_write fs_read fs_stat clean
proof
  fix p k and s s' :: TmpFs
  assume c: "fs_create p k s = Inr s'"
  then show "fs_stat p s = Inl NotFound \<and> fs_stat p s' = Inr \<lparr>kind = k, msize = 0\<rparr>"
    by (cases rule: create_cases) (cases k; simp add: fs_stat_def)
  fix q b
  assume "clean q \<noteq> clean p"
  with c show "fs_stat q s' = fs_stat q s \<and> fs_read q b s' = fs_read q b s"
    by (cases rule: create_cases) (auto simp: fs_stat_def fs_read_def split: sum.splits)
next
  fix p m data and s :: TmpFs
  assume "fs_stat p s = Inr m" "kind m = KFile"
  then show "\<exists>s'. fs_write p data s = Inr (length data, s')"
    by (auto simp: fs_stat_def fs_write_def split: sum.splits option.splits vnode.splits)
next
  fix p data n and s s' :: TmpFs
  assume w: "fs_write p data s = Inr (n, s')"
  then show "fs_stat p s' = Inr \<lparr>kind = KFile, msize = length data\<rparr>"
    by (cases rule: write_cases) (simp add: fs_stat_def)
  fix b :: "u8 list"
  show "fs_read p b s' = Inr (min (length data) (length b), take (length b) data @ drop (length data) b)"
    using w by (cases rule: write_cases) (simp add: fs_read_def min_def Let_def)
  fix q
  assume "clean q \<noteq> clean p"
  with w show "fs_stat q s' = fs_stat q s \<and> fs_read q b s' = fs_read q b s"
    by (cases rule: write_cases) (auto simp: fs_stat_def fs_read_def split: sum.splits)
qed

section \<open>Reading through a descriptor\<close>

text \<open>A client that reads into the buffers \<open>bs\<close> one after the other, and what it receives.\<close>

fun fd_reads :: "int \<Rightarrow> u8 list list \<Rightarrow> vfs \<Rightarrow> u8 list list \<times> vfs" where
  "fd_reads fd [] s = ([], s)"
| "fd_reads fd (b # bs) s =
     (case fd_read fd b s of (n, out, s1) \<Rightarrow>
      case fd_reads fd bs s1 of (rs, s2) \<Rightarrow> (take (nat n) out # rs, s2))"

lemma free_fd_spec: "map_of table (free_fd table fd) = None \<and> fd \<le> free_fd table fd \<and>
    (\<forall>i. fd \<le> i \<and> i < free_fd table fd \<longrightarrow> map_of table i \<noteq> None)"
proof (induction table fd rule: free_fd.induct)
  case (1 table fd)
  show ?case
  proof (cases "map_of table fd")
    case None
    then show ?thesis by (auto simp: free_fd.simps [of table fd])
  next
    case (Some v)
    then have e: "free_fd table fd = free_fd table (fd + 1)" by (simp add: free_fd.simps [of table fd])
    have ih: "map_of table (free_fd table (fd + 1)) = None \<and> fd + 1 \<le> free_fd table (fd + 1) \<and>
        (\<forall>i. fd + 1 \<le> i \<and> i < free_fd table (fd + 1) \<longrightarrow> map_of table i \<noteq> None)"
      using 1 Some by simp
    show ?thesis unfolding e
    proof (intro conjI allI impI)
      fix i assume i: "fd \<le> i \<and> i < free_fd table (fd + 1)"
      show "map_of table i \<noteq> None"
      proof (cases "i = fd")
        case False
        with i ih show ?thesis by simp
      qed (simp add: Some)
    qed (use ih in auto)
  qed
qed

lemma sint_count: "n < 2 ^ 31 \<Longrightarrow> sint (word_of_nat n :: u32) = int n"
  by (simp add: sint_u32 unat_of_nat_small)

lemma fd_reads_spec:
  assumes "FDS s = Some t" and "map_of t fd = Some (p, off)" and "Option.bind (ROOT s) (fs_contents p) = Some c"
    and "length c < 2 ^ 31"
  shows "\<exists>rs t'. fd_reads fd bs s = (rs, s\<lparr>FDS := Some t'\<rparr>) \<and>
      concat rs = take (length (concat bs)) (drop off c) \<and> map_of t' fd \<noteq> None \<and> bt_remove fd t' = bt_remove fd t"
  using assms
proof (induction bs arbitrary: s t off)
  case Nil
  then show ?case by (simp add: exI [of _ t])
next
  case (Cons b bs)
  show ?case
  proof (cases "off \<ge> length c")
    case True
    then have r: "fd_read fd b s = (0, b, s)" using Cons.prems by (simp add: fd_read_def)
    from Cons.IH [OF Cons.prems] obtain rs t' where "fd_reads fd bs s = (rs, s\<lparr>FDS := Some t'\<rparr>)"
      "concat rs = take (length (concat bs)) (drop off c)" "map_of t' fd \<noteq> None" "bt_remove fd t' = bt_remove fd t" by blast
    then show ?thesis using r True by (intro exI [of _ "[] # rs"] exI [of _ t']) simp
  next
    case False
    define n where "n = min (length b) (length c - off)"
    define t1 where "t1 = bt_insert fd (p, off + n) t"
    define s1 where "s1 = s\<lparr>FDS := Some t1\<rparr>"
    have n: "n < 2 ^ 31" "n \<le> length c - off" using Cons.prems(4) by (auto simp: n_def)
    have r: "fd_read fd b s = (int n, take n (drop off c) @ drop n b, s1)"
      using Cons.prems False n(1) by (simp add: fd_read_def n_def [symmetric] s1_def t1_def sint_count Let_def)
    have p1: "FDS s1 = Some t1" "map_of t1 fd = Some (p, off + n)" "Option.bind (ROOT s1) (fs_contents p) = Some c"
      using Cons.prems by (simp_all add: s1_def t1_def)
    from Cons.IH [OF p1 Cons.prems(4)] obtain rs t' where i: "fd_reads fd bs s1 = (rs, s1\<lparr>FDS := Some t'\<rparr>)"
      "concat rs = take (length (concat bs)) (drop (off + n) c)" "map_of t' fd \<noteq> None" "bt_remove fd t' = bt_remove fd t1"
      by blast
    have "take n (drop off c) @ take (length (concat bs)) (drop (off + n) c) = take (n + length (concat bs)) (drop off c)"
      by (simp add: take_add add.commute)
    also have "\<dots> = take (length (concat (b # bs))) (drop off c)" by (simp add: n_def min_def)
    finally have "concat (take (nat (int n)) (take n (drop off c) @ drop n b) # rs) = take (length (concat (b # bs))) (drop off c)"
      using n(2) i(2) by simp
    moreover have "fd_reads fd (b # bs) s = (take (nat (int n)) (take n (drop off c) @ drop n b) # rs, s\<lparr>FDS := Some t'\<rparr>)"
      using i(1) r by (simp add: s1_def)
    moreover have "bt_remove fd t' = bt_remove fd t" using i(4) by (simp add: t1_def)
    ultimately show ?thesis using i(3) by blast
  qed
qed

section \<open>Properties\<close>

text \<open>C19: From a mounted file system whose nodes form a tree, creating a file and writing it succeeds as
  soon as the path is absolute, unused and stands in an existing directory. The file then reads back
  with the content and size written, every path naming another node keeps its metadata and content,
  and the nodes still form a tree.\<close>

theorem tmpfs_create_write_read:
  assumes "tree_ok fs" and "clean p = Inr q" and "map_of fs q = None" and "map_of fs (parent_of q) = Some Dir"
  shows "\<exists>fs1 fs2. fs_create p KFile fs = Inr fs1 \<and> fs_write p data fs1 = Inr (length data, fs2) \<and> tree_ok fs2 \<and>
    fs_read p b fs2 = Inr (min (length data) (length b), take (length b) data @ drop (length data) b) \<and>
    fs_stat p fs2 = Inr \<lparr>kind = KFile, msize = length data\<rparr> \<and>
    (clean r \<noteq> Inr q \<longrightarrow> fs_stat r fs2 = fs_stat r fs \<and> fs_read r b fs2 = fs_read r b fs)"
proof -
  have c: "fs_create p KFile fs = Inr (bt_insert q (File []) fs)" using assms(2-4) by (simp add: fs_create_def)
  from tmpfs.publish_steps [OF c] obtain fs2 where w: "fs_write p data (bt_insert q (File []) fs) = Inr (length data, fs2)"
    and pub: "tmpfs.publish p data fs = Inr fs2" by metis
  from tmpfs.publish_read [OF pub] tree_ok_write [OF tree_ok_create [OF assms(1) c] w] c w assms(2)
  show ?thesis by (metis (no_types, lifting))
qed

theorem tmpfs_create_write_read_witness:
  "\<exists>fs1 fs2. fs_create (bytes ''/a'') KFile TmpFs_new = Inr fs1 \<and> fs_write (bytes ''/a'') [1, 2, 3] fs1 = Inr (3, fs2) \<and>
    fs_read (bytes ''/a'') [0, 0] fs2 = Inr (2, [1, 2])"
proof -
  have "clean (bytes ''/a'') = Inr (bytes ''/a'')" "map_of TmpFs_new (bytes ''/a'') = None"
    "map_of TmpFs_new (parent_of (bytes ''/a'')) = Some Dir" by code_simp+
  from tmpfs_create_write_read [OF tree_ok_new this, of "[1, 2, 3]" "[0, 0]"] show ?thesis by force
qed

text \<open>C18: Opening a file gives the least descriptor from 3 on that is not in use. Reading through it into
  buffers of any sizes, one after the other, delivers the content of the file in order, each byte once,
  up to the total size of the buffers; closing the descriptor then leaves the file system and the
  descriptor table as they were.\<close>

theorem fd_session_reads_file:
  assumes "ROOT s = Some fs" and "FDS s = Some t" and "fs_contents p fs = Some c" and "length c < 2 ^ 31"
  shows "\<exists>fd s1 rs s2. fd_open p s = (fd, s1) \<and> 3 \<le> fd \<and> map_of t fd = None \<and>
    (\<forall>i. 3 \<le> i \<and> i < fd \<longrightarrow> map_of t i \<noteq> None) \<and>
    fd_reads fd bs s1 = (rs, s2) \<and> concat rs = take (length (concat bs)) c \<and> fd_close fd s2 = (0, s)"
proof -
  define fd where "fd = free_fd t 3"
  define s1 where "s1 = s\<lparr>FDS := Some (bt_insert fd (p, 0) t)\<rparr>"
  have o: "fd_open p s = (fd, s1)" using assms by (simp add: fd_open_def fd_def s1_def Let_def)
  have f: "map_of t fd = None" "3 \<le> fd" "\<forall>i. 3 \<le> i \<and> i < fd \<longrightarrow> map_of t i \<noteq> None"
    using free_fd_spec [of t 3] by (simp_all add: fd_def)
  have "FDS s1 = Some (bt_insert fd (p, 0) t)" "map_of (bt_insert fd (p, 0) t) fd = Some (p, 0)"
    "Option.bind (ROOT s1) (fs_contents p) = Some c" using assms by (simp_all add: s1_def)
  from fd_reads_spec [OF this assms(4), of bs] obtain rs t' where r: "fd_reads fd bs s1 = (rs, s1\<lparr>FDS := Some t'\<rparr>)"
    "concat rs = take (length (concat bs)) c" "map_of t' fd \<noteq> None" "bt_remove fd t' = bt_remove fd t" by auto
  have "fd_close fd (s1\<lparr>FDS := Some t'\<rparr>) = (0, s)"
    using r(3,4) assms(2) f(1) by (auto simp: fd_close_def bt_remove_absent s1_def)
  with o f r show ?thesis by blast
qed

theorem fd_session_reads_file_witness:
  "let s = munux_rs_vfs_init \<lparr>ROOT = None, FDS = None\<rparr> in
   \<exists>fd s1 rs s2. fd_open (bytes ''/etc/motd'') s = (fd, s1) \<and>
     fd_reads fd [replicate 4 0, replicate 32 0] s1 = (rs, s2) \<and> concat rs = bytes ''Munux v0.4'' @ [10] \<and>
     fd_close fd s2 = (0, s)"
proof -
  let ?s = "munux_rs_vfs_init \<lparr>ROOT = None, FDS = None\<rparr>"
  have "(case ROOT ?s of Some fs \<Rightarrow> fs_contents (bytes ''/etc/motd'') fs | None \<Rightarrow> None) = Some (bytes ''Munux v0.4'' @ [10])"
    by code_simp
  then obtain fs where "ROOT ?s = Some fs" and "fs_contents (bytes ''/etc/motd'') fs = Some (bytes ''Munux v0.4'' @ [10])"
    by (auto split: option.splits)
  moreover have "FDS ?s = Some []" by code_simp
  moreover have l: "length (bytes ''Munux v0.4'' @ [10]) = 11" by (simp add: bytes_def)
  moreover have "take 36 (bytes ''Munux v0.4'' @ [10]) = bytes ''Munux v0.4'' @ [10]" using l by simp
  ultimately show ?thesis
    using fd_session_reads_file [of ?s fs "[]" "bytes ''/etc/motd''" "bytes ''Munux v0.4'' @ [10]" "[replicate 4 0, replicate 32 0]"]
    unfolding Let_def by force
qed

end
