(* ===== verification/Interrupts.thy ===== *)
theory Interrupts
  imports PortIO
begin

text \<open>
  The interrupt descriptor table and the common interrupt handlers of \<^verbatim>\<open>interrupts/idt.c\<close>. The
  addresses of the assembly stubs and of the table are parameters (they are fixed by the linker);
  a registered handler is one of the four handlers of the source. The lemmas show what every gate
  decodes to, and the end-of-interrupt discipline of \<open>irq_handler\<close> with its spurious cases.
\<close>

section \<open>State\<close>

record idt_entry =
  base_low :: u16
  selector :: u16
  always0 :: u8
  flags :: u8
  base_high :: u16

text \<open>The interrupt handlers that the kernel registers.\<close>

datatype isr_t = Timer_callback | Scheduler_tick | Keyboard_handler | Mouse_handler

record idt =
  idt_entries :: "idt_entry list"
  idt_limit :: u16
  idt_base :: u32
  idtr :: "(u16 \<times> u32) option"

type_synonym handlers = "u8 \<Rightarrow> isr_t option"

definition IDT_ENTRIES :: nat where [simp]: "IDT_ENTRIES = 256"
definition PIC1_CMD :: u16 where [simp]: "PIC1_CMD = 0x20"
definition PIC1_DATA :: u16 where [simp]: "PIC1_DATA = 0x21"
definition PIC2_CMD :: u16 where [simp]: "PIC2_CMD = 0xA0"
definition PIC2_DATA :: u16 where [simp]: "PIC2_DATA = 0xA1"

section \<open>Operations\<close>

text \<open>Every \<^verbatim>\<open>outb\<close> of \<^verbatim>\<open>pic_remap\<close> is followed by \<^verbatim>\<open>io_wait\<close>.\<close>

definition pic_out :: "u16 \<Rightarrow> u8 \<Rightarrow> history \<Rightarrow> history" where
  "pic_out port val h = io_wait (outb port val h)"

definition pic_remap :: "history \<Rightarrow> history" where
  "pic_remap h =
     (let h = pic_out PIC1_CMD 0x11 h; h = pic_out PIC2_CMD 0x11 h;
          h = pic_out PIC1_DATA 0x20 h; h = pic_out PIC2_DATA 0x28 h;
          h = pic_out PIC1_DATA 0x04 h; h = pic_out PIC2_DATA 0x02 h;
          h = pic_out PIC1_DATA 0x01 h; h = pic_out PIC2_DATA 0x01 h;
          h = pic_out PIC1_DATA 0xF8 h
      in pic_out PIC2_DATA 0xFF h)"

definition idt_set_gate :: "u8 \<Rightarrow> u32 \<Rightarrow> u16 \<Rightarrow> u8 \<Rightarrow> idt \<Rightarrow> idt" where
  "idt_set_gate num base sel fl s =
     s\<lparr>idt_entries := (idt_entries s)[unat num :=
         \<lparr>base_low = ucast (base AND 0xFFFF), selector = sel, always0 = 0, flags = fl,
          base_high = ucast (drop_bit 16 base AND 0xFFFF)\<rparr>]\<rparr>"

definition register_interrupt_handler :: "u8 \<Rightarrow> isr_t \<Rightarrow> handlers \<Rightarrow> handlers" where
  "register_interrupt_handler n handler t = t(n := Some handler)"

text \<open>\<^verbatim>\<open>stub i\<close> is the address of \<^verbatim>\<open>isr<i>\<close> for \<open>i < 32\<close> and \<open>i = 128\<close>, and of
  \<^verbatim>\<open>irq<i - 32>\<close> for the vectors 32 to 47; \<open>table\<close> is the address of the table.\<close>

definition idt_init :: "(nat \<Rightarrow> u32) \<Rightarrow> u32 \<Rightarrow> idt \<times> history \<Rightarrow> idt \<times> history" where
  "idt_init stub table = (\<lambda>(s, h).
     (let s1 = s\<lparr>idt_limit := 8 * 256 - 1, idt_base := table\<rparr>;
          s2 = fold (\<lambda>i. idt_set_gate (word_of_nat i) (stub i) 0x08 0x8E) [0..<48] s1;
          s3 = idt_set_gate 0x80 (stub 0x80) 0x08 0xEE s2;
          h1 = pic_remap h
      in (s3\<lparr>idtr := Some (idt_limit s3, idt_base s3)\<rparr>, h1)))"

definition exception_messages :: "string list" where
  "exception_messages = [''Division By Zero'', ''Debug'', ''Non Maskable Interrupt'', ''Breakpoint'',
     ''Into Detected Overflow'', ''Out of Bounds'', ''Invalid Opcode'', ''No Coprocessor'',
     ''Double Fault'', ''Coprocessor Segment Overrun'', ''Bad TSS'', ''Segment Not Present'',
     ''Stack Fault'', ''General Protection Fault'', ''Page Fault'', ''Unknown Interrupt'',
     ''Coprocessor Fault'', ''Alignment Check'', ''Machine Check''] @ replicate 13 ''Reserved''"

text \<open>\<^verbatim>\<open>isr_handler\<close> ends in \<^verbatim>\<open>kernel_panic\<close> with this message.\<close>

definition isr_handler :: "u32 \<Rightarrow> string" where
  "isr_handler int_no =
     (if unat int_no < length exception_messages then exception_messages ! unat int_no else ''Unknown Interrupt'')"

text \<open>\<open>run\<close> is what a registered handler does to the rest of the kernel and to the devices. A vector
  outside the handler table is outside the array.\<close>

definition irq_dispatch ::
    "(isr_t \<Rightarrow> 's \<times> history \<Rightarrow> 's \<times> history) \<Rightarrow> handlers \<Rightarrow> u32 \<Rightarrow> 's \<times> history \<Rightarrow> ('s \<times> history) option" where
  "irq_dispatch run t irq sh =
     (if unat irq \<ge> IDT_ENTRIES then None
      else let (s, h) = (case t (ucast irq) of None \<Rightarrow> sh | Some handler \<Rightarrow> run handler sh);
               h1 = (if irq \<ge> 40 then outb PIC2_CMD 0x20 h else h)
           in Some (s, outb PIC1_CMD 0x20 h1))"

definition irq_handler ::
    "device \<Rightarrow> (isr_t \<Rightarrow> 's \<times> history \<Rightarrow> 's \<times> history) \<Rightarrow> handlers \<Rightarrow> u32 \<Rightarrow> 's \<times> history \<Rightarrow> ('s \<times> history) option" where
  "irq_handler d run t irq = (\<lambda>(s, h).
     (if irq = 39 then
        let (v, h1) = inb d PIC1_CMD (outb PIC1_CMD 0x0B h)
        in if v AND 0x80 = 0 then Some (s, h1) else irq_dispatch run t irq (s, h1)
      else if irq = 47 then
        let (v, h1) = inb d PIC2_CMD (outb PIC2_CMD 0x0B h)
        in if v AND 0x80 = 0 then Some (s, outb PIC1_CMD 0x20 h1) else irq_dispatch run t irq (s, h1)
      else irq_dispatch run t irq (s, h)))"

section \<open>Gates\<close>

definition gate_base :: "idt_entry \<Rightarrow> u32" where
  "gate_base e = ucast (base_low e) OR push_bit 16 (ucast (base_high e))"

lemma split_base: "(ucast (ucast (b AND 0xFFFF :: u32) :: u16) :: u32) OR
    push_bit 16 (ucast (ucast (drop_bit 16 b AND 0xFFFF) :: u16)) = b"
proof (rule bit_word_eqI)
  have m: "(0xFFFF :: u32) = mask 16" by (simp add: mask_numeral)
  fix n assume "n < LENGTH(32)"
  then show "bit ((ucast (ucast (b AND 0xFFFF :: u32) :: u16) :: u32) OR
    push_bit 16 (ucast (ucast (drop_bit 16 b AND 0xFFFF) :: u16))) n = bit b n"
    unfolding m by (cases "n < 16") (auto simp: bit_simps)
qed

lemma idt_set_gate_entries [simp]:
  "length (idt_entries (idt_set_gate n b sel fl s)) = length (idt_entries s)"
  "idt_limit (idt_set_gate n b sel fl s) = idt_limit s" "idt_base (idt_set_gate n b sel fl s) = idt_base s"
  by (simp_all add: idt_set_gate_def)

lemma idt_set_gate_nth:
  assumes "length (idt_entries s) = 256"
  shows "idt_entries (idt_set_gate n b sel fl s) ! unat m =
    (if m = n then \<lparr>base_low = ucast (b AND 0xFFFF), selector = sel, always0 = 0, flags = fl,
          base_high = ucast (drop_bit 16 b AND 0xFFFF)\<rparr> else idt_entries s ! unat m)"
proof -
  have "unat n < 256" using unsigned_less [of n] by simp
  then show ?thesis using assms by (auto simp: idt_set_gate_def nth_list_update word_unat_eq_iff)
qed

text \<open>A gate that points at \<open>base\<close> in the code segment with the given type.\<close>

definition gate_to :: "u32 \<Rightarrow> u8 \<Rightarrow> idt_entry \<Rightarrow> bool" where
  "gate_to base fl e \<longleftrightarrow> gate_base e = base \<and> selector e = 0x08 \<and> always0 e = 0 \<and> flags e = fl"

lemma gate_to_set:
  "gate_to b fl \<lparr>base_low = ucast (b AND 0xFFFF), selector = 0x08, always0 = 0, flags = fl,
     base_high = ucast (drop_bit 16 b AND 0xFFFF)\<rparr>"
  using split_base [of b] by (simp add: gate_to_def gate_base_def)

lemma exception_gates:
  fixes stub :: "nat \<Rightarrow> u32"
  assumes "length (idt_entries s) = 256"
  defines "t \<equiv> fold (\<lambda>i. idt_set_gate (word_of_nat i) (stub i) 0x08 0x8E) [0..<48] s"
  shows "length (idt_entries t) = 256 \<and> idt_limit t = idt_limit s \<and> idt_base t = idt_base s \<and>
     (\<forall>v. if unat v < 48 then gate_to (stub (unat v)) 0x8E (idt_entries t ! unat v)
          else idt_entries t ! unat v = idt_entries s ! unat (v :: u8))"
  unfolding t_def
proof (rule fold_upt_invariant [where P = "\<lambda>n t. length (idt_entries t) = 256 \<and> idt_limit t = idt_limit s \<and>
     idt_base t = idt_base s \<and> (\<forall>v. if unat v < n then gate_to (stub (unat v)) 0x8E (idt_entries t ! unat v)
          else idt_entries t ! unat v = idt_entries s ! unat (v :: u8))"])
  fix i and t :: idt assume i: "i < (48 :: nat)" and t: "length (idt_entries t) = 256 \<and> idt_limit t = idt_limit s \<and>
     idt_base t = idt_base s \<and> (\<forall>v. if unat v < i then gate_to (stub (unat v)) 0x8E (idt_entries t ! unat v)
          else idt_entries t ! unat v = idt_entries s ! unat (v :: u8))"
  let ?t = "idt_set_gate (word_of_nat i) (stub i) 0x08 0x8E t"
  have u: "unat (word_of_nat i :: u8) = i" using i by (simp add: unat_of_nat take_bit_nat_eq_self)
  have e: "v = word_of_nat i \<longleftrightarrow> unat v = i" for v :: u8 by (metis u word_unat_eq_iff)
  have "if unat v < Suc i then gate_to (stub (unat v)) 0x8E (idt_entries ?t ! unat v)
      else idt_entries ?t ! unat v = idt_entries s ! unat v" for v :: u8
    using t spec [OF conjunct2 [OF conjunct2 [OF conjunct2 [OF t]]], of v]
    by (simp add: idt_set_gate_nth e gate_to_set less_Suc_eq split: if_splits)
  with t show "length (idt_entries ?t) = 256 \<and> idt_limit ?t = idt_limit s \<and> idt_base ?t = idt_base s \<and>
     (\<forall>v. if unat v < Suc i then gate_to (stub (unat v)) 0x8E (idt_entries ?t ! unat v)
          else idt_entries ?t ! unat v = idt_entries s ! unat (v :: u8))"
    by simp
qed (use assms in simp_all)

section \<open>Properties\<close>

text \<open>C31: after \<^verbatim>\<open>idt_init\<close> every gate decodes to its stub: the vectors 0 to 47 are kernel
  interrupt gates (type 0x8E) and vector 0x80 is a gate callable from ring 3 (type 0xEE), all in the
  kernel code segment; the other gates are as before. The loaded table covers exactly 256 gates, and
  the interrupt controllers are remapped to the vectors 0x20 and 0x28 with only timer, keyboard and
  cascade unmasked on the master and everything masked on the slave.\<close>

theorem idt_init_gates:
  assumes "length (idt_entries s) = 256" and "idt_init stub table (s, h) = (s', h')"
  shows "(\<forall>v :: u8. if v < 48 then gate_to (stub (unat v)) 0x8E (idt_entries s' ! unat v)
        else if v = 0x80 then gate_to (stub 0x80) 0xEE (idt_entries s' ! unat v)
        else idt_entries s' ! unat v = idt_entries s ! unat v) \<and>
     length (idt_entries s') = 256 \<and> idtr s' = Some (2047, table) \<and>
     writes_to PIC1_CMD (added h h') = [0x11] \<and> writes_to PIC2_CMD (added h h') = [0x11] \<and>
     writes_to PIC1_DATA (added h h') = [0x20, 0x04, 0x01, 0xF8] \<and>
     writes_to PIC2_DATA (added h h') = [0x28, 0x02, 0x01, 0xFF]"
proof -
  let ?s1 = "s\<lparr>idt_limit := 8 * 256 - 1, idt_base := table\<rparr>"
  define t where "t = fold (\<lambda>i. idt_set_gate (word_of_nat i) (stub i) 0x08 0x8E) [0..<48] ?s1"
  have l1: "length (idt_entries ?s1) = 256" using assms(1) by simp
  note g = exception_gates [OF l1, of stub, folded t_def]
  let ?u = "idt_set_gate 0x80 (stub 0x80) 0x08 0xEE t"
  have s': "s' = ?u\<lparr>idtr := Some (idt_limit ?u, idt_base ?u)\<rparr>" and h': "h' = pic_remap h"
    using assms(2) by (simp_all add: idt_init_def Let_def t_def)
  have lt: "length (idt_entries t) = 256" using g by blast
  have gate: "if v < 48 then gate_to (stub (unat v)) 0x8E (idt_entries s' ! unat v)
        else if v = 0x80 then gate_to (stub 0x80) 0xEE (idt_entries s' ! unat v)
        else idt_entries s' ! unat v = idt_entries s ! unat v" for v :: u8
  proof -
    have "if unat v < 48 then gate_to (stub (unat v)) 0x8E (idt_entries t ! unat v)
        else idt_entries t ! unat v = idt_entries ?s1 ! unat v" using g by blast
    moreover have "gate_to (stub 0x80) 0xEE (idt_entries ?u ! 128)"
      using idt_set_gate_nth [OF lt, of "0x80" "stub 0x80" "0x08" "0xEE" "0x80"] by (simp add: gate_to_set)
    ultimately show ?thesis
      unfolding s' by (auto simp: idt_set_gate_nth [OF lt] gate_to_set word_less_nat_alt split: if_splits)
  qed
  have tab: "idtr s' = Some (2047, table)" "length (idt_entries s') = 256"
    using g lt by (simp_all add: s')
  have pic: "added h h' = [Outb 0x20 0x11, Outb 0x80 0, Outb 0xA0 0x11, Outb 0x80 0, Outb 0x21 0x20, Outb 0x80 0,
      Outb 0xA1 0x28, Outb 0x80 0, Outb 0x21 0x04, Outb 0x80 0, Outb 0xA1 0x02, Outb 0x80 0,
      Outb 0x21 0x01, Outb 0x80 0, Outb 0xA1 0x01, Outb 0x80 0, Outb 0x21 0xF8, Outb 0x80 0,
      Outb 0xA1 0xFF, Outb 0x80 0]"
    by (simp add: h' pic_remap_def pic_out_def io_wait_def outb_def added_def)
  show ?thesis unfolding pic by (intro conjI allI gate tab) simp_all
qed

definition idt_reset :: idt where
  "idt_reset = \<lparr>idt_entries = replicate 256 \<lparr>base_low = 0, selector = 0, always0 = 0, flags = 0, base_high = 0\<rparr>,
     idt_limit = 0, idt_base = 0, idtr = None\<rparr>"

theorem idt_init_gates_witness:
  "idtr (fst (idt_init (\<lambda>i. 0x101000 + word_of_nat i) 0x105000 (idt_reset, []))) = Some (2047, 0x105000)"
  using idt_init_gates [of idt_reset "\<lambda>i. 0x101000 + word_of_nat i" "0x105000" "[]"]
  by (cases "idt_init (\<lambda>i. 0x101000 + word_of_nat i) 0x105000 (idt_reset, [])") (simp add: idt_reset_def)

text \<open>the end-of-interrupt discipline. A real interrupt on a vector of the remapped controllers
  runs its registered handler once, if there is one, and is then acknowledged at the slave exactly
  when it came from the slave, and last at the master. A spurious interrupt on vector 39 or 47 (its
  bit is not in service) runs no handler and is acknowledged at the master only when it came from
  the slave.\<close>

theorem irq_handler_eoi:
  assumes "32 \<le> irq" and "irq < 48"
  shows "irq_handler d run t irq (s, h) =
     (let probe = (if irq = 39 then [Outb 0x20 0x0B, Inb 0x20 (dev_inb d (h @ [Outb 0x20 0x0B]) 0x20)]
                   else if irq = 47 then [Outb 0xA0 0x0B, Inb 0xA0 (dev_inb d (h @ [Outb 0xA0 0x0B]) 0xA0)]
                   else []);
          spurious = (irq = 39 \<and> dev_inb d (h @ [Outb 0x20 0x0B]) 0x20 AND 0x80 = 0 \<or>
                      irq = 47 \<and> dev_inb d (h @ [Outb 0xA0 0x0B]) 0xA0 AND 0x80 = 0);
          (s', h') = (case t (ucast irq) of Some f \<Rightarrow> run f (s, h @ probe) | None \<Rightarrow> (s, h @ probe))
      in if spurious then Some (s, h @ probe @ (if irq = 47 then [Outb 0x20 0x20] else []))
         else Some (s', h' @ (if irq \<ge> 40 then [Outb 0xA0 0x20] else []) @ [Outb 0x20 0x20]))"
proof -
  have "unat irq < 256" using assms by (simp add: word_less_nat_alt)
  then show ?thesis
    by (auto simp: irq_handler_def irq_dispatch_def inb_def outb_def Let_def split_def split: option.split)
qed

definition quiet_device :: device where
  "quiet_device = \<lparr>dev_inb = (\<lambda>h p. 0), dev_inw = (\<lambda>h p. 0), dev_inl = (\<lambda>h p. 0)\<rparr>"

theorem irq_handler_eoi_witness:
  "irq_handler quiet_device (\<lambda>f. id) (\<lambda>_. None) 47 ((), []) =
     Some ((), [Outb 0xA0 0x0B, Inb 0xA0 0, Outb 0x20 0x20]) \<and>
   irq_handler quiet_device (\<lambda>f (n, h). (Suc n, h)) ((\<lambda>_. None)(44 := Some Mouse_handler)) 44 (0, []) =
     Some (1, [Outb 0xA0 0x20, Outb 0x20 0x20])"
  using irq_handler_eoi [of 47 quiet_device "\<lambda>f. id" "\<lambda>_. None" "()" "[]"]
    irq_handler_eoi [of 44 quiet_device "\<lambda>f (n, h). (Suc n, h)" "(\<lambda>_. None)(44 := Some Mouse_handler)" 0 "[]"]
  by (simp add: quiet_device_def)

end
