(* ===== verification/Timer.thy ===== *)
theory Timer
  imports Interrupts
begin

text \<open>
  The interval timer (\<^verbatim>\<open>drivers/timer.c\<close>): programming the PIT, the tick counter of the interrupt
  handler, and waiting, where every \<^verbatim>\<open>hlt\<close> ends with one timer interrupt.
\<close>

section \<open>Operations\<close>

definition PIT_FREQUENCY :: u32 where [simp]: "PIT_FREQUENCY = 1193182"

definition timer_callback :: "u32 \<Rightarrow> u32" where
  "timer_callback timer_ticks = timer_ticks + 1"

text \<open>The tick counter, the handler table and the ports; dividing by a zero frequency is undefined.\<close>

definition timer_init :: "u32 \<Rightarrow> u32 \<times> handlers \<times> history \<Rightarrow> (u32 \<times> handlers \<times> history) option" where
  "timer_init frequency = (\<lambda>(timer_ticks, t, h).
     (let t1 = register_interrupt_handler 32 Timer_callback t
      in if frequency = 0 then None
         else let divisor = PIT_FREQUENCY div frequency;
                  h1 = outb 0x43 0x36 h;
                  low = ucast (divisor AND 0xFF);
                  high = ucast (drop_bit 8 divisor AND 0xFF);
                  h2 = outb 0x40 low h1;
                  h3 = outb 0x40 high h2
              in Some (0, t1, h3)))"

definition timer_get_ticks :: "u32 \<Rightarrow> u32" where
  "timer_get_ticks timer_ticks = timer_ticks"

function timer_wait_loop :: "u32 \<Rightarrow> u32 \<Rightarrow> u32" where
  "timer_wait_loop end_tick timer_ticks =
     (if timer_ticks < end_tick then timer_wait_loop end_tick (timer_callback timer_ticks) else timer_ticks)"
  by pat_completeness auto
termination
proof (relation "measure (\<lambda>(e, t). unat e - unat t)")
  fix e t :: u32
  assume lt: "t < e"
  then have "unat (t + 1) = unat t + 1" using unat_u32_less [of e] by (simp add: word_less_nat_alt unat_add_small)
  with lt show "((e, timer_callback t), (e, t)) \<in> measure (\<lambda>(e, t). unat e - unat t)"
    by (simp add: timer_callback_def word_less_nat_alt)
qed simp

declare timer_wait_loop.simps [simp del]

definition timer_wait :: "u32 \<Rightarrow> u32 \<Rightarrow> u32" where
  "timer_wait ticks timer_ticks = timer_wait_loop (timer_ticks + ticks) timer_ticks"

section \<open>Properties\<close>

lemma timer_wait_loop_spec: "timer_wait_loop e t = (if t < e then e else t)"
proof (induction e t rule: timer_wait_loop.induct)
  case (1 e t)
  show ?case
  proof (cases "t < e")
    case True
    then have "t + 1 \<le> e" by (simp add: inc_le)
    with True 1 show ?thesis by (subst timer_wait_loop.simps) (auto simp: timer_callback_def)
  next
    case False
    then show ?thesis by (subst timer_wait_loop.simps) simp
  qed
qed


text \<open>The reload value that the two data bytes give the PIT.\<close>

definition programmed :: "history \<Rightarrow> u32" where
  "programmed h = (case writes_to 0x40 h of [low, high] \<Rightarrow> ucast low OR push_bit 8 (ucast high) | _ \<Rightarrow> 0)"

lemma two_bytes: "(ucast (ucast (x AND 0xFF :: u32) :: u8) :: u32) OR push_bit 8 (ucast (ucast (drop_bit 8 x AND 0xFF) :: u8)) =
    take_bit 16 x"
proof (rule bit_word_eqI)
  fix n assume "n < LENGTH(32)"
  have m: "(0xFF :: u32) = mask 8" by (simp add: mask_eq_exp_minus_1)
  show "bit ((ucast (ucast (x AND 0xFF :: u32) :: u8) :: u32) OR push_bit 8 (ucast (ucast (drop_bit 8 x AND 0xFF) :: u8))) n \<longleftrightarrow>
      bit (take_bit 16 x) n"
    unfolding m by (cases "n < 8"; cases "n < 16") (auto simp: bit_simps)
qed

text \<open>\<^verbatim>\<open>timer_init\<close> registers the timer handler, resets the counter and programs channel 0 with the
  rounded divisor for every frequency of at least 19 Hz; below that the divisor does not fit its 16
  bits and only its low part is sent. Frequency 0 divides by zero.\<close>

theorem timer_init_programs_divisor:
  "timer_init f (n, t, h) = None \<and> f = 0 \<or>
   f \<noteq> 0 \<and> (\<exists>k. timer_init f (n, t, h) = Some (0, t(32 := Some Timer_callback), h @ k) \<and> writes_to 0x43 k = [0x36] \<and>
     unat (programmed k) = (1193182 div unat f) mod 65536 \<and>
     (19 \<le> f \<longrightarrow> unat (programmed k) = 1193182 div unat f))"
proof (cases "f = 0")
  case True
  then show ?thesis by (simp add: timer_init_def)
next
  case False
  let ?d = "1193182 div f :: u32"
  let ?k = "[Outb 0x43 0x36, Outb 0x40 (ucast (?d AND 0xFF)), Outb 0x40 (ucast (drop_bit 8 ?d AND 0xFF))]"
  have i: "timer_init f (n, t, h) = Some (0, t(32 := Some Timer_callback), h @ ?k)"
    using False by (simp add: timer_init_def register_interrupt_handler_def outb_def Let_def)
  have "programmed ?k = take_bit 16 ?d" unfolding two_bytes [symmetric] by (simp add: programmed_def)
  then have p: "unat (programmed ?k) = (1193182 div unat f) mod 65536"
    by (simp add: take_bit_eq_mod unat_mod unat_div)
  moreover have "(1193182 div unat f) mod 65536 = 1193182 div unat f" if "19 \<le> f"
  proof -
    have "1193182 div unat f \<le> 1193182 div 19" using that by (intro div_le_mono2) (simp_all add: word_le_nat_alt)
    then show ?thesis by simp
  qed
  ultimately show ?thesis using False i by auto
qed

theorem timer_init_programs_divisor_witness:
  "\<exists>k. timer_init 100 (7, \<lambda>_. None, []) = Some (0, [32 \<mapsto> Timer_callback], k) \<and> unat (programmed k) = 11931"
  using timer_init_programs_divisor [of 100 7 "\<lambda>_. None" "[]"] by auto

end
