(* ===== verification/Machine.thy ===== *)
theory Machine
  imports Prelude
begin

text \<open>
  Physical memory: a byte for every 32-bit address, with the byte and 32-bit little-endian
  accesses of the i386. The page-granular facts at the end are what the frame allocator and the
  page tables need: accesses at different aligned addresses do not interfere.
\<close>

section \<open>Loads and stores\<close>

type_synonym phys_mem = "u32 \<Rightarrow> u8"

definition store8 :: "phys_mem \<Rightarrow> u32 \<Rightarrow> u8 \<Rightarrow> phys_mem" where
  "store8 m a v = m(a := v)"

definition load32 :: "phys_mem \<Rightarrow> u32 \<Rightarrow> u32" where
  "load32 m a = ucast (m a) OR push_bit 8 (ucast (m (a + 1)))
     OR push_bit 16 (ucast (m (a + 2))) OR push_bit 24 (ucast (m (a + 3)))"

definition store32 :: "phys_mem \<Rightarrow> u32 \<Rightarrow> u32 \<Rightarrow> phys_mem" where
  "store32 m a v = m(a := ucast v, a + 1 := ucast (drop_bit 8 v),
     a + 2 := ucast (drop_bit 16 v), a + 3 := ucast (drop_bit 24 v))"

definition aligned4 :: "u32 \<Rightarrow> bool" where
  "aligned4 a \<longleftrightarrow> 4 dvd unat a"

lemma load32_store32_same [mem_simps]: "load32 (store32 m a v) a = v"
proof (rule bit_word_eqI)
  fix n assume n: "n < LENGTH(32)"
  then consider "n < 8" | "8 \<le> n" "n < 16" | "16 \<le> n" "n < 24" | "24 \<le> n" "n < 32"
    by fastforce
  then show "bit (load32 (store32 m a v) a) n = bit v n"
    by cases (auto simp: load32_def store32_def bit_simps)
qed

lemma load32_cong:
  assumes "m a = m' a" and "m (a + 1) = m' (a + 1)"
    and "m (a + 2) = m' (a + 2)" and "m (a + 3) = m' (a + 3)"
  shows "load32 m a = load32 m' a"
  using assms by (simp add: load32_def)

lemma load32_zero:
  assumes "m a = 0" and "m (a + 1) = 0" and "m (a + 2) = 0" and "m (a + 3) = 0"
  shows "load32 m a = 0"
  using assms by (simp add: load32_def)

text \<open>The four bytes of an aligned word do not wrap around the address space.\<close>

lemma aligned4_unat_add:
  assumes "aligned4 a" and "k < 4"
  shows "unat (a + word_of_nat k) = unat a + k"
proof -
  have "unat a + k < 4294967296"
    using assms by (intro dvd_offset_less [of 4]) (auto simp: aligned4_def unat_u32_less)
  then show ?thesis using assms(2) by (simp add: unat_word_ariths unat_of_nat_small)
qed

lemma aligned4_bytes_disjoint:
  assumes "aligned4 a" and "aligned4 b" and "a \<noteq> b" and "i < 4" and "j < 4"
  shows "b + word_of_nat j \<noteq> a + word_of_nat i"
proof
  assume eq: "b + word_of_nat j = a + word_of_nat i"
  have "unat b + j = unat a + i"
    using arg_cong [OF eq, of unat] assms by (simp add: aligned4_unat_add)
  then have "unat b = unat a"
    using assms by (simp add: aligned4_def dvd_offset_eq_iff [of 4])
  with assms(3) show False by (simp add: u32_eq_iff_unat)
qed

lemma store32_other_byte:
  assumes "\<And>i. i < 4 \<Longrightarrow> b \<noteq> a + word_of_nat i"
  shows "store32 m a v b = m b"
  using assms [of 0] assms [of 1] assms [of 2] assms [of 3] by (simp add: store32_def)

lemma load32_store32_other [mem_simps]:
  assumes "aligned4 a" and "aligned4 b" and "a \<noteq> b"
  shows "load32 (store32 m a v) b = load32 m b"
proof -
  have o: "store32 m a v (b + word_of_nat j) = m (b + word_of_nat j)" if "j < 4" for j
    by (rule store32_other_byte) (rule aligned4_bytes_disjoint [OF assms], use that in auto)
  show ?thesis
    using o [of 0] o [of 1] o [of 2] o [of 3] by (intro load32_cong) simp_all
qed

lemma store32_store32_same [mem_simps]:
  "aligned4 a \<Longrightarrow> store32 (store32 m a v) a w = store32 m a w"
  by (rule ext) (simp add: store32_def)

lemma store32_load32_same [mem_simps]:
  assumes "aligned4 a"
  shows "store32 m a (load32 m a) = m"
proof -
  have "ucast (load32 m a) = m a"
    by (rule bit_word_eqI) (auto simp: load32_def bit_simps)
  moreover have "ucast (drop_bit 8 (load32 m a)) = m (a + 1)"
    by (rule bit_word_eqI) (auto simp: load32_def bit_simps dest: bit_imp_le_length)
  moreover have "ucast (drop_bit 16 (load32 m a)) = m (a + 2)"
    by (rule bit_word_eqI) (auto simp: load32_def bit_simps dest: bit_imp_le_length)
  moreover have "ucast (drop_bit 24 (load32 m a)) = m (a + 3)"
    by (rule bit_word_eqI) (auto simp: load32_def bit_simps dest: bit_imp_le_length)
  ultimately show ?thesis by (simp add: store32_def)
qed

section \<open>Memory utilities (utils.c)\<close>

text \<open>
  \<^verbatim>\<open>memset\<close>, \<^verbatim>\<open>memcpy\<close> and \<^verbatim>\<open>memcmp\<close> work byte by byte, in ascending order.
\<close>

definition memset :: "phys_mem \<Rightarrow> u32 \<Rightarrow> int \<Rightarrow> u32 \<Rightarrow> phys_mem" where
  "memset m dest val len =
     fold (\<lambda>i m. store8 m (dest + word_of_nat i) (word_of_int val)) [0..<unat len] m"

definition memcpy :: "phys_mem \<Rightarrow> u32 \<Rightarrow> u32 \<Rightarrow> u32 \<Rightarrow> phys_mem" where
  "memcpy m dest src len =
     fold (\<lambda>i m. store8 m (dest + word_of_nat i) (m (src + word_of_nat i))) [0..<unat len] m"

fun memcmp_loop :: "phys_mem \<Rightarrow> u32 \<Rightarrow> u32 \<Rightarrow> nat \<Rightarrow> int" where
  "memcmp_loop m a b 0 = 0"
| "memcmp_loop m a b (Suc n) =
     (if m a \<noteq> m b then uint (m a) - uint (m b) else memcmp_loop m (a + 1) (b + 1) n)"

definition memcmp :: "phys_mem \<Rightarrow> u32 \<Rightarrow> u32 \<Rightarrow> u32 \<Rightarrow> int" where
  "memcmp m s1 s2 n = memcmp_loop m s1 s2 (unat n)"

lemma memset_apply:
  "memset m dest val len a =
     (if \<exists>i < unat len. a = dest + word_of_nat i then word_of_int val else m a)"
  unfolding memset_def
  by (rule fold_upt_invariant [where a = 0 and b = "unat len" and
        P = "\<lambda>n m'. m' a = (if \<exists>i < n. a = dest + word_of_nat i then word_of_int val else m a)"])
    (auto simp: store8_def less_Suc_eq)

section \<open>Arrays of 1024 words in a page\<close>

definition page_aligned :: "u32 \<Rightarrow> bool" where
  "page_aligned a \<longleftrightarrow> 4096 dvd unat a"

text \<open>The address of \<^verbatim>\<open>p[i]\<close> for a page directory or page table at \<open>p\<close>.\<close>

definition entry_addr :: "u32 \<Rightarrow> u32 \<Rightarrow> u32" where
  "entry_addr p i = p + 4 * i"

lemma page_aligned_offset:
  assumes "page_aligned p" and "k < 4096"
  shows "unat (p + word_of_nat k) = unat p + k"
proof -
  have "unat p + k < 4294967296"
    using assms by (intro dvd_offset_less [of 4096]) (auto simp: page_aligned_def unat_u32_less)
  then show ?thesis using assms(2) by (simp add: unat_word_ariths unat_of_nat_small)
qed

lemma page_aligned_offset_eq_iff:
  assumes "page_aligned p" and "page_aligned q" and "i < 4096" and "j < 4096"
  shows "p + word_of_nat i = q + word_of_nat j \<longleftrightarrow> p = q \<and> i = j"
  using assms dvd_offset_eq_iff [of 4096 "unat p" "unat q" i j]
  by (auto simp: u32_eq_iff_unat page_aligned_offset page_aligned_def)

lemma unat_entry_addr:
  assumes "page_aligned p" and "unat i < 1024"
  shows "unat (entry_addr p i) = unat p + 4 * unat i"
proof -
  have "4 * i = word_of_nat (4 * unat i)" by simp
  with assms show ?thesis
    using page_aligned_offset [of p "4 * unat i"] by (simp add: entry_addr_def)
qed

lemma aligned4_entry_addr [simp]: "page_aligned p \<Longrightarrow> aligned4 (entry_addr p i)"
  unfolding aligned4_def entry_addr_def page_aligned_def
  by (rule dvd_unat_add) (auto intro: dvd_unat_mult dvd_trans [of 4 4096])

lemma entry_addr_word: "entry_addr p i = p + word_of_nat (4 * unat i)"
  by (simp add: entry_addr_def)

lemma entry_addr_eq_iff:
  assumes "page_aligned p" and "page_aligned q" and "unat i < 1024" and "unat j < 1024"
  shows "entry_addr p i = entry_addr q j \<longleftrightarrow> p = q \<and> i = j"
  unfolding entry_addr_word using assms by (subst page_aligned_offset_eq_iff) (auto simp: u32_eq_iff_unat)

text \<open>Clearing a page with \<^verbatim>\<open>memset\<close> or word by word leaves it all zero and touches no
  other page.\<close>

lemma load32_memset_page:
  assumes "page_aligned p" and "page_aligned q" and "unat i < 1024"
  shows "load32 (memset m p 0 4096) (entry_addr q i) = (if p = q then 0 else load32 m (entry_addr q i))"
proof -
  have hit: "(\<exists>j < 4096. entry_addr q i + word_of_nat k = p + word_of_nat j) \<longleftrightarrow> p = q"
    if k: "k < 4" for k
  proof -
    have e: "entry_addr q i + word_of_nat k = q + word_of_nat (4 * unat i + k)"
      by (simp add: entry_addr_def)
    have lt: "4 * unat i + k < 4096" using assms(3) k by simp
    show ?thesis
      unfolding e using page_aligned_offset_eq_iff [OF assms(2,1) lt] lt by blast
  qed
  let ?e = "entry_addr q i"
  have b: "memset m p 0 4096 (?e + word_of_nat k) = (if p = q then 0 else m (?e + word_of_nat k))"
    if "k < 4" for k
    using hit [OF that] by (simp add: memset_apply)
  show ?thesis
  proof (cases "p = q")
    case True
    then show ?thesis
      using b [of 0] b [of 1] b [of 2] b [of 3] by (simp add: load32_zero)
  next
    case False
    then show ?thesis
      using b [of 0] b [of 1] b [of 2] b [of 3] by (simp add: load32_cong [of "memset m p 0 4096" _ m])
  qed
qed

end
