(* ===== verification/Syscall.thy ===== *)
theory Syscall
  imports Console Vfs Timer Machine
begin

text \<open>
  The system calls (\<^verbatim>\<open>syscall.c\<close>): the dispatcher behind \<^verbatim>\<open>int 0x80\<close> on the saved registers, and the
  calls on the console, the timer and the file system. Memory is addressed as the calling code sees it;
  the cells of the screen are part of the terminal, not of \<open>memory\<close>. The slices that the Rust entry
  points make of a pointer and a length must not be null, longer than \<^verbatim>\<open>isize::MAX\<close> or wrap around the
  address space: anything else is undefined behaviour, \<^const>\<open>None\<close>.
\<close>

section \<open>State\<close>

record registers_t =
  reg_ds :: u32
  reg_edi :: u32
  reg_esi :: u32
  reg_ebp :: u32
  reg_esp :: u32
  reg_ebx :: u32
  reg_edx :: u32
  reg_ecx :: u32
  reg_eax :: u32
  int_no :: u32
  err_code :: u32
  reg_eip :: u32
  reg_cs :: u32
  reg_eflags :: u32
  reg_useresp :: u32
  reg_ss :: u32

record sys = console +
  memory :: phys_mem
  timer_ticks :: u32
  files :: vfs

definition SYS_WRITE :: u32 where [simp]: "SYS_WRITE = 1"
definition SYS_GET_TICKS :: u32 where [simp]: "SYS_GET_TICKS = 2"
definition SYS_OPEN :: u32 where [simp]: "SYS_OPEN = 3"
definition SYS_READ :: u32 where [simp]: "SYS_READ = 4"
definition SYS_CLOSE :: u32 where [simp]: "SYS_CLOSE = 5"

section \<open>Operations\<close>

fun sys_write_loop :: "device \<Rightarrow> nat \<Rightarrow> u32 \<Rightarrow> 'a sys_scheme \<Rightarrow> 'a sys_scheme option" where
  "sys_write_loop d 0 buf s = Some s"
| "sys_write_loop d (Suc n) buf s = do { s1 \<leftarrow> con_putchar d (memory s buf) s; sys_write_loop d n (buf + 1) s1 }"

definition sys_write :: "device \<Rightarrow> u32 \<Rightarrow> u32 \<Rightarrow> u32 \<Rightarrow> 'a sys_scheme \<Rightarrow> (u32 \<times> 'a sys_scheme) option" where
  "sys_write d fd buf len s =
     (if fd \<noteq> 1 \<or> buf = 0 then Some (- 1, s)
      else do { s1 \<leftarrow> sys_write_loop d (unat len) buf s; Some (len, s1) })"

definition slice_ok :: "u32 \<Rightarrow> u32 \<Rightarrow> bool" where
  "slice_ok p len \<longleftrightarrow> p \<noteq> 0 \<and> unat len < 2 ^ 31 \<and> unat p + unat len \<le> 2 ^ 32"

definition mem_bytes :: "phys_mem \<Rightarrow> u32 \<Rightarrow> nat \<Rightarrow> u8 list" where
  "mem_bytes m a n = map (\<lambda>i. m (a + word_of_nat i)) [0..<n]"

definition store_bytes :: "phys_mem \<Rightarrow> u32 \<Rightarrow> u8 list \<Rightarrow> phys_mem" where
  "store_bytes m a bs = fold (\<lambda>i m. store8 m (a + word_of_nat i) (bs ! i)) [0..<length bs] m"

definition syscall_handler :: "device \<Rightarrow> registers_t \<times> 'a sys_scheme \<Rightarrow> (registers_t \<times> 'a sys_scheme) option" where
  "syscall_handler d = (\<lambda>(regs, s).
     do {
       (ret, s1) \<leftarrow>
         (if reg_eax regs = SYS_WRITE then sys_write d (reg_ebx regs) (reg_ecx regs) (reg_edx regs) s
          else if reg_eax regs = SYS_GET_TICKS then Some (timer_get_ticks (timer_ticks s), s)
          else if reg_eax regs = SYS_OPEN then
            if slice_ok (reg_ebx regs) (reg_ecx regs)
            then (case munux_rs_vfs_open (mem_bytes (memory s) (reg_ebx regs) (unat (reg_ecx regs))) (files s) of
                    (r, fs) \<Rightarrow> Some (word_of_int r, s\<lparr>files := fs\<rparr>))
            else None
          else if reg_eax regs = SYS_READ then
            if slice_ok (reg_ecx regs) (reg_edx regs)
            then (case munux_rs_vfs_read (sint (reg_ebx regs)) (mem_bytes (memory s) (reg_ecx regs) (unat (reg_edx regs))) (files s) of
                    (r, out, fs) \<Rightarrow> Some (word_of_int r, s\<lparr>memory := store_bytes (memory s) (reg_ecx regs) out, files := fs\<rparr>))
            else None
          else if reg_eax regs = SYS_CLOSE then
            (case munux_rs_vfs_close (sint (reg_ebx regs)) (files s) of (r, fs) \<Rightarrow> Some (word_of_int r, s\<lparr>files := fs\<rparr>))
          else Some (- 1, s));
       Some (regs\<lparr>reg_eax := ret\<rparr>, s1)
     })"

text \<open>\<^verbatim>\<open>do_syscall\<close> of \<^verbatim>\<open>kernel.c\<close>: the \<^verbatim>\<open>int 0x80\<close> stub saves the registers (those the call does not
  set are \<open>frame\<close>), calls the dispatcher on them and restores them.\<close>

definition do_syscall ::
    "device \<Rightarrow> registers_t \<Rightarrow> u32 \<Rightarrow> u32 \<Rightarrow> u32 \<Rightarrow> u32 \<Rightarrow> 'a sys_scheme \<Rightarrow> (u32 \<times> 'a sys_scheme) option" where
  "do_syscall d frame num a1 a2 a3 s =
     do {
       (regs, s1) \<leftarrow> syscall_handler d (frame\<lparr>reg_eax := num, reg_ebx := a1, reg_ecx := a2, reg_edx := a3\<rparr>, s);
       Some (reg_eax regs, s1)
     }"

section \<open>Memory\<close>

lemma length_mem_bytes [simp]: "length (mem_bytes m a n) = n"
  by (simp add: mem_bytes_def)

text \<open>The addresses of a slice that does not wrap are distinct.\<close>

lemma slice_addr:
  assumes "unat a + n \<le> 2 ^ 32" and "i < n"
  shows "unat (a + word_of_nat i :: u32) = unat a + i"
proof -
  have "unat (word_of_nat i :: u32) = i" using assms by (intro unat_of_nat_small) simp
  then show ?thesis using assms by (simp add: unat_add_small)
qed

definition in_slice :: "u32 \<Rightarrow> nat \<Rightarrow> u32 \<Rightarrow> bool" where
  "in_slice a n x \<longleftrightarrow> unat a \<le> unat x \<and> unat x < unat a + n"

lemma store_bytes_apply:
  assumes "unat a + length bs \<le> 2 ^ 32"
  shows "store_bytes m a bs x = (if in_slice a (length bs) x then bs ! (unat x - unat a) else m x)"
proof -
  have "fold (\<lambda>i m. store8 m (a + word_of_nat i) (bs ! i)) [0..<length bs] m x =
      (if in_slice a (length bs) x then bs ! (unat x - unat a) else m x)"
  proof (rule fold_upt_invariant [where P = "\<lambda>n m'. m' x = (if in_slice a n x then bs ! (unat x - unat a) else m x)"])
    fix i m' assume i: "i < length bs" and p: "m' x = (if in_slice a i x then bs ! (unat x - unat a) else m x)"
    have u: "unat (a + word_of_nat i) = unat a + i" using slice_addr [OF assms i] .
    show "store8 m' (a + word_of_nat i) (bs ! i) x = (if in_slice a (Suc i) x then bs ! (unat x - unat a) else m x)"
    proof (cases "x = a + word_of_nat i")
      case True
      then show ?thesis using u by (simp add: store8_def in_slice_def)
    next
      case False
      then have "unat x \<noteq> unat a + i" using u by (metis word_unat_eq_iff)
      then show ?thesis using False p by (auto simp: store8_def in_slice_def)
    qed
  qed (auto simp: in_slice_def)
  then show ?thesis by (simp add: store_bytes_def)
qed

lemma mem_bytes_store:
  assumes "unat a + length bs \<le> 2 ^ 32"
  shows "mem_bytes (store_bytes m a bs) a (length bs) = bs"
  using slice_addr [OF assms] by (intro nth_equalityI) (simp_all add: mem_bytes_def store_bytes_apply [OF assms] in_slice_def)

lemma store_mem_bytes:
  assumes "unat a + n \<le> 2 ^ 32"
  shows "store_bytes m a (mem_bytes m a n) = m"
proof
  fix x
  show "store_bytes m a (mem_bytes m a n) x = m x"
  proof (cases "in_slice a n x")
    case True
    then have "unat x - unat a < n" "a + word_of_nat (unat x - unat a) = x"
      by (auto simp: in_slice_def of_nat_diff)
    then show ?thesis using True assms by (simp add: store_bytes_apply mem_bytes_def)
  qed (use assms in \<open>simp add: store_bytes_apply\<close>)
qed

section \<open>The calls\<close>

lemma mem_bytes_Suc: "mem_bytes m a (Suc n) = m a # mem_bytes m (a + 1) n"
proof -
  have "[0..<Suc n] = 0 # map Suc [0..<n]" by (simp only: upt_conv_Cons zero_less_Suc map_Suc_upt)
  then show ?thesis by (simp add: mem_bytes_def comp_def add.assoc add.commute [of 1] del: upt_Suc)
qed

lemma emitted_sys: "emitted cs s s' \<Longrightarrow> memory s' = memory s \<and> timer_ticks s' = timer_ticks s \<and> files s' = files s"
  for s :: "'a sys_scheme"
  by (auto simp: emitted_def)

lemma sys_write_loop_emits:
  assumes "uart_ready d"
  shows "\<exists>s'. sys_write_loop d n a s = Some s' \<and> emitted (mem_bytes (memory s) a n) s s'"
proof (induction n arbitrary: a s)
  case 0
  show ?case by (simp add: mem_bytes_def)
next
  case (Suc n)
  obtain s1 where s1: "con_putchar d (memory s a) s = Some s1" "emitted [memory s a] s s1"
    using con_putchar_emits [OF assms] by metis
  obtain s' where "sys_write_loop d n (a + 1) s1 = Some s'" "emitted (mem_bytes (memory s) (a + 1) n) s1 s'"
    using Suc [of "a + 1" s1] emitted_sys [OF s1(2)] by auto
  then show ?case using s1 emitted_append [OF s1(2)] by (fastforce simp: mem_bytes_Suc)
qed

lemma sys_write_loop_frame:
  "sys_write_loop d n a s = Some s' \<Longrightarrow> memory s' = memory s \<and> timer_ticks s' = timer_ticks s \<and> files s' = files s"
  by (induction d n a s rule: sys_write_loop.induct) (auto simp: con_putchar_def bind_eq_Some_conv)

text \<open>A read through a descriptor: how much it wrote, and that the file system itself is unchanged.\<close>

lemma fd_read_cases:
  assumes "fd_read fd out s = (r, out', s')" and "length out < 2 ^ 31"
  obtains (none) "r = - 1 \<or> r = 0" and "out' = out" and "s' = s"
  | (some) p off c n where "Option.bind (FDS s) (\<lambda>t. map_of t fd) = Some (p, off)" and "Option.bind (ROOT s) (fs_contents p) = Some c"
      and "n = min (length out) (length c - off)" and "r = int n" and "out' = take n (drop off c) @ drop n out"
      and "s' = s\<lparr>FDS := map_option (bt_insert fd (p, off + n)) (FDS s)\<rparr>"
proof (cases "Option.bind (FDS s) (\<lambda>t. map_of t fd)")
  case None
  with assms(1) none show thesis by (simp add: fd_read_def)
next
  case (Some e)
  obtain p off where e: "e = (p, off)" by (cases e)
  show thesis
  proof (cases "Option.bind (ROOT s) (fs_contents p)")
    case None
    with Some e assms(1) none show thesis by (simp add: fd_read_def)
  next
    case c: (Some c)
    define n where "n = min (length out) (length c - off)"
    have "n < 2 ^ 31" using assms(2) by (simp add: n_def min_def)
    then show thesis
      using none some [OF Some [unfolded e] c n_def] Some e c assms(1)
      by (cases "off \<ge> length c") (simp_all add: fd_read_def sint_count Let_def n_def [symmetric])
  qed
qed

lemma fd_read_frame:
  assumes "fd_read fd out s = (r, out', s')" and "length out < 2 ^ 31"
  shows "length out' = length out \<and> r \<le> int (length out) \<and> - 1 \<le> r \<and> drop (nat r) out' = drop (nat r) out \<and> ROOT s' = ROOT s"
  using assms by (cases rule: fd_read_cases) auto

lemma fd_open_root: "ROOT (snd (fd_open p s)) = ROOT s"
  by (auto simp: fd_open_def Let_def split: option.splits)

lemma fd_close_root: "ROOT (snd (fd_close fd s)) = ROOT s"
  by (auto simp: fd_close_def split: option.splits)

lemma free_fd_bound: "free_fd t 3 \<le> 3 + int (length t)"
proof -
  have "{3..<free_fd t 3} \<subseteq> fst ` set t"
    using free_fd_spec [of t 3] by (auto simp: map_of_eq_None_iff)
  then have "card {3..<free_fd t 3} \<le> length t"
    by (metis card_image_le card_length card_mono finite_imageI finite_set le_trans)
  then show ?thesis by simp
qed

lemma sint_word_of_int: "- 1 \<le> r \<Longrightarrow> r < 2 ^ 31 \<Longrightarrow> sint (word_of_int r :: u32) = r"
proof (cases "r = - 1")
  case False
  assume "- 1 \<le> r" "r < 2 ^ 31"
  with False obtain n where "r = int n" "n < 2 ^ 31" by (cases r rule: int_cases) auto
  then show ?thesis using sint_count [of n] by simp
qed simp

text \<open>One read through a descriptor opened for it.\<close>

lemma do_syscall_session:
  assumes "ROOT (files s) = Some fs" and "FDS (files s) = Some t" and "length t < 2 ^ 31 - 3"
    and "slice_ok path plen" and "slice_ok buf blen"
    and "valid_utf8 (mem_bytes (memory s) path (unat plen))"
    and "fs_contents (mem_bytes (memory s) path (unat plen)) fs = Some c" and "length c < 2 ^ 31"
  shows "\<exists>fd s1 n s2 s3. do_syscall d frame SYS_OPEN path plen 0 s = Some (fd, s1) \<and> 3 \<le> sint fd \<and>
    do_syscall d frame SYS_READ fd buf blen s1 = Some (word_of_nat n, s2) \<and> n = min (length c) (unat blen) \<and>
    mem_bytes (memory s2) buf (unat blen) = take n c @ drop n (mem_bytes (memory s) buf (unat blen)) \<and>
    do_syscall d frame SYS_CLOSE fd 0 0 s2 = Some (0, s3) \<and> s3 = s2\<lparr>files := files s\<rparr> \<and>
    s2 = s\<lparr>memory := memory s2, files := files s2\<rparr>"
proof -
  let ?p = "mem_bytes (memory s) path (unat plen)"
  define fd where "fd = free_fd t 3"
  have fd: "map_of t fd = None" "3 \<le> fd" "fd < 2 ^ 31"
    using free_fd_spec [of t 3] free_fd_bound [of t] assms(3) by (simp_all add: fd_def)
  have sfd: "sint (word_of_int fd :: u32) = fd" using fd by (intro sint_word_of_int) simp_all
  define s1 where "s1 = s\<lparr>files := (files s)\<lparr>FDS := Some (bt_insert fd (?p, 0) t)\<rparr>\<rparr>"
  have o: "do_syscall d frame SYS_OPEN path plen 0 s = Some (word_of_int fd, s1)"
    using assms by (simp add: do_syscall_def syscall_handler_def munux_rs_vfs_open_def fd_open_def fd_def s1_def Let_def)
  define n where "n = min (length c) (unat blen)"
  let ?b = "mem_bytes (memory s) buf (unat blen)"
  define out where "out = take n c @ drop n ?b"
  have out: "length out = unat blen" by (simp add: out_def n_def)
  define t2 where "t2 = (if c = [] then bt_insert fd (?p, 0) t else bt_insert fd (?p, n) (bt_insert fd (?p, 0) t))"
  define s2 where "s2 = s1\<lparr>memory := store_bytes (memory s) buf out, files := (files s)\<lparr>FDS := Some t2\<rparr>\<rparr>"
  have n31: "n < 2 ^ 31" using assms(8) by (simp add: n_def min_def)
  have "fd_read fd ?b (files s1) = (int n, out, (files s)\<lparr>FDS := Some t2\<rparr>)"
  proof (cases "c = []")
    case True
    then show ?thesis using assms(1,7) by (simp add: fd_read_def s1_def out_def n_def t2_def)
  next
    case False
    have "n = min (length ?b) (length c - 0)" by (simp add: n_def min.commute)
    then show ?thesis using False assms(1,7) n31
      by (simp add: fd_read_def s1_def out_def t2_def sint_count Let_def)
  qed
  then have r: "do_syscall d frame SYS_READ (word_of_int fd) buf blen s1 = Some (word_of_nat n, s2)"
    using assms(5) by (simp add: do_syscall_def syscall_handler_def munux_rs_vfs_read_def sfd s1_def s2_def)
  have m: "mem_bytes (memory s2) buf (unat blen) = out"
    using mem_bytes_store [of buf out "memory s"] assms(5) by (simp add: s2_def out slice_ok_def)
  have k: "map_of t2 fd \<noteq> None" "bt_remove fd t2 = t" using fd(1) by (simp_all add: t2_def bt_remove_absent)
  have "files s\<lparr>FDS := Some t\<rparr> = files s" using assms(2) by simp
  then have c: "do_syscall d frame SYS_CLOSE (word_of_int fd) 0 0 s2 = Some (0, s2\<lparr>files := files s\<rparr>)"
    using k by (auto simp: do_syscall_def syscall_handler_def munux_rs_vfs_close_def fd_close_def sfd s2_def)
  have "s2 = s\<lparr>memory := memory s2, files := files s2\<rparr>" by (simp add: s2_def s1_def)
  with o r m c fd(2) sfd n_def show ?thesis unfolding out_def by metis
qed

text \<open>Storing back a buffer of which only the first bytes changed touches only those bytes, and so
  does the read call, which reports how many there are.\<close>

lemma store_bytes_prefix:
  assumes b: "unat a + n \<le> 2 ^ 32" and l: "length out = n" and d: "drop k out = drop k (mem_bytes m a n)"
    and c: "store_bytes m a out x \<noteq> m x"
  shows "in_slice a k x"
proof (rule ccontr)
  let ?b = "mem_bytes m a n"
  assume "\<not> in_slice a k x"
  moreover have "in_slice a n x" using c b l by (auto simp: store_bytes_apply split: if_splits)
  ultimately have j: "k \<le> unat x - unat a" "unat x - unat a < n" by (auto simp: in_slice_def)
  obtain i where i: "unat x - unat a = k + i" using j(1) le_Suc_ex by blast
  have "out ! (k + i) = ?b ! (k + i)" using arg_cong [OF d, of "\<lambda>l. l ! i"] j(2) l unfolding i by simp
  then have "store_bytes m a out x = store_bytes m a ?b x" using b l by (simp add: store_bytes_apply i)
  then show False using c by (simp add: store_mem_bytes [OF b])
qed

lemma sys_read_frame:
  assumes "syscall_handler d (regs, s) = Some (regs', s')" and "reg_eax regs = SYS_READ"
  obtains out fs where "regs' = regs\<lparr>reg_eax := reg_eax regs'\<rparr>"
    and "s' = s\<lparr>memory := store_bytes (memory s) (reg_ecx regs) out, files := fs\<rparr>" and "ROOT fs = ROOT (files s)"
    and "\<And>x. memory s' x \<noteq> memory s x \<Longrightarrow> in_slice (reg_ecx regs) (nat (sint (reg_eax regs'))) x"
proof -
  let ?a = "reg_ecx regs" and ?n = "unat (reg_edx regs)"
  obtain r out fs where f: "fd_read (sint (reg_ebx regs)) (mem_bytes (memory s) ?a ?n) (files s) = (r, out, fs)"
    by (cases rule: prod_cases3)
  have ok: "slice_ok ?a (reg_edx regs)" and e: "regs' = regs\<lparr>reg_eax := word_of_int r\<rparr>"
      "s' = s\<lparr>memory := store_bytes (memory s) ?a out, files := fs\<rparr>"
    using assms f by (auto simp: syscall_handler_def munux_rs_vfs_read_def split: if_splits)
  have b: "unat ?a + ?n \<le> 2 ^ 32" "?n < 2 ^ 31" using ok by (simp_all add: slice_ok_def)
  have fr: "length out = ?n" "r \<le> int ?n" "- 1 \<le> r" "ROOT fs = ROOT (files s)"
      "drop (nat r) out = drop (nat r) (mem_bytes (memory s) ?a ?n)"
    using fd_read_frame [OF f] b(2) by simp_all
  have si: "sint (word_of_int r :: u32) = r"
    using fr(3) le_less_trans [OF fr(2), of "2 ^ 31"] b(2) by (intro sint_word_of_int) (simp_all del: of_nat_unat)
  show thesis by (rule that [where out = out and fs = fs]) (use e si fr(4) store_bytes_prefix [OF b(1) fr(1,5)] in simp_all)
qed

section \<open>Properties\<close>

text \<open>C15: whatever its number and arguments, a system call that returns changes no saved register but the
  result register, never the mounted file system or the tick counter, memory only inside the first
  bytes of the buffer given to a read call, as many as it reports, and the console only in a write call. An unknown number is
  answered with -1 and changes nothing.\<close>

theorem syscall_handler_frame:
  assumes "syscall_handler d (regs, s) = Some (regs', s')"
  shows "regs' = regs\<lparr>reg_eax := reg_eax regs'\<rparr> \<and> timer_ticks s' = timer_ticks s \<and> ROOT (files s') = ROOT (files s) \<and>
    (\<forall>x. memory s' x \<noteq> memory s x \<longrightarrow> reg_eax regs = SYS_READ \<and> in_slice (reg_ecx regs) (nat (sint (reg_eax regs'))) x) \<and>
    (reg_eax regs \<noteq> SYS_WRITE \<longrightarrow> vga s' = vga s \<and> ports s' = ports s) \<and>
    (reg_eax regs \<notin> {SYS_WRITE, SYS_GET_TICKS, SYS_OPEN, SYS_READ, SYS_CLOSE} \<longrightarrow> reg_eax regs' = - 1 \<and> s' = s)"
proof -
  consider "reg_eax regs = SYS_READ" | "reg_eax regs \<noteq> SYS_READ" by blast
  then show ?thesis
  proof cases
    case 1
    obtain out fs where "regs' = regs\<lparr>reg_eax := reg_eax regs'\<rparr>" "ROOT fs = ROOT (files s)"
      "s' = s\<lparr>memory := store_bytes (memory s) (reg_ecx regs) out, files := fs\<rparr>"
      "\<And>x. memory s' x \<noteq> memory s x \<Longrightarrow> in_slice (reg_ecx regs) (nat (sint (reg_eax regs'))) x"
      by (rule sys_read_frame [OF assms 1]) (rule that)
    then show ?thesis using 1 by simp
  next
    case 2
    then consider "reg_eax regs = SYS_WRITE" | "reg_eax regs = SYS_GET_TICKS" | "reg_eax regs = SYS_OPEN" | "reg_eax regs = SYS_CLOSE"
      | "reg_eax regs \<notin> {SYS_WRITE, SYS_GET_TICKS, SYS_OPEN, SYS_READ, SYS_CLOSE}" by blast
    then show ?thesis
    proof cases
      case 1
      then obtain ret where "regs' = regs\<lparr>reg_eax := ret\<rparr>" "s' = s \<or> (\<exists>n a. sys_write_loop d n a s = Some s')"
        using assms by (auto simp: syscall_handler_def sys_write_def bind_eq_Some_conv split: if_splits)
      then show ?thesis using 1 sys_write_loop_frame [of d _ _ s s'] by auto
    next
      case 3
      then obtain q r fs where "munux_rs_vfs_open q (files s) = (r, fs)" "regs' = regs\<lparr>reg_eax := word_of_int r\<rparr>" "s' = s\<lparr>files := fs\<rparr>"
        using assms by (auto simp: syscall_handler_def split: if_splits prod.splits)
      then show ?thesis using 3 fd_open_root [of q "files s"] by (auto simp: munux_rs_vfs_open_def split: if_splits)
    next
      case 4
      then obtain q r fs where "fd_close q (files s) = (r, fs)" "regs' = regs\<lparr>reg_eax := word_of_int r\<rparr>" "s' = s\<lparr>files := fs\<rparr>"
        using assms by (auto simp: syscall_handler_def munux_rs_vfs_close_def split: if_splits prod.splits)
      then show ?thesis using 4 fd_close_root [of q "files s"] by auto
    qed (use assms in \<open>auto simp: syscall_handler_def\<close>)
  qed
qed

definition idle_frame :: registers_t where
  "idle_frame = \<lparr>reg_ds = 0x10, reg_edi = 0, reg_esi = 0, reg_ebp = 0, reg_esp = 0, reg_ebx = 0, reg_edx = 0, reg_ecx = 0,
     reg_eax = 0, int_no = 0x80, err_code = 0, reg_eip = 0, reg_cs = 8, reg_eflags = 0, reg_useresp = 0, reg_ss = 0x10\<rparr>"

text \<open>A system with the files of the start-up and the path of one of them at \<open>0x1000\<close>.\<close>

definition sample_sys :: sys where
  "sample_sys = \<lparr>vga = blank_terminal, ports = [], memory = store_bytes (\<lambda>_. 0) 0x1000 (bytes ''/etc/motd''),
     timer_ticks = 7, files = munux_rs_vfs_init \<lparr>ROOT = None, FDS = None\<rparr>\<rparr>"

theorem syscall_handler_frame_witness:
  "\<exists>regs' s'. syscall_handler ready_uart (idle_frame\<lparr>reg_eax := 9999\<rparr>, sample_sys) = Some (regs', s') \<and>
     reg_eax regs' = - 1 \<and> s' = sample_sys"
proof -
  have "\<exists>regs' s'. syscall_handler ready_uart (idle_frame\<lparr>reg_eax := 9999\<rparr>, sample_sys) = Some (regs', s')"
    by (simp add: syscall_handler_def)
  then obtain regs' s' where r: "syscall_handler ready_uart (idle_frame\<lparr>reg_eax := 9999\<rparr>, sample_sys) = Some (regs', s')"
    by blast
  from syscall_handler_frame [OF r] r show ?thesis by simp
qed

text \<open>a write call on the standard output with a buffer that is not null shows the bytes of the buffer on
  the screen and sends them to the serial port, all of them and in order, and returns their number.\<close>

theorem syscall_write_emits:
  assumes "uart_ready d" and "reg_eax regs = SYS_WRITE" and "reg_ebx regs = 1" and "reg_ecx regs \<noteq> 0"
  shows "\<exists>s'. syscall_handler d (regs, s) = Some (regs\<lparr>reg_eax := reg_edx regs\<rparr>, s') \<and>
    emitted (mem_bytes (memory s) (reg_ecx regs) (unat (reg_edx regs))) s s'"
  using sys_write_loop_emits [OF assms(1), of "unat (reg_edx regs)" "reg_ecx regs" s] assms(2-4)
  by (auto simp: syscall_handler_def sys_write_def)

lemma ready_uart_ready: "uart_ready ready_uart"
  by (simp add: becomes_ready_def ready_uart_def)

lemma sample_path: "mem_bytes (memory sample_sys) 0x1000 9 = bytes ''/etc/motd''"
proof -
  have l: "length (bytes ''/etc/motd'') = 9" by (simp add: bytes_def)
  have "unat (0x1000 :: u32) + length (bytes ''/etc/motd'') \<le> 2 ^ 32" unfolding l by simp
  from mem_bytes_store [OF this, of "\<lambda>_. 0"] show ?thesis unfolding l by (simp add: sample_sys_def)
qed

theorem syscall_write_emits_witness:
  "\<exists>s'. syscall_handler ready_uart (idle_frame\<lparr>reg_eax := 1, reg_ebx := 1, reg_ecx := 0x1000, reg_edx := 9\<rparr>, sample_sys) =
      Some (idle_frame\<lparr>reg_eax := 9, reg_ebx := 1, reg_ecx := 0x1000, reg_edx := 9\<rparr>, s') \<and>
    writes_to COM1 (ports s') = bytes ''/etc/motd''"
proof -
  let ?r = "idle_frame\<lparr>reg_eax := 1, reg_ebx := 1, reg_ecx := 0x1000, reg_edx := 9\<rparr>"
  have "mem_bytes (memory sample_sys) 0x1000 9 = bytes ''/etc/motd''" by (rule sample_path)
  moreover have "ports sample_sys = []" by (simp add: sample_sys_def)
  ultimately show ?thesis
    using syscall_write_emits [OF ready_uart_ready, of ?r sample_sys] by (auto simp: emitted_def)
qed

text \<open>opening an existing file by system call, reading once into a buffer and closing it: the read
  returns the number of bytes of the file that fit and leaves exactly those at the start of the buffer; closing returns 0,
  and the file system and the descriptor table are as before.\<close>

theorem syscall_file_session:
  assumes "ROOT (files s) = Some fs" and "FDS (files s) = Some t" and "length t < 2 ^ 31 - 3"
    and "slice_ok path plen" and "slice_ok buf blen"
    and "valid_utf8 (mem_bytes (memory s) path (unat plen))"
    and "fs_contents (mem_bytes (memory s) path (unat plen)) fs = Some c" and "length c < 2 ^ 31"
  shows "\<exists>fd s1 n s2 s3. do_syscall d frame SYS_OPEN path plen 0 s = Some (fd, s1) \<and> 3 \<le> sint fd \<and>
    do_syscall d frame SYS_READ fd buf blen s1 = Some (word_of_nat n, s2) \<and> n = min (length c) (unat blen) \<and>
    mem_bytes (memory s2) buf (unat blen) = take n c @ drop n (mem_bytes (memory s) buf (unat blen)) \<and>
    do_syscall d frame SYS_CLOSE fd 0 0 s2 = Some (0, s3) \<and> files s3 = files s"
  using do_syscall_session [OF assms, of d frame] by (metis (no_types, lifting) sys.select_convs(3) sys.surjective sys.update_convs(3))

theorem syscall_file_session_witness:
  "\<exists>fd s1 s2 s3. do_syscall ready_uart idle_frame SYS_OPEN 0x1000 9 0 sample_sys = Some (fd, s1) \<and> 3 \<le> sint fd \<and>
    do_syscall ready_uart idle_frame SYS_READ fd 0x2000 32 s1 = Some (11, s2) \<and>
    take 11 (mem_bytes (memory s2) 0x2000 32) = bytes ''Munux v0.4'' @ [10] \<and>
    do_syscall ready_uart idle_frame SYS_CLOSE fd 0 0 s2 = Some (0, s3) \<and> files s3 = files sample_sys"
proof -
  let ?c = "bytes ''Munux v0.4'' @ [10]"
  have "(case ROOT (files sample_sys) of Some fs \<Rightarrow> fs_contents (bytes ''/etc/motd'') fs | None \<Rightarrow> None) = Some ?c"
    unfolding sample_sys_def sys.simps by code_simp
  then obtain fs where fs: "ROOT (files sample_sys) = Some fs" "fs_contents (bytes ''/etc/motd'') fs = Some ?c"
    by (auto split: option.splits)
  have t: "FDS (files sample_sys) = Some []" unfolding sample_sys_def sys.simps by code_simp
  have u: "unat (9 :: u32) = 9" "unat (32 :: u32) = 32" by simp_all
  have v: "valid_utf8 (bytes ''/etc/motd'')" by code_simp
  have l: "length ?c = 11" by (simp add: bytes_def)
  have sl: "slice_ok 0x1000 9" "slice_ok 0x2000 32" by (simp_all add: slice_ok_def)
  from syscall_file_session [OF fs(1) t _ sl, of ?c ready_uart idle_frame] fs(2) v l
  obtain fd s1 n s2 s3 where "do_syscall ready_uart idle_frame SYS_OPEN 0x1000 9 0 sample_sys = Some (fd, s1)" "3 \<le> sint fd"
    "do_syscall ready_uart idle_frame SYS_READ fd 0x2000 32 s1 = Some (word_of_nat n, s2)" "n = min (length ?c) 32"
    "mem_bytes (memory s2) 0x2000 32 = take n ?c @ drop n (mem_bytes (memory sample_sys) 0x2000 32)"
    "do_syscall ready_uart idle_frame SYS_CLOSE fd 0 0 s2 = Some (0, s3)" "files s3 = files sample_sys"
    by (auto simp: sample_path u)
  moreover from this(4) l have "n = 11" by simp
  moreover have "take 11 (take 11 ?c @ drop 11 (mem_bytes (memory sample_sys) 0x2000 32)) = ?c" using l by simp
  ultimately show ?thesis by (metis of_nat_numeral)
qed

end
