(* ===== verification/Keyboard.thy ===== *)
theory Keyboard
  imports Interrupts "HOL-Library.Sublist"
begin

text \<open>
  The keyboard driver (\<^verbatim>\<open>drivers/keyboard.c\<close>): the decoder of scancodes with its modifier state and
  the ring buffer between the interrupt handler and the readers. The decoder and the buffer are
  executable; \<^verbatim>\<open>keyboard_getchar\<close>, which halts until an interrupt arrives, is given the scancodes of
  the interrupts still to come. The ring buffer is shown to refine a bounded first-in first-out queue,
  first for whole operations (the locale \<open>bounded_fifo\<close> and its interpretation \<open>kbd_fifo\<close>), then
  for every interleaving of the handler with the individual memory accesses of a reader.
\<close>

section \<open>State\<close>

definition KEYBOARD_BUFFER_SIZE :: u32 where [simp]: "KEYBOARD_BUFFER_SIZE = 256"

definition KEY_ESC :: u8 where [simp]: "KEY_ESC = 27"
definition KEY_BACKSPACE :: u8 where [simp]: "KEY_BACKSPACE = 8"
definition KEY_TAB :: u8 where [simp]: "KEY_TAB = 9"
definition KEY_ENTER :: u8 where [simp]: "KEY_ENTER = 10"
definition KEY_CTRL :: u8 where [simp]: "KEY_CTRL = 0x80"
definition KEY_SHIFT :: u8 where [simp]: "KEY_SHIFT = 0x81"
definition KEY_ALT :: u8 where [simp]: "KEY_ALT = 0x82"
definition KEY_CAPS_LOCK :: u8 where [simp]: "KEY_CAPS_LOCK = 0x83"

text \<open>\<^verbatim>\<open>KEY_F1\<close> to \<^verbatim>\<open>KEY_F12\<close> are consecutive codes.\<close>

definition KEY_F :: "nat \<Rightarrow> u8" where [simp]: "KEY_F n = 0x83 + word_of_nat n"

record keyboard_state_t =
  k_shift :: bool
  k_ctrl :: bool
  k_alt :: bool
  k_caps :: bool
  k_num :: bool
  k_scroll :: bool

record kbd =
  keyboard_buffer :: "u8 list"
  buffer_read_pos :: u32
  buffer_write_pos :: u32
  kbd_state :: keyboard_state_t
  kbd_extended :: bool

section \<open>Scancode tables\<close>

definition scancode_to_ascii :: "u8 list" where
  "scancode_to_ascii =
     [0, KEY_ESC] @ bytes ''1234567890-='' @ [KEY_BACKSPACE, KEY_TAB] @
     bytes ''qwertyuiop[]'' @ [KEY_ENTER, KEY_CTRL] @ bytes ''asdfghjkl;'' @
     [39, 96, KEY_SHIFT, 92] @ bytes ''zxcvbnm,./'' @ [KEY_SHIFT] @ bytes ''*'' @
     [KEY_ALT] @ bytes '' '' @ [KEY_CAPS_LOCK] @ map KEY_F [1, 2, 3, 4, 5, 6, 7, 8, 9, 10] @ [0, 0] @
     bytes ''789-456+1230.'' @ [0, 0, 0, KEY_F 11, KEY_F 12]"

definition scancode_to_ascii_shift :: "u8 list" where
  "scancode_to_ascii_shift =
     [0, KEY_ESC] @ bytes ''!@#$%^&*()_+'' @ [KEY_BACKSPACE, KEY_TAB] @
     bytes ''QWERTYUIOP{}'' @ [KEY_ENTER, KEY_CTRL] @ bytes ''ASDFGHJKL:'' @
     [34, 126, KEY_SHIFT, 124] @ bytes ''ZXCVBNM<>?'' @ [KEY_SHIFT] @ bytes ''*'' @
     [KEY_ALT] @ bytes '' '' @ [KEY_CAPS_LOCK] @ map KEY_F [1, 2, 3, 4, 5, 6, 7, 8, 9, 10] @ [0, 0] @
     bytes ''789-456+1230.'' @ [0, 0, 0, KEY_F 11, KEY_F 12]"

section \<open>Operations\<close>

definition keyboard_buffer_put :: "u8 \<Rightarrow> kbd \<Rightarrow> kbd option" where
  "keyboard_buffer_put c s =
     (let next_pos = (buffer_write_pos s + 1) mod KEYBOARD_BUFFER_SIZE
      in if next_pos \<noteq> buffer_read_pos s then do {
           b \<leftarrow> wr (keyboard_buffer s) (unat (buffer_write_pos s)) c;
           Some (s\<lparr>keyboard_buffer := b, buffer_write_pos := next_pos\<rparr>)
         } else Some s)"

text \<open>The character of a key press: the table of the shift state, then Caps Lock on letters.\<close>

definition key_ascii :: "keyboard_state_t \<Rightarrow> u8 \<Rightarrow> u8 option" where
  "key_ascii st scancode =
     do {
       ascii \<leftarrow> rd (if k_shift st then scancode_to_ascii_shift else scancode_to_ascii) (unat scancode);
       Some (if k_caps st \<and> ascii \<ge> 0x61 \<and> ascii \<le> 0x7A then ascii - 32
             else if k_caps st \<and> ascii \<ge> 0x41 \<and> ascii \<le> 0x5A \<and> k_shift st then ascii + 32
             else ascii)
     }"

text \<open>The body of \<^verbatim>\<open>keyboard_handler\<close> after it has read the scancode.\<close>

definition keyboard_scancode :: "u8 \<Rightarrow> kbd \<Rightarrow> kbd option" where
  "keyboard_scancode code s =
     (if code = 0xE0 then Some (s\<lparr>kbd_extended := True\<rparr>)
      else if kbd_extended s then Some (s\<lparr>kbd_extended := False\<rparr>)
      else
        let pressed = (code AND 0x80 = 0);
            scancode = code AND 0x7F;
            st = kbd_state s
        in if scancode = 0x2A \<or> scancode = 0x36 then Some (s\<lparr>kbd_state := st\<lparr>k_shift := pressed\<rparr>\<rparr>)
           else if scancode = 0x1D then Some (s\<lparr>kbd_state := st\<lparr>k_ctrl := pressed\<rparr>\<rparr>)
           else if scancode = 0x38 then Some (s\<lparr>kbd_state := st\<lparr>k_alt := pressed\<rparr>\<rparr>)
           else if scancode = 0x3A \<and> pressed then Some (s\<lparr>kbd_state := st\<lparr>k_caps := \<not> k_caps st\<rparr>\<rparr>)
           else if \<not> pressed then Some s
           else if unat scancode < length scancode_to_ascii then do {
             ascii \<leftarrow> key_ascii st scancode;
             if ascii \<noteq> 0 then keyboard_buffer_put ascii s else Some s
           }
           else Some s)"

definition keyboard_handler :: "device \<Rightarrow> kbd \<times> history \<Rightarrow> (kbd \<times> history) option" where
  "keyboard_handler d = (\<lambda>(s, h).
     let (scancode, h1) = inb d 0x60 h
     in map_option (\<lambda>s1. (s1, h1)) (keyboard_scancode scancode s))"

definition keyboard_flush :: "kbd \<Rightarrow> kbd" where
  "keyboard_flush s = s\<lparr>buffer_read_pos := 0, buffer_write_pos := 0\<rparr>"

definition keyboard_init :: "kbd \<times> handlers \<Rightarrow> kbd \<times> handlers" where
  "keyboard_init = (\<lambda>(s, t).
     (s\<lparr>buffer_read_pos := 0, buffer_write_pos := 0,
        kbd_state := \<lparr>k_shift = False, k_ctrl = False, k_alt = False, k_caps = False, k_num = False,
                      k_scroll = False\<rparr>\<rparr>,
      register_interrupt_handler 33 Keyboard_handler t))"

definition keyboard_available :: "kbd \<Rightarrow> bool" where
  "keyboard_available s \<longleftrightarrow> buffer_read_pos s \<noteq> buffer_write_pos s"

definition keyboard_get_state :: "kbd \<Rightarrow> keyboard_state_t" where
  "keyboard_get_state s = kbd_state s"

text \<open>The part of \<^verbatim>\<open>keyboard_getchar\<close> after the waiting loop.\<close>

definition keyboard_take :: "kbd \<Rightarrow> (u8 \<times> kbd) option" where
  "keyboard_take s =
     do { c \<leftarrow> rd (keyboard_buffer s) (unat (buffer_read_pos s));
          Some (c, s\<lparr>buffer_read_pos := (buffer_read_pos s + 1) mod KEYBOARD_BUFFER_SIZE\<rparr>) }"

text \<open>Each \<^verbatim>\<open>hlt\<close> of the waiting loop ends with the next keyboard interrupt; \<open>codes\<close> are the
  scancodes of the interrupts to come, and what is left of them is returned. With no interrupt left
  the call waits forever, which is the result \<^const>\<open>None\<close>.\<close>

fun keyboard_getchar :: "u8 list \<Rightarrow> kbd \<Rightarrow> (u8 \<times> u8 list \<times> kbd) option" where
  "keyboard_getchar [] s =
     (if keyboard_available s then map_option (\<lambda>(c, s1). (c, [], s1)) (keyboard_take s) else None)"
| "keyboard_getchar (code # codes) s =
     (if keyboard_available s then map_option (\<lambda>(c, s1). (c, code # codes, s1)) (keyboard_take s)
      else do { s1 \<leftarrow> keyboard_scancode code s; keyboard_getchar codes s1 })"

section \<open>The ring buffer as a queue\<close>

definition ring_wf :: "kbd \<Rightarrow> bool" where
  "ring_wf s \<longleftrightarrow> length (keyboard_buffer s) = 256 \<and> unat (buffer_read_pos s) < 256 \<and> unat (buffer_write_pos s) < 256"

definition ring_count :: "nat \<Rightarrow> nat \<Rightarrow> nat" where
  "ring_count r w = (w + 256 - r) mod 256"

text \<open>The characters waiting in the buffer, oldest first.\<close>

definition ring_contents :: "kbd \<Rightarrow> u8 list" where
  "ring_contents s =
     map (\<lambda>i. keyboard_buffer s ! ((unat (buffer_read_pos s) + i) mod 256))
       [0..<ring_count (unat (buffer_read_pos s)) (unat (buffer_write_pos s))]"

lemma unat_next_pos: "unat (p :: u32) < 256 \<Longrightarrow> unat ((p + 1) mod 256) = (unat p + 1) mod 256"
  by (simp add: unat_mod unat_add_small)

lemma ring_count_eq:
  assumes "r < 256" and "w < 256"
  shows "ring_count r w = (if r \<le> w then w - r else w + 256 - r)"
proof (cases "r \<le> w")
  case True
  then have "w + 256 - r = (w - r) + 256" by simp
  then show ?thesis unfolding ring_count_def using True assms by (metis mod_add_self2 mod_less less_imp_diff_less)
next
  case False
  with assms have "w + 256 - r < 256" by simp
  with False show ?thesis unfolding ring_count_def by simp
qed

lemma wrap_256: "a < 512 \<Longrightarrow> a mod 256 = (if a < 256 then a else a - 256)" for a :: nat
  by (simp add: mod_if)

lemma ring_count_facts:
  assumes "r < 256" and "w < 256"
  shows "ring_count r w < 256" and "ring_count r w = 0 \<longleftrightarrow> r = w"
    and "(w + 1) mod 256 = r \<longleftrightarrow> ring_count r w = 255"
    and "ring_count r w < 255 \<Longrightarrow> ring_count r ((w + 1) mod 256) = Suc (ring_count r w)"
    and "r \<noteq> w \<Longrightarrow> ring_count ((r + 1) mod 256) w = ring_count r w - 1"
    and "(r + ring_count r w) mod 256 = w" and "i < ring_count r w \<Longrightarrow> (r + i) mod 256 \<noteq> w"
proof -
  have nx: "(w + 1) mod 256 < 256" "(r + 1) mod 256 < 256" by simp_all
  have s: "(w + 1) mod 256 = (if w = 255 then 0 else w + 1)" "(r + 1) mod 256 = (if r = 255 then 0 else r + 1)"
    using assms by (auto simp: wrap_256)
  note e = ring_count_eq [OF assms] ring_count_eq [OF assms(1) nx(1)] ring_count_eq [OF nx(2) assms(2)]
  show "ring_count r w < 256" "ring_count r w = 0 \<longleftrightarrow> r = w" unfolding e using assms by auto
  show "(w + 1) mod 256 = r \<longleftrightarrow> ring_count r w = 255" unfolding e s using assms by auto
  show "ring_count r w < 255 \<Longrightarrow> ring_count r ((w + 1) mod 256) = Suc (ring_count r w)"
    unfolding e unfolding s using assms by (auto split: if_splits)
  show "r \<noteq> w \<Longrightarrow> ring_count ((r + 1) mod 256) w = ring_count r w - 1"
    unfolding e unfolding s using assms by (auto split: if_splits)
  show "(r + ring_count r w) mod 256 = w" unfolding e using assms by auto
  assume "i < ring_count r w"
  then show "(r + i) mod 256 \<noteq> w" unfolding e using assms by (auto simp: wrap_256 split: if_splits)
qed

lemma length_ring_contents: "length (ring_contents s) = ring_count (unat (buffer_read_pos s)) (unat (buffer_write_pos s))"
  by (simp add: ring_contents_def)

lemma ring_contents_less: "ring_wf s \<Longrightarrow> length (ring_contents s) < 256"
  by (simp add: length_ring_contents ring_wf_def ring_count_facts(1))

lemma available_iff: "ring_wf s \<Longrightarrow> keyboard_available s \<longleftrightarrow> ring_contents s \<noteq> []"
  using ring_count_facts(2) [of "unat (buffer_read_pos s)" "unat (buffer_write_pos s)"]
  by (auto simp: keyboard_available_def ring_wf_def ring_contents_def u32_eq_iff_unat)

lemma put_spec:
  assumes "ring_wf s"
  shows "\<exists>s'. keyboard_buffer_put c s = Some s' \<and> ring_wf s' \<and> kbd_state s' = kbd_state s \<and>
     kbd_extended s' = kbd_extended s \<and> buffer_read_pos s' = buffer_read_pos s \<and>
     ring_contents s' = (if length (ring_contents s) < 255 then ring_contents s @ [c] else ring_contents s)"
proof -
  let ?r = "unat (buffer_read_pos s)" and ?w = "unat (buffer_write_pos s)"
  from assms have wf: "length (keyboard_buffer s) = 256" "?r < 256" "?w < 256" by (simp_all add: ring_wf_def)
  note f = ring_count_facts [OF wf(2,3)]
  have nx: "unat ((buffer_write_pos s + 1) mod 256) = (?w + 1) mod 256" by (rule unat_next_pos [OF wf(3)])
  then have full: "(buffer_write_pos s + 1) mod 256 = buffer_read_pos s \<longleftrightarrow> ring_count ?r ?w = 255"
    using f(3) by (simp add: u32_eq_iff_unat)
  show ?thesis
  proof (cases "ring_count ?r ?w = 255")
    case True
    with full assms show ?thesis by (simp add: keyboard_buffer_put_def length_ring_contents)
  next
    case False
    with f(1) have lt: "ring_count ?r ?w < 255" by simp
    let ?s = "s\<lparr>keyboard_buffer := (keyboard_buffer s)[?w := c], buffer_write_pos := (buffer_write_pos s + 1) mod 256\<rparr>"
    have "ring_contents ?s = ring_contents s @ [c]"
      unfolding ring_contents_def using nx f(4) [OF lt] f(6) f(7) [symmetric] wf(1,3)
      by (simp del: upt.simps add: upt_Suc_append nth_list_update_neq)
    moreover have "ring_wf ?s" using wf nx by (simp add: ring_wf_def)
    ultimately show ?thesis
      using full False lt wf by (simp add: keyboard_buffer_put_def length_ring_contents)
  qed
qed

lemma take_spec:
  assumes "ring_wf s" and "ring_contents s = c # cs"
  shows "\<exists>s'. keyboard_take s = Some (c, s') \<and> ring_wf s' \<and> ring_contents s' = cs \<and> kbd_state s' = kbd_state s \<and>
     kbd_extended s' = kbd_extended s"
proof -
  let ?r = "unat (buffer_read_pos s)" and ?w = "unat (buffer_write_pos s)"
  from assms have wf: "length (keyboard_buffer s) = 256" "?r < 256" "?w < 256" by (simp_all add: ring_wf_def)
  note f = ring_count_facts [OF wf(2,3)]
  have nx: "unat ((buffer_read_pos s + 1) mod 256) = (?r + 1) mod 256" by (rule unat_next_pos [OF wf(2)])
  obtain n where n: "ring_count ?r ?w = Suc n" using assms(2) by (cases "ring_count ?r ?w") (auto simp: ring_contents_def)
  then have "?r \<noteq> ?w" using f(2) by auto
  from f(5) [OF this] n have n': "ring_count ((?r + 1) mod 256) ?w = n" by simp
  let ?s = "s\<lparr>buffer_read_pos := (buffer_read_pos s + 1) mod 256\<rparr>"
  have e: "ring_contents s = keyboard_buffer s ! ?r # ring_contents ?s"
    unfolding ring_contents_def using nx n n' wf(2)
    by (simp add: upt_conv_Cons map_Suc_upt [symmetric] mod_simps del: upt_Suc)
  have "ring_wf ?s" using wf nx by (simp add: ring_wf_def)
  then show ?thesis using e assms(2) wf by (simp add: keyboard_take_def)
qed

section \<open>A bounded first-in first-out queue\<close>

text \<open>What the driver expects of the buffer between its two sides: \<open>put\<close> appends unless the queue
  holds \<open>cap\<close> elements, \<open>get\<close> removes the oldest element when \<open>avail\<close> says there is one.\<close>

locale bounded_fifo =
  fixes put :: "'c \<Rightarrow> 's \<Rightarrow> 's option" and get :: "'s \<Rightarrow> ('c \<times> 's) option" and avail :: "'s \<Rightarrow> bool"
    and view :: "'s \<Rightarrow> 'c list" and inv :: "'s \<Rightarrow> bool" and cap :: nat
  assumes put_view: "inv s \<Longrightarrow> \<exists>s'. put c s = Some s' \<and> inv s' \<and>
      view s' = (if length (view s) < cap then view s @ [c] else view s)"
    and get_view: "inv s \<Longrightarrow> view s = c # cs \<Longrightarrow> \<exists>s'. get s = Some (c, s') \<and> inv s' \<and> view s' = cs"
    and avail_view: "inv s \<Longrightarrow> avail s \<longleftrightarrow> view s \<noteq> []"
begin

text \<open>A run of the queue: \<open>Some c\<close> puts \<open>c\<close>, \<open>None\<close> gets an element if there is one.\<close>

fun run :: "'c option list \<Rightarrow> 's \<Rightarrow> ('c list \<times> 's) option" where
  "run [] s = Some ([], s)"
| "run (Some c # ops) s = do { s1 \<leftarrow> put c s; run ops s1 }"
| "run (None # ops) s =
     (if avail s then do { (c, s1) \<leftarrow> get s; (cs, s2) \<leftarrow> run ops s1; Some (c # cs, s2) } else run ops s)"

fun spec_run :: "'c option list \<Rightarrow> 'c list \<Rightarrow> 'c list \<times> 'c list" where
  "spec_run [] q = ([], q)"
| "spec_run (Some c # ops) q = spec_run ops (if length q < cap then q @ [c] else q)"
| "spec_run (None # ops) [] = spec_run ops []"
| "spec_run (None # ops) (c # q) = (case spec_run ops q of (cs, q') \<Rightarrow> (c # cs, q'))"

lemma run_refines:
  "inv s \<Longrightarrow> \<exists>s'. run ops s = Some (fst (spec_run ops (view s)), s') \<and> inv s' \<and> view s' = snd (spec_run ops (view s))"
proof (induction ops arbitrary: s)
  case (Cons a ops)
  show ?case
  proof (cases a)
    case (Some c)
    obtain s1 where s1: "put c s = Some s1" "inv s1" "view s1 = (if length (view s) < cap then view s @ [c] else view s)"
      using put_view [OF Cons.prems, of c] by blast
    from Cons.IH [OF s1(2)] show ?thesis using Some s1(1) unfolding s1(3) by simp
  next
    case None
    show ?thesis
    proof (cases "view s")
      case Nil
      then show ?thesis using None Cons.IH [OF Cons.prems] avail_view [OF Cons.prems] by simp
    next
      case (Cons c q)
      obtain s1 where s1: "get s = Some (c, s1)" "inv s1" "view s1 = q" using get_view [OF Cons.prems Cons] by blast
      show ?thesis using None Cons Cons.IH [OF s1(2)] s1 avail_view [OF Cons.prems] by (auto split: prod.splits)
    qed
  qed
qed simp

text \<open>Nothing is reordered, duplicated or invented: what was read followed by what is left is the
  initial queue followed by a selection of what was put.\<close>

lemma spec_run_subseq:
  assumes "spec_run ops q = (out, q')"
  shows "\<exists>acc. out @ q' = q @ acc \<and> subseq acc (map the (filter (\<lambda>x. x \<noteq> None) ops))"
  using assms
proof (induction ops q arbitrary: out q' rule: spec_run.induct)
  case (2 c ops q)
  from "2.IH" [OF "2.prems" [unfolded spec_run.simps]] obtain acc where
    "out @ q' = (if length q < cap then q @ [c] else q) @ acc" "subseq acc (map the (filter (\<lambda>x. x \<noteq> None) ops))" by blast
  then show ?case by (cases "length q < cap") (auto intro: exI [of _ "c # acc"] exI [of _ acc])
next
  case (4 ops c q)
  then show ?case by (fastforce split: prod.splits)
qed auto

end

interpretation kbd_fifo: bounded_fifo keyboard_buffer_put keyboard_take keyboard_available ring_contents ring_wf 255
proof
  show "\<exists>s'. keyboard_buffer_put c s = Some s' \<and> ring_wf s' \<and>
      ring_contents s' = (if length (ring_contents s) < 255 then ring_contents s @ [c] else ring_contents s)"
    if "ring_wf s" for c s using put_spec [OF that] by blast
  show "\<exists>s'. keyboard_take s = Some (c, s') \<and> ring_wf s' \<and> ring_contents s' = cs"
    if "ring_wf s" "ring_contents s = c # cs" for c cs s using take_spec [OF that] by blast
qed (rule available_iff)

section \<open>The decoder\<close>

text \<open>What a scancode means: the character it types, if any, and the new modifier state and prefix
  flag.\<close>

definition decode :: "u8 \<Rightarrow> keyboard_state_t \<times> bool \<Rightarrow> u8 list \<times> keyboard_state_t \<times> bool" where
  "decode code = (\<lambda>(st, ext).
     (if code = 0xE0 then ([], st, True)
      else if ext then ([], st, False)
      else if code \<in> {0x2A, 0x36} then ([], st\<lparr>k_shift := True\<rparr>, False)
      else if code \<in> {0xAA, 0xB6} then ([], st\<lparr>k_shift := False\<rparr>, False)
      else if code \<in> {0x1D, 0x9D} then ([], st\<lparr>k_ctrl := (code = 0x1D)\<rparr>, False)
      else if code \<in> {0x38, 0xB8} then ([], st\<lparr>k_alt := (code = 0x38)\<rparr>, False)
      else if code = 0x3A then ([], st\<lparr>k_caps := \<not> k_caps st\<rparr>, False)
      else (case key_ascii st code of
              Some c \<Rightarrow> if code < 0x80 \<and> c \<noteq> 0 then [c] else [] | None \<Rightarrow> [], st, False)))"

lemma length_tables [simp]: "length scancode_to_ascii = 89" "length scancode_to_ascii_shift = 89"
  by (simp_all add: scancode_to_ascii_def scancode_to_ascii_shift_def bytes_def)

lemma key_ascii_total: "unat sc < 89 \<Longrightarrow> \<exists>c. key_ascii st sc = Some c"
  by (simp add: key_ascii_def)

lemma key_ascii_outside: "\<not> unat sc < 89 \<Longrightarrow> key_ascii st sc = None"
  by (simp add: key_ascii_def rd_def)

text \<open>The driver implements the decoder and queues what it types while there is room.\<close>

lemma scancode_spec:
  assumes "ring_wf s" and d: "decode code (kbd_state s, kbd_extended s) = (cs, st', ext')"
  shows "\<exists>s'. keyboard_scancode code s = Some s' \<and> ring_wf s' \<and> kbd_state s' = st' \<and> kbd_extended s' = ext' \<and>
     buffer_read_pos s' = buffer_read_pos s \<and>
     ring_contents s' = (if length (ring_contents s) < 255 then ring_contents s @ cs else ring_contents s)"
proof -
  have keep: "ring_wf (s\<lparr>kbd_state := x\<rparr>) = ring_wf s" "ring_contents (s\<lparr>kbd_state := x\<rparr>) = ring_contents s"
    "ring_wf (s\<lparr>kbd_extended := e\<rparr>) = ring_wf s" "ring_contents (s\<lparr>kbd_extended := e\<rparr>) = ring_contents s" for x e
    by (simp_all add: ring_wf_def ring_contents_def)
  show ?thesis
  proof (cases "code = 0xE0 \<or> kbd_extended s \<or> code \<in> {0x2A, 0x36, 0xAA, 0xB6, 0x1D, 0x9D, 0x38, 0xB8, 0x3A}")
    case True
    then show ?thesis
      using assms by (elim disjE insertE emptyE) (auto simp: keyboard_scancode_def decode_def keep)
  next
    case False
    then have ne: "code \<noteq> 0xE0" "\<not> kbd_extended s" "code \<notin> {0x2A, 0x36, 0xAA, 0xB6, 0x1D, 0x9D, 0x38, 0xB8, 0x3A}" by simp_all
    have cs: "cs = (case key_ascii (kbd_state s) code of Some c \<Rightarrow> if code < 0x80 \<and> c \<noteq> 0 then [c] else [] | None \<Rightarrow> [])"
      "st' = kbd_state s" "ext' = False" using d ne by (auto simp: decode_def)
    show ?thesis
    proof (cases "code < 0x80")
      case True
      then have b: "code AND 0x80 = 0" "code AND 0x7F = code" by (simp_all add: u8_high_bit u8_low_bits)
      have "keyboard_scancode code s = (case key_ascii (kbd_state s) code of None \<Rightarrow> Some s
          | Some c \<Rightarrow> if c \<noteq> 0 then keyboard_buffer_put c s else Some s)"
        using ne b key_ascii_total [of code "kbd_state s"] key_ascii_outside [of code "kbd_state s"]
        by (cases "unat code < 89") (auto simp: keyboard_scancode_def)
      then show ?thesis
        using put_spec [OF assms(1)] assms(1) True ne(2) unfolding cs by (auto split: option.splits)
    next
      case False
      then have b: "code AND 0x80 \<noteq> 0" "code AND 0x7F = code - 0x80" by (simp_all add: u8_high_bit u8_low_bits)
      have "keyboard_scancode code s = Some s"
        using ne b by (auto simp: keyboard_scancode_def diff_eq_eq)
      then show ?thesis using False assms(1) ne(2) unfolding cs by (simp split: option.splits)
    qed
  qed
qed

text \<open>The characters typed by a sequence of scancodes.\<close>

fun typed :: "u8 list \<Rightarrow> keyboard_state_t \<times> bool \<Rightarrow> u8 list" where
  "typed [] d = []"
| "typed (code # codes) d = (case decode code d of (cs, d') \<Rightarrow> cs @ typed codes d')"

lemma getchar_spec:
  assumes "ring_wf s"
  shows "case ring_contents s @ typed codes (kbd_state s, kbd_extended s) of
      [] \<Rightarrow> keyboard_getchar codes s = None
    | c # cs \<Rightarrow> (\<exists>rest s'. keyboard_getchar codes s = Some (c, rest, s') \<and> ring_wf s' \<and>
        cs = ring_contents s' @ typed rest (kbd_state s', kbd_extended s'))"
  using assms
proof (induction codes arbitrary: s)
  case Nil
  show ?case
  proof (cases "ring_contents s")
    case Nil
    then show ?thesis using available_iff [OF Nil.prems] by simp
  next
    case (Cons c cs)
    then show ?thesis using available_iff [OF Nil.prems] take_spec [OF Nil.prems Cons] by auto
  qed
next
  case (Cons code codes)
  show ?case
  proof (cases "ring_contents s")
    case Nil
    obtain cs st ext where d: "decode code (kbd_state s, kbd_extended s) = (cs, st, ext)" by (cases rule: prod_cases3)
    obtain s1 where s1: "keyboard_scancode code s = Some s1" "ring_wf s1" "kbd_state s1 = st" "kbd_extended s1 = ext"
      "ring_contents s1 = cs" using scancode_spec [OF Cons.prems d] Nil by auto
    have g: "keyboard_getchar (code # codes) s = keyboard_getchar codes s1"
      using Nil s1(1) available_iff [OF Cons.prems] by simp
    have "ring_contents s @ typed (code # codes) (kbd_state s, kbd_extended s) =
        ring_contents s1 @ typed codes (kbd_state s1, kbd_extended s1)" using Nil s1(3-5) d by simp
    then show ?thesis unfolding g using Cons.IH [OF s1(2)] by simp
  next
    case c: (Cons c cs)
    then show ?thesis using available_iff [OF Cons.prems] take_spec [OF Cons.prems c] by auto
  qed
qed

section \<open>The handler against a reader\<close>

text \<open>
  A reader inside \<^verbatim>\<open>keyboard_getchar\<close> can be interrupted between any two accesses to the shared
  variables: after the test of the loop, and between loading the character and advancing the read
  position. \<open>got\<close> records the characters returned so far; \<open>accepted\<close> those the handler queued.
\<close>

datatype reader = At_test | At_load | At_advance u8

record ksys =
  kb :: kbd
  at :: reader
  got_chars :: "u8 list"
  accepted :: "u8 list"

definition queued :: "kbd \<Rightarrow> u8 \<Rightarrow> u8 list" where
  "queued s code = (if length (ring_contents s) < 255 then fst (decode code (kbd_state s, kbd_extended s)) else [])"

inductive kstep :: "ksys \<Rightarrow> ksys \<Rightarrow> bool" where
  irq: "keyboard_scancode code (kb s) = Some k \<Longrightarrow>
     kstep s (s\<lparr>kb := k, accepted := accepted s @ queued (kb s) code\<rparr>)"
| test: "at s = At_test \<Longrightarrow> keyboard_available (kb s) \<Longrightarrow> kstep s (s\<lparr>at := At_load\<rparr>)"
| load: "at s = At_load \<Longrightarrow> rd (keyboard_buffer (kb s)) (unat (buffer_read_pos (kb s))) = Some c \<Longrightarrow>
     kstep s (s\<lparr>at := At_advance c\<rparr>)"
| advance: "at s = At_advance c \<Longrightarrow>
     kstep s (s\<lparr>kb := (kb s)\<lparr>buffer_read_pos := (buffer_read_pos (kb s) + 1) mod KEYBOARD_BUFFER_SIZE\<rparr>,
               at := At_test, got_chars := got_chars s @ [c]\<rparr>)"

inductive_cases kstepE: "kstep s s'"

definition kinv :: "ksys \<Rightarrow> bool" where
  "kinv s \<longleftrightarrow> ring_wf (kb s) \<and> got_chars s @ ring_contents (kb s) = accepted s \<and>
     (at s = At_load \<longrightarrow> ring_contents (kb s) \<noteq> []) \<and>
     (\<forall>c. at s = At_advance c \<longrightarrow> (\<exists>cs. ring_contents (kb s) = c # cs))"

lemma kstep_inv: "kstep s s' \<Longrightarrow> kinv s \<Longrightarrow> kinv s'"
proof (induction rule: kstep.induct)
  case (irq code s k)
  obtain cs st ext where d: "decode code (kbd_state (kb s), kbd_extended (kb s)) = (cs, st, ext)" by (cases rule: prod_cases3)
  from irq scancode_spec [OF _ d] show ?case by (auto simp: kinv_def queued_def d)
next
  case (test s)
  then show ?case by (simp add: kinv_def available_iff)
next
  case (load s c)
  from load(1,3) obtain c' cs where c: "ring_contents (kb s) = c' # cs" and wf: "ring_wf (kb s)"
    by (auto simp: kinv_def neq_Nil_conv)
  from take_spec [OF wf c] load(2) have "c' = c" by (auto simp: keyboard_take_def)
  with load c show ?case by (simp add: kinv_def)
next
  case (advance s c)
  then obtain cs where c: "ring_contents (kb s) = c # cs" and wf: "ring_wf (kb s)" by (auto simp: kinv_def)
  let ?k = "(kb s)\<lparr>buffer_read_pos := (buffer_read_pos (kb s) + 1) mod KEYBOARD_BUFFER_SIZE\<rparr>"
  obtain k where k: "keyboard_take (kb s) = Some (c, k)" "ring_wf k" "ring_contents k = cs"
    using take_spec [OF wf c] by blast
  from k(1) have "k = ?k" by (auto simp: keyboard_take_def bind_eq_Some_conv)
  with k(2,3) advance c show ?case by (simp add: kinv_def)
qed

definition kstart :: "ksys \<Rightarrow> bool" where
  "kstart s \<longleftrightarrow> ring_wf (kb s) \<and> ring_contents (kb s) = [] \<and> at s = At_test \<and> got_chars s = [] \<and> accepted s = []"

lemma ksteps_inv: "kstep\<^sup>*\<^sup>* s s' \<Longrightarrow> kstart s \<Longrightarrow> kinv s'"
proof (induction rule: rtranclp_induct)
  case base
  then show ?case by (simp add: kinv_def kstart_def)
qed (rule kstep_inv)

section \<open>Properties\<close>

definition kbd_reset :: kbd where
  "kbd_reset = \<lparr>keyboard_buffer = replicate 256 0, buffer_read_pos = 0, buffer_write_pos = 0,
     kbd_state = \<lparr>k_shift = False, k_ctrl = False, k_alt = False, k_caps = False, k_num = False, k_scroll = False\<rparr>,
     kbd_extended = False\<rparr>"

lemma kbd_reset_facts: "ring_wf kbd_reset" "ring_contents kbd_reset = []"
  by (simp_all add: ring_wf_def ring_contents_def ring_count_def kbd_reset_def)

text \<open>C14: the keyboard buffer is a first-in first-out queue of 255 characters under every interleaving
  of the interrupt handler with the single memory accesses of a reader. What the reader has returned,
  followed by what is waiting, is exactly what the handler queued, in order; the handler is never
  stuck and never writes outside the buffer.\<close>

theorem keyboard_interleaving_fifo:
  assumes "kstart s0" and "kstep\<^sup>*\<^sup>* s0 s"
  shows "got_chars s @ ring_contents (kb s) = accepted s \<and> length (ring_contents (kb s)) \<le> 255 \<and>
     (\<forall>code. \<exists>k. keyboard_scancode code (kb s) = Some k \<and> ring_contents k = ring_contents (kb s) @ queued (kb s) code)"
proof -
  from ksteps_inv [OF assms(2,1)] have inv: "kinv s" .
  then have wf: "ring_wf (kb s)" by (simp add: kinv_def)
  have "\<exists>k. keyboard_scancode code (kb s) = Some k \<and> ring_contents k = ring_contents (kb s) @ queued (kb s) code" for code
  proof -
    obtain cs st ext where d: "decode code (kbd_state (kb s), kbd_extended (kb s)) = (cs, st, ext)" by (cases rule: prod_cases3)
    from scancode_spec [OF wf d] show ?thesis by (auto simp: queued_def d)
  qed
  with inv ring_contents_less [OF wf] show ?thesis by (simp add: kinv_def)
qed

definition ksys_reset :: ksys where
  "ksys_reset = \<lparr>kb = kbd_reset, at = At_test, got_chars = [], accepted = []\<rparr>"

theorem keyboard_interleaving_fifo_witness:
  "\<exists>k. keyboard_scancode 0x1E kbd_reset = Some k \<and> ring_contents k = bytes ''a''"
proof -
  have s: "kstart ksys_reset" by (simp add: kstart_def ksys_reset_def kbd_reset_facts)
  have q: "queued kbd_reset 0x1E = bytes ''a''"
    unfolding queued_def kbd_reset_facts
    by (simp add: decode_def key_ascii_def scancode_to_ascii_def bytes_def kbd_reset_def rd_def)
  from keyboard_interleaving_fifo [OF s rtranclp.rtrancl_refl]
  have "\<forall>code. \<exists>k. keyboard_scancode code kbd_reset = Some k \<and> ring_contents k = queued kbd_reset code"
    by (simp add: ksys_reset_def kbd_reset_facts)
  then show ?thesis using q by (metis (no_types))
qed

text \<open>\<^verbatim>\<open>keyboard_getchar\<close> returns the oldest character waiting or, if none is, the first character
  that the coming scancodes type, and leaves the later ones to the next calls; it waits forever only
  when the coming scancodes type nothing. Prefixed scancodes, releases and modifiers type nothing.\<close>

theorem keyboard_getchar_oldest:
  assumes "ring_wf s"
  shows "case ring_contents s @ typed codes (kbd_state s, kbd_extended s) of
      [] \<Rightarrow> keyboard_getchar codes s = None
    | c # cs \<Rightarrow> (\<exists>rest s'. keyboard_getchar codes s = Some (c, rest, s') \<and> ring_wf s' \<and>
        cs = ring_contents s' @ typed rest (kbd_state s', kbd_extended s'))"
  by (rule getchar_spec [OF assms])

theorem keyboard_getchar_oldest_witness:
  "\<exists>rest s'. keyboard_getchar [0x2A, 0xE0, 0x48, 0x1E, 0x9E, 0xAA, 0x30] kbd_reset = Some (0x41, rest, s')"
proof -
  have "typed [0x2A, 0xE0, 0x48, 0x1E, 0x9E, 0xAA, 0x30] (kbd_state kbd_reset, kbd_extended kbd_reset) = [0x41, 0x62]"
    by (simp add: decode_def key_ascii_def scancode_to_ascii_def scancode_to_ascii_shift_def bytes_def kbd_reset_def rd_def)
  with keyboard_getchar_oldest [OF kbd_reset_facts(1), of "[0x2A, 0xE0, 0x48, 0x1E, 0x9E, 0xAA, 0x30]"]
  show ?thesis by (auto simp: kbd_reset_facts)
qed

text \<open>C32: a letter key types the capital letter exactly when one of Shift and Caps Lock is on.\<close>

definition letter_keys :: "(u8 \<times> char) list" where
  "letter_keys = zip [0x10, 0x11, 0x12, 0x13, 0x14, 0x15, 0x16, 0x17, 0x18, 0x19] ''qwertyuiop'' @
     zip [0x1E, 0x1F, 0x20, 0x21, 0x22, 0x23, 0x24, 0x25, 0x26] ''asdfghjkl'' @
     zip [0x2C, 0x2D, 0x2E, 0x2F, 0x30, 0x31, 0x32] ''zxcvbnm''"

theorem keyboard_letters:
  "list_all (\<lambda>(code, ch). decode code (st, False) =
     ([if k_shift st = k_caps st then of_char ch else of_char ch - 32], st, False)) letter_keys"
  by (cases "k_shift st"; cases "k_caps st")
    (simp_all add: letter_keys_def decode_def key_ascii_def scancode_to_ascii_def scancode_to_ascii_shift_def bytes_def rd_def)

end
