(* ===== verification/Shell.thy ===== *)
theory Shell
  imports Syscall Keyboard
begin

text \<open>
  The interactive shell of \<^verbatim>\<open>kernel.c\<close>: reading and editing a line from the keyboard, and the
  commands. The shell never returns, so \<open>shell_run\<close> takes the number of lines to execute. The
  scancodes of the keyboard interrupts to come are a parameter, as in the keyboard driver. The timer
  interrupts are not interleaved: \<^const>\<open>timer_ticks\<close> is what the counter shows when it is read. The theorems give the text
  of a whole session on the serial port as a function of the keys typed.
\<close>

section \<open>State and operations\<close>

record shell_sys = sys +
  keyboard :: kbd

text \<open>The dash in the text of \<^verbatim>\<open>about\<close> is stored in UTF-8.\<close>

definition about_text :: "u8 list" where
  "about_text = bytes ''Munux OS '' @ [0xE2, 0x80, 0x94] @ bytes '' flavor de proposito geral do ecossistema Munux.'' @ [10]"

definition shell_exec :: "device \<Rightarrow> u8 list \<Rightarrow> 'a sys_scheme \<Rightarrow> 'a sys_scheme option" where
  "shell_exec d line s =
     do {
       c \<leftarrow> rd line 0;
       if c = 0 then Some s
       else do {
         r \<leftarrow> strcmp line (cstr ''help'');
         if r = 0 then klog d (bytes ''Comandos: help, clear, about, ticks, echo <texto>'' @ [10, 0]) s
         else do {
           r \<leftarrow> strcmp line (cstr ''clear'');
           if r = 0 then Some (s\<lparr>vga := terminal_clear (vga s)\<rparr>)
           else do {
             r \<leftarrow> strcmp line (cstr ''about'');
             if r = 0 then do {
               s \<leftarrow> klog d (about_text @ [0]) s;
               klog d (bytes ''Kernel poliglota C + Assembly + Rust (no_std).'' @ [10, 0]) s
             }
             else do {
               r \<leftarrow> strcmp line (cstr ''ticks'');
               if r = 0 then kprintf d (bytes ''Ticks do timer desde o boot: %u'' @ [10, 0]) [VInt (timer_get_ticks (timer_ticks s))] s
               else do {
                 r \<leftarrow> strncmp line (cstr ''echo '') 5;
                 if r = 0 then do { s \<leftarrow> klog d (drop 5 line) s; klog d [10, 0] s }
                 else do {
                   s \<leftarrow> klog d (cstr ''comando nao encontrado: '') s;
                   s \<leftarrow> klog d line s;
                   klog d [10, 0] s
                 }
               }
             }
           }
         }
       }
     }"

text \<open>The branches of the reading loop for the characters that do not end the line.\<close>

definition shell_key ::
    "device \<Rightarrow> u8 \<Rightarrow> nat \<Rightarrow> u8 list \<Rightarrow> 'a shell_sys_scheme \<Rightarrow> (nat \<times> u8 list \<times> 'a shell_sys_scheme) option" where
  "shell_key d c len line s =
     (if c = 8 then
        if len > 0 then do {
          h \<leftarrow> serial_putchar d COM1 8 (ports s);
          Some (len - 1, line, s\<lparr>vga := terminal_backspace (vga s), ports := h\<rparr>)
        }
        else Some (len, line, s)
      else if c \<ge> 32 \<and> c < 127 then
        if len < 128 - 1 then do {
          line \<leftarrow> wr line len c;
          s \<leftarrow> con_putchar d c s;
          Some (len + 1, line, s)
        }
        else Some (len, line, s)
      else Some (len, line, s))"

partial_function (option) shell_read ::
    "device \<Rightarrow> u8 list \<Rightarrow> nat \<Rightarrow> u8 list \<Rightarrow> 'a shell_sys_scheme \<Rightarrow> (u8 list \<times> nat \<times> u8 list \<times> 'a shell_sys_scheme) option" where
  "shell_read d codes len line s =
     do {
       (c, codes1, k) \<leftarrow> keyboard_getchar codes (keyboard s);
       if c = 10 then do { s1 \<leftarrow> con_putchar d 10 (s\<lparr>keyboard := k\<rparr>); Some (codes1, len, line, s1) }
       else do {
         (len1, line1, s1) \<leftarrow> shell_key d c len line (s\<lparr>keyboard := k\<rparr>);
         shell_read d codes1 len1 line1 s1
       }
     }"

definition set_color :: "u8 \<Rightarrow> u8 \<Rightarrow> 'a console_scheme \<Rightarrow> 'a console_scheme" where
  "set_color fg bg s = s\<lparr>vga := terminal_setcolor (vga_entry_color fg bg) (vga s)\<rparr>"

text \<open>One turn of the outer loop. The prompt goes to the screen and to the serial port.\<close>

definition shell_turn ::
    "device \<Rightarrow> u8 list \<times> u8 list \<times> 'a shell_sys_scheme \<Rightarrow> (u8 list \<times> u8 list \<times> 'a shell_sys_scheme) option" where
  "shell_turn d = (\<lambda>(codes, line, s).
     do {
       s \<leftarrow> klog d (cstr ''munux> '') (set_color COLOR_LIGHT_CYAN COLOR_BLACK s);
       (codes, len, line, s) \<leftarrow> shell_read d codes 0 line (set_color COLOR_LIGHT_GREY COLOR_BLACK s);
       line \<leftarrow> wr line len 0;
       s \<leftarrow> shell_exec d line s;
       Some (codes, line, s)
     })"

fun shell_turns ::
    "nat \<Rightarrow> device \<Rightarrow> u8 list \<times> u8 list \<times> 'a shell_sys_scheme \<Rightarrow> (u8 list \<times> u8 list \<times> 'a shell_sys_scheme) option" where
  "shell_turns 0 d x = Some x"
| "shell_turns (Suc n) d x = do { x1 \<leftarrow> shell_turn d x; shell_turns n d x1 }"

text \<open>\<open>line\<close> is the uninitialised array of 128 bytes.\<close>

definition shell_run ::
    "nat \<Rightarrow> device \<Rightarrow> u8 list \<times> u8 list \<times> 'a shell_sys_scheme \<Rightarrow> (u8 list \<times> u8 list \<times> 'a shell_sys_scheme) option" where
  "shell_run n d = (\<lambda>(codes, line, s).
     do {
       s \<leftarrow> klog d ([10] @ bytes ''Munux shell interativo pronto. Digite '' @ [39] @ bytes ''help'' @ [39] @ bytes ''.'' @ [10, 0])
              (set_color COLOR_LIGHT_GREEN COLOR_BLACK s);
       shell_turns n d (codes, line, s)
     })"

section \<open>The commands\<close>

text \<open>The answer to a command line, and the lines that clear the screen instead.\<close>

definition response :: "u32 \<Rightarrow> u8 list \<Rightarrow> u8 list" where
  "response ticks l =
     (if l = [] \<or> l = bytes ''clear'' then []
      else if l = bytes ''help'' then bytes ''Comandos: help, clear, about, ticks, echo <texto>'' @ [10]
      else if l = bytes ''about'' then about_text @ bytes ''Kernel poliglota C + Assembly + Rust (no_std).'' @ [10]
      else if l = bytes ''ticks'' then bytes ''Ticks do timer desde o boot: '' @ numeral_string 10 (unat ticks) @ [10]
      else if take 5 l = bytes ''echo '' then drop 5 l @ [10]
      else bytes ''comando nao encontrado: '' @ l @ [10])"

lemma klog_line:
  assumes "uart_ready d" and "0 \<notin> set cs" and "length cs < 2 ^ 31"
  shows "\<exists>s'. klog d (cs @ [10, 0]) s = Some s' \<and> emitted (cs @ [10]) s s'"
  using klog_emits [OF assms(1), of "cs @ [10, 0]"] assms(2,3) by simp

lemma strcmp_cstr:
  assumes "terminated line" and "0 \<notin> set (bytes w)"
  shows "\<exists>r. strcmp line (cstr w) = Some r \<and> (r = 0 \<longleftrightarrow> contents line = bytes w)"
  using strcmp_zero [OF assms(1), of "cstr w"] cstr_facts [OF assms(2)] by auto

lemma ticks_text:
  "format_text (bytes ''Ticks do timer desde o boot: %u'' @ [10, 0]) [VInt v] =
     Some (bytes ''Ticks do timer desde o boot: '' @ numeral_string 10 (unat v) @ [10])"
  by (simp add: bytes_def parse_zero_def conversion_text_def padded_def isdigit_def)

lemma drop_contents:
  assumes "terminated s" and "n \<le> length (contents s)"
  shows "terminated (drop n s) \<and> contents (drop n s) = drop n (contents s)"
proof -
  obtain zs where s: "s = contents s @ 0 # zs" using terminated_split [OF assms(1)] by blast
  have "drop n s = drop n (contents s) @ 0 # zs" by (subst s) (use assms(2) in simp)
  moreover have "0 \<notin> set (drop n (contents s))" using contents_nonzero [of s] by (auto dest: in_set_dropD)
  ultimately show ?thesis by simp
qed

text \<open>The comparisons of \<^verbatim>\<open>shell_exec\<close> resolve to the content of the line.\<close>

lemma shell_exec_cases:
  assumes "terminated line"
  shows "shell_exec d line s =
     (if contents line = [] then Some s
      else if contents line = bytes ''help'' then klog d (bytes ''Comandos: help, clear, about, ticks, echo <texto>'' @ [10, 0]) s
      else if contents line = bytes ''clear'' then Some (s\<lparr>vga := terminal_clear (vga s)\<rparr>)
      else if contents line = bytes ''about'' then
        do { s \<leftarrow> klog d (about_text @ [0]) s; klog d (bytes ''Kernel poliglota C + Assembly + Rust (no_std).'' @ [10, 0]) s }
      else if contents line = bytes ''ticks'' then
        kprintf d (bytes ''Ticks do timer desde o boot: %u'' @ [10, 0]) [VInt (timer_ticks s)] s
      else if take 5 (contents line) = bytes ''echo '' then do { s \<leftarrow> klog d (drop 5 line) s; klog d [10, 0] s }
      else do { s \<leftarrow> klog d (cstr ''comando nao encontrado: '') s; s \<leftarrow> klog d line s; klog d [10, 0] s })"
proof -
  have w: "0 \<notin> set (bytes ''help'')" "0 \<notin> set (bytes ''clear'')" "0 \<notin> set (bytes ''about'')" "0 \<notin> set (bytes ''ticks'')"
    "0 \<notin> set (bytes ''echo '')" "length (bytes ''echo '') = 5" by (simp_all add: bytes_def)
  obtain c where c: "rd line 0 = Some c" "c = 0 \<longleftrightarrow> contents line = []" using assms by (cases line) auto
  obtain r1 r2 r3 r4 where "strcmp line (cstr ''help'') = Some r1" "r1 = 0 \<longleftrightarrow> contents line = bytes ''help''"
    "strcmp line (cstr ''clear'') = Some r2" "r2 = 0 \<longleftrightarrow> contents line = bytes ''clear''"
    "strcmp line (cstr ''about'') = Some r3" "r3 = 0 \<longleftrightarrow> contents line = bytes ''about''"
    "strcmp line (cstr ''ticks'') = Some r4" "r4 = 0 \<longleftrightarrow> contents line = bytes ''ticks''"
    using strcmp_cstr [OF assms w(1)] strcmp_cstr [OF assms w(2)] strcmp_cstr [OF assms w(3)] strcmp_cstr [OF assms w(4)] by metis
  moreover obtain r5 where "strncmp line (cstr ''echo '') 5 = Some r5" "r5 = 0 \<longleftrightarrow> take 5 (contents line) = bytes ''echo ''"
    using strncmp_prefix [OF w(5) assms, of "[0]"] unfolding w(6) by (auto simp: cstr_def)
  ultimately show ?thesis using c by (simp add: shell_exec_def timer_get_ticks_def)
qed

lemma klog_newline:
  assumes "uart_ready d"
  shows "\<exists>s'. klog d [10, 0] s = Some s' \<and> emitted [10] s s'"
  using klog_line [OF assms, of "[]" s] by simp

lemma shell_ticks_emits:
  assumes "uart_ready d" and "terminated line" and "length (contents line) < 2 ^ 31" and "contents line \<noteq> bytes ''clear''"
    and t: "contents line = bytes ''ticks''"
  shows "\<exists>s'. shell_exec d line s = Some s' \<and> emitted (response (timer_ticks s) (contents line)) s s'"
proof -
  let ?l = "contents line"
  let ?t = "bytes ''Ticks do timer desde o boot: '' @ numeral_string 10 (unat (timer_ticks s)) @ [10]"
  have n: "?l \<noteq> []" "?l \<noteq> bytes ''help''" "?l \<noteq> bytes ''about''" using t by (simp_all add: bytes_def)
  have "length (numeral_string 10 (unat (timer_ticks s))) \<le> 10"
    using decimal_length [of "unat (timer_ticks s)"] unat_u32_less [of "timer_ticks s"] by simp
  then have len: "length ?t \<le> 255" by (simp add: bytes_def)
  moreover have "0 \<notin> set ?t" using numeral_string_nonzero [of 10 "unat (timer_ticks s)"] by (simp add: bytes_def)
  ultimately show ?thesis
    using kprintf_emits [OF assms(1) ticks_text, of "timer_ticks s" s] n assms(4) t
    by (auto simp: shell_exec_cases [OF assms(2)] response_def)
qed

lemma shell_echo_emits:
  assumes "uart_ready d" and "terminated line" and "length (contents line) < 2 ^ 31" and "contents line \<noteq> bytes ''clear''"
    and echo: "take 5 (contents line) = bytes ''echo ''" "contents line \<notin> {[], bytes ''help'', bytes ''about'', bytes ''ticks''}"
  shows "\<exists>s'. shell_exec d line s = Some s' \<and> emitted (response (timer_ticks s) (contents line)) s s'"
proof -
  let ?l = "contents line"
  have d: "terminated (drop 5 line)" "contents (drop 5 line) = drop 5 ?l"
    using drop_contents [OF assms(2), of 5] arg_cong [OF echo(1), of length] by (simp_all add: bytes_def)
  have dl: "length (contents (drop 5 line)) < 2 ^ 32" unfolding d(2) using assms(3) by simp
  obtain s1 where s1: "klog d (drop 5 line) s = Some s1" "emitted (drop 5 ?l) s s1"
    using klog_emits [OF assms(1) d(1) dl, of s] unfolding d(2) by blast
  obtain s2 where "klog d [10, 0] s1 = Some s2" "emitted [10] s1 s2" using klog_newline [OF assms(1)] by blast
  with s1 echo assms(4) show ?thesis using emitted_append [OF s1(2)]
    by (auto simp: shell_exec_cases [OF assms(2)] response_def)
qed

lemma shell_unknown_emits:
  assumes "uart_ready d" and "terminated line" and "length (contents line) < 2 ^ 31" and "contents line \<noteq> bytes ''clear''"
    and other: "take 5 (contents line) \<noteq> bytes ''echo ''" "contents line \<notin> {[], bytes ''help'', bytes ''about'', bytes ''ticks''}"
  shows "\<exists>s'. shell_exec d line s = Some s' \<and> emitted (response (timer_ticks s) (contents line)) s s'"
proof -
  let ?l = "contents line"
  obtain s1 where s1: "klog d (cstr ''comando nao encontrado: '') s = Some s1" "emitted (bytes ''comando nao encontrado: '') s s1"
    using klog_text [OF assms(1), of "bytes ''comando nao encontrado: ''" "[]" s] by (auto simp: cstr_def bytes_def)
  obtain s2 where s2: "klog d line s1 = Some s2" "emitted ?l s1 s2"
    using klog_emits [OF assms(1,2), of s1] assms(3) by auto
  obtain s3 where s3: "klog d [10, 0] s2 = Some s3" "emitted [10] s2 s3" using klog_newline [OF assms(1)] by blast
  have "emitted (bytes ''comando nao encontrado: '' @ ?l @ [10]) s s3"
    using emitted_append [OF s1(2) emitted_append [OF s2(2) s3(2)]] .
  with s1(1) s2(1) s3(1) other assms(4) show ?thesis by (auto simp: shell_exec_cases [OF assms(2)] response_def)
qed

lemma shell_exec_emits:
  assumes "uart_ready d" and "terminated line" and "length (contents line) < 2 ^ 31" and "contents line \<noteq> bytes ''clear''"
  shows "\<exists>s'. shell_exec d line s = Some s' \<and> emitted (response (timer_ticks s) (contents line)) s s'"
proof -
  let ?l = "contents line"
  consider "?l = []" | "?l = bytes ''help''" | "?l = bytes ''about''" | "?l = bytes ''ticks''"
    | (echo) "take 5 ?l = bytes ''echo ''" "?l \<notin> {[], bytes ''help'', bytes ''about'', bytes ''ticks''}"
    | (other) "take 5 ?l \<noteq> bytes ''echo ''" "?l \<notin> {[], bytes ''help'', bytes ''about'', bytes ''ticks''}" by blast
  then show ?thesis
  proof cases
    case 1
    then show ?thesis by (simp add: shell_exec_cases [OF assms(2)] response_def)
  next
    case 2
    have "?l \<noteq> []" "?l \<noteq> bytes ''clear''" using 2 by (simp_all add: bytes_def)
    with 2 show ?thesis using klog_line [OF assms(1), of "bytes ''Comandos: help, clear, about, ticks, echo <texto>''" s]
      by (simp add: shell_exec_cases [OF assms(2)] response_def) (simp add: bytes_def)
  next
    case 3
    have n: "?l \<noteq> []" "?l \<noteq> bytes ''help''" using 3 by (simp_all add: bytes_def)
    obtain s1 where s1: "klog d (about_text @ [0]) s = Some s1" "emitted about_text s s1"
      using klog_text [OF assms(1), of about_text "[]" s] by (auto simp: about_text_def bytes_def)
    obtain s2 where "klog d (bytes ''Kernel poliglota C + Assembly + Rust (no_std).'' @ [10, 0]) s1 = Some s2"
      "emitted (bytes ''Kernel poliglota C + Assembly + Rust (no_std).'' @ [10]) s1 s2"
      using klog_line [OF assms(1), of "bytes ''Kernel poliglota C + Assembly + Rust (no_std).''" s1] by (auto simp: bytes_def)
    with s1 n assms(4) 3 show ?thesis using emitted_append [OF s1(2)]
      by (auto simp: shell_exec_cases [OF assms(2)] response_def)
  next
    case 4
    show ?thesis by (rule shell_ticks_emits [OF assms 4])
  next
    case echo
    show ?thesis by (rule shell_echo_emits [OF assms echo])
  next
    case other
    show ?thesis by (rule shell_unknown_emits [OF assms other])
  qed
qed

section \<open>Editing a line\<close>

text \<open>The line after a key: backspace takes the last character away, a printable character is added while
  there is room, and everything else is ignored. \<open>echo\<close> is what the keys of a line put on the serial
  port.\<close>

definition edit_key :: "u8 list \<Rightarrow> u8 \<Rightarrow> u8 list" where
  "edit_key l c = (if c = 8 then butlast l else if 32 \<le> c \<and> c < 127 \<and> length l < 127 then l @ [c] else l)"

fun echo :: "u8 list \<Rightarrow> u8 list \<Rightarrow> u8 list" where
  "echo l [] = []"
| "echo l (c # cs) =
     (if c = 8 then (if l = [] then [] else [8]) else if 32 \<le> c \<and> c < 127 \<and> length l < 127 then [c] else []) @
     echo (edit_key l c) cs"

definition line_of :: "u8 list \<Rightarrow> u8 list" where
  "line_of cs = foldl edit_key [] cs"

lemma line_of_length: "length (line_of cs) \<le> 127"
proof -
  have "length l \<le> 127 \<Longrightarrow> length (foldl edit_key l cs) \<le> 127" for l
    by (induction cs arbitrary: l) (simp_all add: edit_key_def)
  then show ?thesis by (simp add: line_of_def)
qed

text \<open>The line holds the characters typed so far.\<close>

definition holds :: "u8 list \<Rightarrow> nat \<Rightarrow> u8 list \<Rightarrow> bool" where
  "holds line len l \<longleftrightarrow> length line = 128 \<and> len = length l \<and> len \<le> 127 \<and> take len line = l \<and> 0 \<notin> set l"

text \<open>\<open>serial_text cs s s'\<close>: between the states \<open>cs\<close> went out on the serial port and nothing but the
  console and the keyboard changed.\<close>

definition serial_text :: "u8 list \<Rightarrow> 'a shell_sys_scheme \<Rightarrow> 'a shell_sys_scheme \<Rightarrow> bool" where
  "serial_text cs s s' \<longleftrightarrow>
     (\<exists>k t kd. s' = s\<lparr>vga := t, ports := ports s @ k, keyboard := kd\<rparr> \<and> writes_to COM1 k = cs)"

lemma serial_text_append:
  assumes "serial_text xs s s1" and "serial_text ys s1 s2"
  shows "serial_text (xs @ ys) s s2"
proof -
  obtain k1 t1 b1 k2 t2 b2 where "s1 = s\<lparr>vga := t1, ports := ports s @ k1, keyboard := b1\<rparr>" "writes_to COM1 k1 = xs"
    "s2 = s1\<lparr>vga := t2, ports := ports s1 @ k2, keyboard := b2\<rparr>" "writes_to COM1 k2 = ys"
    using assms unfolding serial_text_def by blast
  then show ?thesis unfolding serial_text_def by (intro exI [of _ "k1 @ k2"] exI [of _ t2] exI [of _ b2]) simp
qed

lemma serial_text_emitted: "emitted cs s s' \<Longrightarrow> serial_text cs s s' \<and> keyboard s' = keyboard s" for s :: "'a shell_sys_scheme"
proof -
  assume "emitted cs s s'"
  then obtain k where "s' = s\<lparr>vga := fold terminal_putchar cs (vga s), ports := ports s @ k\<rparr>" "writes_to COM1 k = cs"
    unfolding emitted_def by blast
  then show ?thesis unfolding serial_text_def
    by (intro conjI exI [of _ k] exI [of _ "fold terminal_putchar cs (vga s)"] exI [of _ "keyboard s"]) simp_all
qed

lemma serial_text_quiet: "serial_text [] s (s\<lparr>vga := t\<rparr>)" "serial_text [] s (s\<lparr>keyboard := kd\<rparr>)" "serial_text [] s s"
  unfolding serial_text_def
  by (intro exI [of _ "[]"] exI [of _ t] exI [of _ "keyboard s"], simp)
    (intro exI [of _ "[]"] exI [of _ "vga s"] exI [of _ kd], simp, intro exI [of _ "[]"] exI [of _ "vga s"] exI [of _ "keyboard s"], simp)

lemma serial_text_sys: "serial_text cs s s' \<Longrightarrow> timer_ticks s' = timer_ticks s"
  by (auto simp: serial_text_def)

lemma shell_key_spec:
  assumes "uart_ready d" and "holds line len l"
  shows "\<exists>line' s'. shell_key d c len line s = Some (length (edit_key l c), line', s') \<and> holds line' (length (edit_key l c)) (edit_key l c) \<and>
    serial_text (echo l [c]) s s' \<and> keyboard s' = keyboard s"
proof -
  note h = assms(2) [unfolded holds_def]
  consider (del) "c = 8" "l \<noteq> []" | (put) "c \<noteq> 8" "32 \<le> c" "c < 127" "length l < 127"
    | (skip) "c = 8 \<longrightarrow> l = []" "c \<noteq> 8 \<longrightarrow> \<not> (32 \<le> c \<and> c < 127 \<and> length l < 127)" by blast
  then show ?thesis
  proof cases
    case del
    obtain k where k: "serial_putchar d COM1 8 (ports s) = Some (ports s @ k)" "writes_to COM1 k = [8]"
      using serial_putchar_spec [OF assms(1)] by metis
    have "serial_text [8] s (s\<lparr>vga := terminal_backspace (vga s), ports := ports s @ k\<rparr>)"
      unfolding serial_text_def using k(2) by (intro exI [of _ k] exI [of _ "terminal_backspace (vga s)"] exI [of _ "keyboard s"]) simp
    moreover have "holds line (len - 1) (butlast l)"
      using h del butlast_take [of len line] by (auto simp: holds_def dest: in_set_butlastD)
    ultimately show ?thesis using del h k by (simp add: shell_key_def edit_key_def)
  next
    case put
    obtain s1 where s1: "con_putchar d c s = Some s1" "emitted [c] s s1" using con_putchar_emits [OF assms(1)] by metis
    have "c \<noteq> 0" using put(2) by auto
    then have "holds (line[len := c]) (len + 1) (l @ [c])"
      using h put by (auto simp: holds_def take_Suc_conv_app_nth)
    moreover have "\<not> c < 32" using put(2) by simp
    ultimately show ?thesis using put h s1 serial_text_emitted [OF s1(2)] by (simp add: shell_key_def edit_key_def wr_def)
  next
    case skip
    then have "edit_key l c = l" "echo l [c] = []" "shell_key d c len line s = Some (len, line, s)"
      using h by (auto simp: edit_key_def shell_key_def)
    then show ?thesis using assms(2) h serial_text_quiet(3) by auto
  qed
qed

text \<open>The characters that \<^verbatim>\<open>keyboard_getchar\<close> is still going to deliver.\<close>

definition waiting :: "u8 list \<Rightarrow> 'a shell_sys_scheme \<Rightarrow> u8 list" where
  "waiting codes s = ring_contents (keyboard s) @ typed codes (kbd_state (keyboard s), kbd_extended (keyboard s))"

lemma getchar_waiting:
  assumes "ring_wf (keyboard s)" and "waiting codes s = c # cs"
  obtains codes1 k where "keyboard_getchar codes (keyboard s) = Some (c, codes1, k)" and "ring_wf k"
    and "waiting codes1 (s\<lparr>keyboard := k\<rparr>) = cs"
  using getchar_spec [OF assms(1), of codes] assms(2) by (auto simp: waiting_def)

lemma waiting_cong: "keyboard s' = keyboard s \<Longrightarrow> waiting codes s' = waiting codes s"
  by (simp add: waiting_def)

lemma shell_read_spec:
  assumes "uart_ready d" and "ring_wf (keyboard s)" and "holds line len l" and "waiting codes s = cs @ 10 # rest" and "10 \<notin> set cs"
  shows "\<exists>codes' line' s'. shell_read d codes len line s = Some (codes', length (foldl edit_key l cs), line', s') \<and>
    holds line' (length (foldl edit_key l cs)) (foldl edit_key l cs) \<and> ring_wf (keyboard s') \<and> waiting codes' s' = rest \<and>
    serial_text (echo l cs @ [10]) s s'"
  using assms(2-5)
proof (induction cs arbitrary: codes len line l s)
  case Nil
  obtain codes1 k where g: "keyboard_getchar codes (keyboard s) = Some (10, codes1, k)" "ring_wf k"
    "waiting codes1 (s\<lparr>keyboard := k\<rparr>) = rest" using getchar_waiting Nil.prems(1,3) by (metis append_Nil)
  obtain s1 where s1: "con_putchar d 10 (s\<lparr>keyboard := k\<rparr>) = Some s1" "emitted [10] (s\<lparr>keyboard := k\<rparr>) s1"
    using con_putchar_emits [OF assms(1)] by metis
  note e = serial_text_emitted [OF s1(2)]
  have "serial_text [10] s s1" using serial_text_append [OF serial_text_quiet(2) conjunct1 [OF e]] by simp
  moreover have "len = length l" using Nil.prems(2) by (simp add: holds_def)
  ultimately show ?case using g s1(1) e Nil.prems(2)
    by (subst shell_read.simps) (simp add: waiting_def)
next
  case (Cons c cs)
  obtain codes1 k where g: "keyboard_getchar codes (keyboard s) = Some (c, codes1, k)" "ring_wf k"
    "waiting codes1 (s\<lparr>keyboard := k\<rparr>) = cs @ 10 # rest" using getchar_waiting Cons.prems(1,3) by (metis append_Cons)
  obtain line1 s1 where s1: "shell_key d c len line (s\<lparr>keyboard := k\<rparr>) = Some (length (edit_key l c), line1, s1)"
    "holds line1 (length (edit_key l c)) (edit_key l c)" "serial_text (echo l [c]) (s\<lparr>keyboard := k\<rparr>) s1" "keyboard s1 = k"
    using shell_key_spec [OF assms(1) Cons.prems(2), of c "s\<lparr>keyboard := k\<rparr>"] by auto
  have w: "waiting codes1 s1 = cs @ 10 # rest" using g(3) s1(4) by (simp add: waiting_def)
  have t: "serial_text (echo l [c]) s s1" using serial_text_append [OF serial_text_quiet(2) s1(3)] by simp
  have r: "shell_read d codes len line s = shell_read d codes1 (length (edit_key l c)) line1 s1"
    using Cons.prems(4) g(1) s1(1) by (subst shell_read.simps) simp
  have "10 \<notin> set cs" using Cons.prems(4) by simp
  from Cons.IH [OF _ s1(2) w this] g(2) s1(4)
  obtain codes' line' s' where f: "shell_read d codes1 (length (edit_key l c)) line1 s1 = Some (codes', length (foldl edit_key l (c # cs)), line', s')"
    "holds line' (length (foldl edit_key l (c # cs))) (foldl edit_key l (c # cs))" "ring_wf (keyboard s')" "waiting codes' s' = rest"
    "serial_text (echo (edit_key l c) cs @ [10]) s1 s'" by auto
  have "serial_text (echo l (c # cs) @ [10]) s s'" using serial_text_append [OF t f(5)] by simp
  with f r show ?case by metis
qed

section \<open>A session\<close>

lemma shell_exec_serial:
  fixes s :: "'a shell_sys_scheme"
  assumes "uart_ready d" and "terminated line" and "length (contents line) < 2 ^ 31"
  shows "\<exists>s'. shell_exec d line s = Some s' \<and> serial_text (response (timer_ticks s) (contents line)) s s' \<and> keyboard s' = keyboard s"
proof (cases "contents line = bytes ''clear''")
  case True
  then have "shell_exec d line s = Some (s\<lparr>vga := terminal_clear (vga s)\<rparr>)" by (simp add: shell_exec_cases [OF assms(2)]) (simp add: bytes_def)
  then show ?thesis using True serial_text_quiet(1) [of s] by (simp add: response_def)
next
  case False
  from shell_exec_emits [OF assms False, of s] serial_text_emitted show ?thesis by blast
qed

definition turn_text :: "u32 \<Rightarrow> u8 list \<Rightarrow> u8 list" where
  "turn_text ticks cs = bytes ''munux> '' @ echo [] cs @ [10] @ response ticks (line_of cs)"

lemma set_color_quiet: "serial_text [] s (set_color fg bg s)" "keyboard (set_color fg bg s) = keyboard s"
  for s :: "'a shell_sys_scheme"
  by (simp_all add: set_color_def serial_text_quiet)

lemma shell_turn_spec:
  assumes "uart_ready d" and "ring_wf (keyboard s)" and "length line = 128" and "waiting codes s = cs @ 10 # rest" and "10 \<notin> set cs"
  shows "\<exists>codes' line' s'. shell_turn d (codes, line, s) = Some (codes', line', s') \<and> length line' = 128 \<and>
    contents line' = line_of cs \<and> ring_wf (keyboard s') \<and> waiting codes' s' = rest \<and> serial_text (turn_text (timer_ticks s) cs) s s'"
proof -
  let ?s0 = "set_color COLOR_LIGHT_CYAN COLOR_BLACK s"
  obtain s1 where s1: "klog d (cstr ''munux> '') ?s0 = Some s1" "emitted (bytes ''munux> '') ?s0 s1"
    using klog_text [OF assms(1), of "bytes ''munux> ''" "[]" ?s0] by (auto simp: cstr_def bytes_def)
  let ?s2 = "set_color COLOR_LIGHT_GREY COLOR_BLACK s1"
  have k: "keyboard ?s2 = keyboard s" using serial_text_emitted [OF s1(2)] by (simp add: set_color_quiet)
  have t2: "serial_text (bytes ''munux> '') s ?s2"
    using serial_text_append [OF set_color_quiet(1) serial_text_append [OF conjunct1 [OF serial_text_emitted [OF s1(2)]] set_color_quiet(1)]] by simp
  have h0: "holds line 0 []" using assms(3) by (simp add: holds_def)
  have w: "ring_wf (keyboard ?s2)" "waiting codes ?s2 = cs @ 10 # rest"
    using assms(2,4) k by (simp_all only: waiting_def)
  from shell_read_spec [OF assms(1) w(1) h0 w(2) assms(5)]
  obtain codes' line1 s3 where r: "shell_read d codes 0 line ?s2 = Some (codes', length (line_of cs), line1, s3)"
    "holds line1 (length (line_of cs)) (line_of cs)" "ring_wf (keyboard s3)" "waiting codes' s3 = rest"
    "serial_text (echo [] cs @ [10]) ?s2 s3"
    unfolding line_of_def by blast
  let ?line = "line1[length (line_of cs) := 0]"
  note h = r(2) [unfolded holds_def]
  have l: "?line = line_of cs @ 0 # drop (length (line_of cs) + 1) line1"
    using h upd_conv_take_nth_drop [of "length (line_of cs)" line1 0] by simp
  have c: "terminated ?line" "contents ?line = line_of cs" unfolding l using h by simp_all
  have "length (contents ?line) < 2 ^ 31" using h c(2) by simp
  from shell_exec_serial [OF assms(1) c(1) this, of s3] obtain s4 where s4: "shell_exec d ?line s3 = Some s4"
    "serial_text (response (timer_ticks s3) (line_of cs)) s3 s4" "keyboard s4 = keyboard s3" unfolding c(2) by blast
  have ticks: "timer_ticks s3 = timer_ticks s" using serial_text_sys [OF t2] serial_text_sys [OF r(5)] by simp
  have "serial_text (turn_text (timer_ticks s) cs) s s4"
    using serial_text_append [OF t2 serial_text_append [OF r(5) s4(2)]] by (simp add: turn_text_def ticks)
  moreover have "shell_turn d (codes, line, s) = Some (codes', ?line, s4)"
    using s1(1) r(1) s4(1) h by (simp add: shell_turn_def)
  moreover have "length ?line = 128" using h by simp
  moreover have "ring_wf (keyboard s4)" "waiting codes' s4 = rest" using r(3,4) s4(3) by (simp_all add: waiting_def)
  ultimately show ?thesis using c(2) by blast
qed

lemma shell_turns_spec:
  assumes "uart_ready d" and "ring_wf (keyboard s)" and "length line = 128"
    and "waiting codes s = concat (map (\<lambda>cs. cs @ [10]) ls) @ rest" and "\<forall>cs \<in> set ls. 10 \<notin> set cs"
  shows "\<exists>codes' line' s'. shell_turns (length ls) d (codes, line, s) = Some (codes', line', s') \<and>
    waiting codes' s' = rest \<and> serial_text (concat (map (turn_text (timer_ticks s)) ls)) s s'"
  using assms(2-5)
proof (induction ls arbitrary: codes line s)
  case Nil
  then show ?case using serial_text_quiet(3) by auto
next
  case (Cons cs ls)
  obtain codes1 line1 s1 where f: "shell_turn d (codes, line, s) = Some (codes1, line1, s1)" "length line1 = 128" "ring_wf (keyboard s1)"
    "waiting codes1 s1 = concat (map (\<lambda>cs. cs @ [10]) ls) @ rest" "serial_text (turn_text (timer_ticks s) cs) s s1"
    using shell_turn_spec [OF assms(1) Cons.prems(1,2), of codes cs "concat (map (\<lambda>cs. cs @ [10]) ls) @ rest"] Cons.prems(3,4) by auto
  obtain codes' line' s' where "shell_turns (length ls) d (codes1, line1, s1) = Some (codes', line', s')" "waiting codes' s' = rest"
    "serial_text (concat (map (turn_text (timer_ticks s)) ls)) s1 s'"
    using Cons.IH [OF f(3,2,4)] Cons.prems(4) serial_text_sys [OF f(5)] by auto
  then show ?case using f(1) serial_text_append [OF f(5)] by fastforce
qed

definition greeting :: "u8 list" where
  "greeting = [10] @ bytes ''Munux shell interativo pronto. Digite '' @ [39] @ bytes ''help'' @ [39] @ bytes ''.'' @ [10]"

lemma shell_run_spec:
  assumes "uart_ready d" and "ring_wf (keyboard s)" and "length line = 128"
    and "waiting codes s = concat (map (\<lambda>cs. cs @ [10]) ls) @ rest" and "\<forall>cs \<in> set ls. 10 \<notin> set cs"
  shows "\<exists>codes' line' s'. shell_run (length ls) d (codes, line, s) = Some (codes', line', s') \<and> waiting codes' s' = rest \<and>
    serial_text (greeting @ concat (map (turn_text (timer_ticks s)) ls)) s s'"
proof -
  let ?s0 = "set_color COLOR_LIGHT_GREEN COLOR_BLACK s"
  obtain s1 where s1: "klog d (greeting @ [0]) ?s0 = Some s1" "emitted greeting ?s0 s1"
    using klog_text [OF assms(1), of greeting "[]" ?s0] by (auto simp: greeting_def bytes_def)
  have t1: "serial_text greeting s s1"
    using serial_text_append [OF set_color_quiet(1) conjunct1 [OF serial_text_emitted [OF s1(2)]]] by simp
  have k: "keyboard s1 = keyboard s" using serial_text_emitted [OF s1(2)] by (simp add: set_color_quiet)
  have w: "ring_wf (keyboard s1)" "waiting codes s1 = concat (map (\<lambda>cs. cs @ [10]) ls) @ rest"
    using assms(2,4) k by (simp_all only: waiting_def)
  from shell_turns_spec [OF assms(1) w(1) assms(3) w(2) assms(5)] obtain codes' line' s' where
    r: "shell_turns (length ls) d (codes, line, s1) = Some (codes', line', s')" "waiting codes' s' = rest"
    "serial_text (concat (map (turn_text (timer_ticks s)) ls)) s1 s'" unfolding serial_text_sys [OF t1] by blast
  have "shell_run (length ls) d (codes, line, s) = Some (codes', line', s')"
    using s1(1) r(1) by (simp add: shell_run_def greeting_def)
  then show ?thesis using r(2) serial_text_append [OF t1 r(3)] by blast
qed

section \<open>Properties\<close>


definition sample_shell :: shell_sys where
  "sample_shell = sys.extend sample_sys \<lparr>keyboard = kbd_reset\<rparr>"


end
