(* ===== verification/Pmm.thy ===== *)
theory Pmm
  imports Machine
begin

text \<open>
  The physical frame allocator of \<^verbatim>\<open>memory/pmm.c\<close>: a bitmap of one bit per 4 KiB frame, kept
  in physical memory at 1 MiB, with the counters \<^verbatim>\<open>total_frames\<close> and \<^verbatim>\<open>used_frames\<close>.
  The operations are translated over the shared physical memory \<open>ram\<close>; the lemmas abstract the
  bitmap to the set of frames in use and show first-fit allocation, the counter invariant and
  that only the bitmap's bytes are written. The locale \<open>frame_allocator\<close> is the contract the
  virtual memory manager and the heap rely on.
\<close>

section \<open>State and operations\<close>

definition PAGE_SIZE :: u32 where [simp]: "PAGE_SIZE = 4096"
definition BITMAP_BASE_ADDR :: u32 where [simp]: "BITMAP_BASE_ADDR = 0x100000"
definition BITS_PER_WORD :: u32 where [simp]: "BITS_PER_WORD = 32"
definition KERNEL_RESERVED :: u32 where [simp]: "KERNEL_RESERVED = 0x200000"
definition FRAMES_NOT_FOUND :: u32 where [simp]: "FRAMES_NOT_FOUND = 0xFFFFFFFF"

record pmm =
  ram :: phys_mem
  total_frames :: u32
  used_frames :: u32

definition frame_bitmap :: "'a pmm_scheme \<Rightarrow> u32 \<Rightarrow> u32" where
  "frame_bitmap s w = load32 (ram s) (BITMAP_BASE_ADDR + 4 * w)"

definition set_frame_bitmap :: "u32 \<Rightarrow> u32 \<Rightarrow> 'a pmm_scheme \<Rightarrow> 'a pmm_scheme" where
  "set_frame_bitmap w v s = s\<lparr>ram := store32 (ram s) (BITMAP_BASE_ADDR + 4 * w) v\<rparr>"

definition addr_to_frame :: "u32 \<Rightarrow> u32" where
  "addr_to_frame addr = addr div PAGE_SIZE"

definition bitmap_words :: "'a pmm_scheme \<Rightarrow> u32" where
  "bitmap_words s = (total_frames s + BITS_PER_WORD - 1) div BITS_PER_WORD"

definition mark_frame_used :: "u32 \<Rightarrow> 'a pmm_scheme \<Rightarrow> 'a pmm_scheme" where
  "mark_frame_used frame s =
     set_frame_bitmap (frame div BITS_PER_WORD)
       (frame_bitmap s (frame div BITS_PER_WORD) OR push_bit (unat (frame mod BITS_PER_WORD)) 1) s"

definition mark_frame_free :: "u32 \<Rightarrow> 'a pmm_scheme \<Rightarrow> 'a pmm_scheme" where
  "mark_frame_free frame s =
     set_frame_bitmap (frame div BITS_PER_WORD)
       (frame_bitmap s (frame div BITS_PER_WORD)
          AND NOT (push_bit (unat (frame mod BITS_PER_WORD)) 1)) s"

text \<open>The two nested loops of \<^verbatim>\<open>find_free_frame\<close>, with their early returns.\<close>

function find_free_bit :: "u32 \<Rightarrow> nat \<Rightarrow> nat option" where
  "find_free_bit word b =
     (if b < 32 then
        if word AND push_bit b 1 = 0 then Some b else find_free_bit word (Suc b)
      else None)"
  by pat_completeness auto
termination
  by (relation "measure (\<lambda>(word, b). 32 - b)") auto

function find_free_word :: "'a pmm_scheme \<Rightarrow> nat \<Rightarrow> nat \<Rightarrow> u32" where
  "find_free_word s words w =
     (if w < words then
        (let word = frame_bitmap s (word_of_nat w) in
         if word = 0xFFFFFFFF then find_free_word s words (Suc w)
         else case find_free_bit word 0 of
             Some b \<Rightarrow> word_of_nat w * BITS_PER_WORD + word_of_nat b
           | None \<Rightarrow> find_free_word s words (Suc w))
      else FRAMES_NOT_FOUND)"
  by pat_completeness auto
termination
  by (relation "measure (\<lambda>(s, words, w). words - w)") auto

definition find_free_frame :: "'a pmm_scheme \<Rightarrow> u32" where
  "find_free_frame s = find_free_word s (unat (bitmap_words s)) 0"

definition pmm_init :: "u32 \<Rightarrow> 'a pmm_scheme \<Rightarrow> 'a pmm_scheme" where
  "pmm_init mem_size s0 =
     (let s1 = s0\<lparr>total_frames := mem_size div PAGE_SIZE\<rparr>;
          words = bitmap_words s1;
          s2 = fold (\<lambda>w. set_frame_bitmap (word_of_nat w) 0) [0..<unat words] s1;
          reserved_frames = KERNEL_RESERVED div PAGE_SIZE;
          full_words = reserved_frames div BITS_PER_WORD;
          tail_bits = reserved_frames mod BITS_PER_WORD;
          s3 = fold (\<lambda>w. set_frame_bitmap (word_of_nat w) 0xFFFFFFFF) [0..<unat full_words] s2;
          s4 = (if tail_bits \<noteq> 0
                then set_frame_bitmap full_words (push_bit (unat tail_bits) 1 - 1) s3 else s3)
      in s4\<lparr>used_frames := reserved_frames\<rparr>)"

definition pmm_alloc_frame :: "'a pmm_scheme \<Rightarrow> u32 \<times> 'a pmm_scheme" where
  "pmm_alloc_frame s =
     (let frame = find_free_frame s in
      if frame = FRAMES_NOT_FOUND then (0, s)
      else let s1 = mark_frame_used frame s
           in (frame * PAGE_SIZE, s1\<lparr>used_frames := used_frames s1 + 1\<rparr>))"

definition pmm_free_frame :: "u32 \<Rightarrow> 'a pmm_scheme \<Rightarrow> 'a pmm_scheme" where
  "pmm_free_frame frame_addr s =
     (let s1 = mark_frame_free (addr_to_frame frame_addr) s in
      if used_frames s1 > 0 then s1\<lparr>used_frames := used_frames s1 - 1\<rparr> else s1)"

definition pmm_get_total_memory :: "'a pmm_scheme \<Rightarrow> u32" where
  "pmm_get_total_memory s = total_frames s * PAGE_SIZE"

definition pmm_get_free_memory :: "'a pmm_scheme \<Rightarrow> u32" where
  "pmm_get_free_memory s = (total_frames s - used_frames s) * PAGE_SIZE"

declare find_free_bit.simps [simp del] find_free_word.simps [simp del]

section \<open>The bitmap as a set of frames\<close>

text \<open>A frame number below \<open>2 ^ 20\<close> (4 GiB of 4 KiB frames) addresses a bit of the bitmap.\<close>

definition frame_used :: "'a pmm_scheme \<Rightarrow> u32 \<Rightarrow> bool" where
  "frame_used s f \<longleftrightarrow> bit (frame_bitmap s (f div 32)) (unat (f mod 32))"

lemma bm_addr_unat: "unat w < 262144 \<Longrightarrow> unat (BITMAP_BASE_ADDR + 4 * w) = 0x100000 + 4 * unat w"
  by (simp add: unat_word_ariths)

lemma bm_addr_aligned: "aligned4 (BITMAP_BASE_ADDR + 4 * w)"
  unfolding aligned4_def by (rule dvd_unat_add) (auto intro: dvd_unat_mult)

lemma bm_addr_inj:
  "unat w < 262144 \<Longrightarrow> unat w' < 262144 \<Longrightarrow>
     BITMAP_BASE_ADDR + 4 * w = BITMAP_BASE_ADDR + 4 * w' \<longleftrightarrow> w = w'"
  by (auto simp del: BITMAP_BASE_ADDR_def simp add: u32_eq_iff_unat bm_addr_unat)

lemma frame_bitmap_set [simp]:
  assumes "unat w < 262144" and "unat w' < 262144"
  shows "frame_bitmap (set_frame_bitmap w v s) w' = (if w = w' then v else frame_bitmap s w')"
proof (cases "w = w'")
  case True
  then show ?thesis by (simp add: frame_bitmap_def set_frame_bitmap_def mem_simps)
next
  case False
  with assms have "BITMAP_BASE_ADDR + 4 * w \<noteq> BITMAP_BASE_ADDR + 4 * w'"
    by (subst bm_addr_inj)
  then have "load32 (store32 (ram s) (BITMAP_BASE_ADDR + 4 * w) v) (BITMAP_BASE_ADDR + 4 * w') =
      load32 (ram s) (BITMAP_BASE_ADDR + 4 * w')"
    by (intro load32_store32_other bm_addr_aligned)
  with False show ?thesis by (simp add: frame_bitmap_def set_frame_bitmap_def)
qed

lemma set_frame_bitmap_fields [simp]:
  "total_frames (set_frame_bitmap w v s) = total_frames s"
  "used_frames (set_frame_bitmap w v s) = used_frames s"
  "bitmap_words (set_frame_bitmap w v s) = bitmap_words s"
  by (simp_all add: set_frame_bitmap_def bitmap_words_def)

lemma frame_bitmap_used_frames_update [simp]:
  "frame_bitmap (s\<lparr>used_frames := x\<rparr>) w = frame_bitmap s w"
  "frame_bitmap (s\<lparr>total_frames := y\<rparr>) w = frame_bitmap s w"
  "bitmap_words (s\<lparr>used_frames := x\<rparr>) = bitmap_words s"
  "frame_used (s\<lparr>used_frames := x\<rparr>) f = frame_used s f"
  by (simp_all add: frame_bitmap_def bitmap_words_def frame_used_def)

lemma frame_word_index: "unat (f :: u32) < 1048576 \<Longrightarrow> unat (f div 32) < 262144"
  by (simp add: unat_div)

lemma frame_div_mod_eq_iff: "(f :: u32) div 32 = g div 32 \<and> unat (f mod 32) = unat (g mod 32) \<longleftrightarrow> f = g"
proof
  assume "f div 32 = g div 32 \<and> unat (f mod 32) = unat (g mod 32)"
  then have "unat f div 32 = unat g div 32" and "unat f mod 32 = unat g mod 32"
    by (auto simp: u32_eq_iff_unat unat_div unat_mod)
  then have "unat f = unat g" by (metis div_mod_decomp)
  then show "f = g" by (simp add: u32_eq_iff_unat)
qed auto

lemma unat_mod_32_less [simp]: "unat (f mod 32 :: u32) < 32"
  by (simp add: unat_mod)

lemma mark_frame_used_iff [simp]:
  assumes "unat f < 1048576" and "unat g < 1048576"
  shows "frame_used (mark_frame_used g s) f \<longleftrightarrow> f = g \<or> frame_used s f"
  using assms frame_div_mod_eq_iff [of f g]
  by (auto simp: frame_used_def mark_frame_used_def frame_word_index bit_simps)

lemma mark_frame_free_iff [simp]:
  assumes "unat f < 1048576" and "unat g < 1048576"
  shows "frame_used (mark_frame_free g s) f \<longleftrightarrow> f \<noteq> g \<and> frame_used s f"
  using assms frame_div_mod_eq_iff [of f g]
  by (auto simp: frame_used_def mark_frame_free_def frame_word_index bit_simps)

lemma mark_frame_fields [simp]:
  "total_frames (mark_frame_used g s) = total_frames s"
  "used_frames (mark_frame_used g s) = used_frames s"
  "bitmap_words (mark_frame_used g s) = bitmap_words s"
  "total_frames (mark_frame_free g s) = total_frames s"
  "used_frames (mark_frame_free g s) = used_frames s"
  "bitmap_words (mark_frame_free g s) = bitmap_words s"
  by (simp_all add: mark_frame_used_def mark_frame_free_def)

section \<open>The search is first-fit\<close>

text \<open>Frame numbers as natural numbers, the range the bitmap covers and the frames in use.\<close>

definition frame_limit :: "'a pmm_scheme \<Rightarrow> nat" where
  "frame_limit s = 32 * unat (bitmap_words s)"

abbreviation used_at :: "'a pmm_scheme \<Rightarrow> nat \<Rightarrow> bool" where
  "used_at s f \<equiv> frame_used s (word_of_nat f)"

definition used_set :: "'a pmm_scheme \<Rightarrow> nat set" where
  "used_set s = {f. f < frame_limit s \<and> used_at s f}"

lemma used_at_block:
  assumes "w < 262144" and "b < 32"
  shows "used_at s (32 * w + b) \<longleftrightarrow> bit (frame_bitmap s (word_of_nat w)) b"
proof -
  have u: "unat (word_of_nat (32 * w + b) :: u32) = 32 * w + b"
    using assms by (intro unat_of_nat_small) simp
  have "word_of_nat (32 * w + b) div 32 = (word_of_nat w :: u32)"
    unfolding u32_eq_iff_unat unat_div u using assms by (simp add: unat_of_nat_small)
  moreover have "unat (word_of_nat (32 * w + b) mod 32 :: u32) = b"
    unfolding unat_mod u using assms by simp
  ultimately show ?thesis by (simp add: frame_used_def)
qed

lemma and_push_bit_zero_iff: "b < 32 \<Longrightarrow> (x :: u32) AND push_bit b 1 = 0 \<longleftrightarrow> \<not> bit x b"
  by (simp add: and_exp_eq_0_iff_not_bit)

lemma find_free_bit_spec:
  "case find_free_bit x b of
     Some k \<Rightarrow> b \<le> k \<and> k < 32 \<and> \<not> bit x k \<and> (\<forall>j. b \<le> j \<and> j < k \<longrightarrow> bit x j)
   | None \<Rightarrow> \<forall>j. b \<le> j \<and> j < 32 \<longrightarrow> bit x j"
proof (induction x b rule: find_free_bit.induct)
  case (1 x b)
  consider "32 \<le> b" | "b < 32" "\<not> bit x b" | "b < 32" "bit x b" by linarith
  then show ?case
  proof cases
    case 1
    then show ?thesis by (subst find_free_bit.simps) auto
  next
    case 2
    then have "find_free_bit x b = Some b"
      by (subst find_free_bit.simps) (simp add: and_push_bit_zero_iff del: push_bit_of_1)
    with 2 show ?thesis by auto
  next
    case 3
    with 1 have IH: "case find_free_bit x (Suc b) of
        Some k \<Rightarrow> Suc b \<le> k \<and> k < 32 \<and> \<not> bit x k \<and> (\<forall>j. Suc b \<le> j \<and> j < k \<longrightarrow> bit x j)
      | None \<Rightarrow> \<forall>j. Suc b \<le> j \<and> j < 32 \<longrightarrow> bit x j"
      by (simp add: and_push_bit_zero_iff del: push_bit_of_1)
    from 3 have "find_free_bit x b = find_free_bit x (Suc b)"
      by (subst find_free_bit.simps) (simp add: and_push_bit_zero_iff del: push_bit_of_1)
    with IH 3 show ?thesis
      by (auto split: option.splits) (metis le_SucE Suc_leI le_eq_less_or_eq)+
  qed
qed

lemma all_ones_bit: "x = (0xFFFFFFFF :: u32) \<Longrightarrow> b < 32 \<Longrightarrow> bit x b"
proof -
  have "(0xFFFFFFFF :: u32) = mask 32" by (simp add: mask_numeral)
  then show "x = 0xFFFFFFFF \<Longrightarrow> b < 32 \<Longrightarrow> bit x b" by (simp only: bit_mask_iff) simp
qed

text \<open>The result of the search: the least free frame at or after word \<open>w\<close>.\<close>

definition first_free :: "'a pmm_scheme \<Rightarrow> nat \<Rightarrow> nat \<Rightarrow> nat \<Rightarrow> bool" where
  "first_free s lo hi f \<longleftrightarrow>
     lo \<le> f \<and> f < hi \<and> \<not> used_at s f \<and> (\<forall>g. lo \<le> g \<and> g < f \<longrightarrow> used_at s g)"

lemma used_block_extend:
  assumes "\<forall>b < 32. used_at s (32 * w + b)" and "32 * w \<le> g" and "g < 32 * Suc w"
  shows "used_at s g"
proof -
  have "g - 32 * w < 32" and "32 * w + (g - 32 * w) = g" using assms(2,3) by simp_all
  with assms(1) show ?thesis by metis
qed

lemma first_free_weaken:
  assumes "first_free s (32 * Suc w) hi f" and "\<forall>b < 32. used_at s (32 * w + b)"
  shows "first_free s (32 * w) hi f"
  unfolding first_free_def
proof (intro conjI allI impI)
  show "32 * w \<le> f" "f < hi" "\<not> used_at s f" using assms(1) by (auto simp: first_free_def)
  fix g assume g: "32 * w \<le> g \<and> g < f"
  show "used_at s g"
  proof (cases "32 * Suc w \<le> g")
    case True
    with g assms(1) show ?thesis by (simp add: first_free_def)
  next
    case False
    with g assms(2) show ?thesis by (intro used_block_extend) auto
  qed
qed

lemma find_free_word_next:
  assumes "w < words" and "find_free_bit (frame_bitmap s (word_of_nat w)) 0 = None"
  shows "find_free_word s words w = find_free_word s words (Suc w)"
  using assms by (subst find_free_word.simps) (simp add: Let_def)

lemma find_free_word_hit:
  assumes "w < words" and "find_free_bit (frame_bitmap s (word_of_nat w)) 0 = Some b"
  shows "find_free_word s words w = word_of_nat (32 * w + b)"
proof -
  have "b < 32" and "\<not> bit (frame_bitmap s (word_of_nat w)) b"
    using find_free_bit_spec [of 0 "frame_bitmap s (word_of_nat w)"] assms(2) by simp_all
  then have "frame_bitmap s (word_of_nat w) \<noteq> 0xFFFFFFFF" using all_ones_bit by blast
  with assms show ?thesis by (subst find_free_word.simps) (simp add: Let_def)
qed

lemma find_free_word_spec:
  assumes "words \<le> 32768"
  shows "(\<exists>f. first_free s (32 * w) (32 * words) f \<and> find_free_word s words w = word_of_nat f) \<or>
     (\<forall>g. 32 * w \<le> g \<and> g < 32 * words \<longrightarrow> used_at s g) \<and>
       find_free_word s words w = FRAMES_NOT_FOUND"
    (is "?P w")
proof (induction "words - w" arbitrary: w)
  case 0
  then have "find_free_word s words w = FRAMES_NOT_FOUND" by (subst find_free_word.simps) simp
  with 0 show ?case by auto
next
  case (Suc n)
  then have w: "w < words" by simp
  let ?x = "frame_bitmap s (word_of_nat w)"
  have blk: "used_at s (32 * w + b) \<longleftrightarrow> bit ?x b" if "b < 32" for b
    using that w assms by (intro used_at_block) simp_all
  show ?case
  proof (cases "find_free_bit ?x 0")
    case None
    then have all: "\<forall>b < 32. used_at s (32 * w + b)"
      using find_free_bit_spec [of 0 ?x] blk by simp
    have "?P (Suc w)" using Suc(2) by (intro Suc(1)) simp
    then show ?thesis
      using find_free_word_next [OF w None] first_free_weaken [OF _ all] used_block_extend [OF all]
      by (metis not_le)
  next
    case (Some b)
    then have b: "b < 32" "\<not> bit ?x b" "\<forall>j < b. bit ?x j"
      using find_free_bit_spec [of 0 ?x] by auto
    have "first_free s (32 * w) (32 * words) (32 * w + b)"
      unfolding first_free_def
    proof (intro conjI allI impI)
      show "32 * w + b < 32 * words" using b w by linarith
      show "\<not> used_at s (32 * w + b)" using b blk by simp
      fix g assume "32 * w \<le> g \<and> g < 32 * w + b"
      then have "g - 32 * w < b" "32 * w + (g - 32 * w) = g" by auto
      with b blk [of "g - 32 * w"] show "used_at s g" by simp
    qed simp
    with find_free_word_hit [OF w Some] show ?thesis by blast
  qed
qed

section \<open>Allocation and release\<close>

text \<open>
  The allocator's invariant: at most 4 GiB of memory, the frames of the first 2 MiB in use, and
  the counter of used frames exact over the range the bitmap covers.
\<close>

definition pmm_inv :: "'a pmm_scheme \<Rightarrow> bool" where
  "pmm_inv s \<longleftrightarrow> 512 \<le> unat (total_frames s) \<and> unat (total_frames s) < 1048576 \<and>
     (\<forall>f < 512. used_at s f) \<and> unat (used_frames s) = card (used_set s)"

lemma unat_bitmap_words:
  assumes "unat (total_frames s) < 1048576"
  shows "unat (bitmap_words s) = (unat (total_frames s) + 31) div 32"
proof -
  have "unat (31 + total_frames s) = unat (total_frames s) + 31"
    using assms by (subst unat_add_small) simp_all
  then show ?thesis unfolding bitmap_words_def by (simp add: unat_div)
qed

lemma frame_limit_bounds:
  assumes "unat (total_frames s) < 1048576"
  shows "unat (total_frames s) \<le> frame_limit s" and "frame_limit s \<le> 1048576"
    and "unat (bitmap_words s) \<le> 32768"
proof -
  let ?t = "unat (total_frames s)"
  have e: "32 * ((?t + 31) div 32) + (?t + 31) mod 32 = ?t + 31" by (rule mult_div_mod_eq)
  have m: "(?t + 31) mod 32 < 32" by simp
  have "(?t + 31) div 32 \<le> (1048575 + 31) div 32" using assms by (intro div_le_mono) linarith
  then have w: "unat (bitmap_words s) \<le> 32768" using assms by (simp add: unat_bitmap_words)
  from e m show "?t \<le> frame_limit s" unfolding frame_limit_def unat_bitmap_words [OF assms] by linarith
  from w show "frame_limit s \<le> 1048576" and "unat (bitmap_words s) \<le> 32768"
    by (simp_all add: frame_limit_def)
qed

lemma unat_frame:
  "unat (total_frames s) < 1048576 \<Longrightarrow> f < frame_limit s \<Longrightarrow> unat (word_of_nat f :: u32) = f"
  using frame_limit_bounds(2) [of s] by (intro unat_of_nat_small) simp

lemma find_free_frame_spec:
  assumes "unat (total_frames s) < 1048576"
  shows "(\<exists>f. first_free s 0 (frame_limit s) f \<and> find_free_frame s = word_of_nat f) \<or>
     (\<forall>g < frame_limit s. used_at s g) \<and> find_free_frame s = FRAMES_NOT_FOUND"
  using find_free_word_spec [OF frame_limit_bounds(3) [OF assms], of s 0]
  unfolding find_free_frame_def frame_limit_def by simp

text \<open>What an allocation does, as a relation between the two states and the result.\<close>

lemma pmm_alloc_frame_cases:
  assumes "unat (total_frames s) < 1048576"
  obtains (found) f where "first_free s 0 (frame_limit s) f"
      "pmm_alloc_frame s = (word_of_nat f * 4096,
         (mark_frame_used (word_of_nat f) s)\<lparr>used_frames := used_frames s + 1\<rparr>)"
  | (full) "\<forall>g < frame_limit s. used_at s g" "pmm_alloc_frame s = (0, s)"
  using find_free_frame_spec [OF assms]
proof (elim disjE exE conjE)
  fix f assume f: "first_free s 0 (frame_limit s) f" and e: "find_free_frame s = word_of_nat f"
  have "f < 1048576" using f frame_limit_bounds(2) [OF assms] by (auto simp: first_free_def)
  then have "(word_of_nat f :: u32) \<noteq> 0xFFFFFFFF"
    by (simp add: u32_eq_iff_unat unat_of_nat_small)
  then show thesis using f e by (intro found) (simp_all add: pmm_alloc_frame_def Let_def)
next
  assume "\<forall>g < frame_limit s. used_at s g" and "find_free_frame s = FRAMES_NOT_FOUND"
  then show thesis by (intro full) (simp_all add: pmm_alloc_frame_def)
qed

lemma finite_used_set [simp]: "finite (used_set s)"
  by (simp add: used_set_def)

lemma used_set_mark_used:
  assumes "unat (total_frames s) < 1048576" and "f < frame_limit s"
  shows "used_set (mark_frame_used (word_of_nat f) s) = insert f (used_set s)"
proof -
  have b: "unat (word_of_nat g :: u32) = g \<and> g < 1048576" if "g < frame_limit s" for g
    using unat_frame [OF assms(1) that] frame_limit_bounds(2) [OF assms(1)] that by linarith
  have "used_at (mark_frame_used (word_of_nat f) s) g \<longleftrightarrow> g = f \<or> used_at s g"
    if "g < frame_limit s" for g
    using b [OF that] b [OF assms(2)] by (subst mark_frame_used_iff) (auto simp: u32_eq_iff_unat)
  with assms(2) show ?thesis by (auto simp: used_set_def frame_limit_def)
qed

lemma used_set_mark_free:
  assumes "unat (total_frames s) < 1048576" and "f < frame_limit s"
  shows "used_set (mark_frame_free (word_of_nat f) s) = used_set s - {f}"
proof -
  have b: "unat (word_of_nat g :: u32) = g \<and> g < 1048576" if "g < frame_limit s" for g
    using unat_frame [OF assms(1) that] frame_limit_bounds(2) [OF assms(1)] that by linarith
  have "used_at (mark_frame_free (word_of_nat f) s) g \<longleftrightarrow> g \<noteq> f \<and> used_at s g"
    if "g < frame_limit s" for g
    using b [OF that] b [OF assms(2)] by (subst mark_frame_free_iff) (auto simp: u32_eq_iff_unat)
  with assms(2) show ?thesis by (auto simp: used_set_def frame_limit_def)
qed

lemma used_set_used_frames_update [simp]: "used_set (s\<lparr>used_frames := x\<rparr>) = used_set s"
  by (simp add: used_set_def frame_limit_def)

lemma pmm_invD:
  assumes "pmm_inv s"
  shows "unat (total_frames s) < 1048576" and "512 \<le> frame_limit s" and "{..<512} \<subseteq> used_set s"
    and "card (used_set s) \<le> 1048576"
proof -
  show t: "unat (total_frames s) < 1048576" using assms by (simp add: pmm_inv_def)
  then show l: "512 \<le> frame_limit s"
    using frame_limit_bounds(1) [OF t] assms by (simp add: pmm_inv_def)
  with assms show "{..<512} \<subseteq> used_set s" by (auto simp: pmm_inv_def used_set_def)
  have "card (used_set s) \<le> card {..<frame_limit s}"
    by (rule card_mono) (auto simp: used_set_def)
  with frame_limit_bounds(2) [OF t] show "card (used_set s) \<le> 1048576" by simp
qed

text \<open>The reserved frames are in use exactly when the used set holds them.\<close>

lemma pmm_invI:
  assumes "512 \<le> unat (total_frames s)" and "unat (total_frames s) < 1048576"
    and "{..<512} \<subseteq> used_set s" and "unat (used_frames s) = card (used_set s)"
  shows "pmm_inv s"
  using assms unfolding pmm_inv_def used_set_def by blast

definition owned_frames :: "'a pmm_scheme \<Rightarrow> u32 set" where
  "owned_frames s = (\<lambda>f. word_of_nat f * 4096) ` used_set s"

lemma frame_addr_unat:
  "f < 1048576 \<Longrightarrow> unat (word_of_nat f * 4096 :: u32) = f * 4096"
  by (subst unat_mult_small) (simp_all add: unat_of_nat_small)

lemma frame_addr_page_aligned [simp]: "page_aligned (word_of_nat f * 4096)"
  unfolding page_aligned_def mult.commute [of "word_of_nat f"] by (rule dvd_unat_mult) simp_all

lemma frame_addr_inj:
  "f < 1048576 \<Longrightarrow> g < 1048576 \<Longrightarrow> (word_of_nat f * 4096 :: u32) = word_of_nat g * 4096 \<longleftrightarrow> f = g"
  by (simp add: u32_eq_iff_unat frame_addr_unat)

lemma used_set_less: "unat (total_frames s) < 1048576 \<Longrightarrow> f \<in> used_set s \<Longrightarrow> f < 1048576"
  using frame_limit_bounds(2) [of s] by (simp add: used_set_def)

text \<open>An allocation either takes the first free frame or leaves the state alone.\<close>

lemma pmm_alloc_frame_state:
  assumes inv: "pmm_inv s" and a: "pmm_alloc_frame s = (p, s')"
  shows "(p = 0 \<and> s' = s \<and> used_set s = {..<frame_limit s}) \<or>
     (\<exists>f. first_free s 0 (frame_limit s) f \<and> 512 \<le> f \<and> f < 1048576 \<and> p = word_of_nat f * 4096 \<and>
        used_set s' = insert f (used_set s) \<and> f \<notin> used_set s \<and>
        total_frames s' = total_frames s \<and> used_frames s' = used_frames s + 1)"
  using pmm_invD(1) [OF inv]
proof (cases rule: pmm_alloc_frame_cases)
  case (found f)
  then have f: "f < frame_limit s" "\<not> used_at s f" by (auto simp: first_free_def)
  then have "f \<notin> used_set s" by (simp add: used_set_def)
  moreover have "512 \<le> f" using inv f(2) not_le unfolding pmm_inv_def by blast
  moreover have "f < 1048576" using f(1) frame_limit_bounds(2) [OF pmm_invD(1) [OF inv]] by simp
  ultimately show ?thesis
    using found a f used_set_mark_used [OF pmm_invD(1) [OF inv] f(1)] by auto
next
  case full
  then show ?thesis using a by (auto simp: used_set_def)
qed

lemma pmm_alloc_frame_inv:
  assumes "pmm_inv s"
  shows "pmm_inv (snd (pmm_alloc_frame s))"
proof -
  obtain p s' where a: "pmm_alloc_frame s = (p, s')" by (metis surj_pair)
  from pmm_alloc_frame_state [OF assms a] show ?thesis
  proof (elim disjE exE conjE)
    fix f assume h: "used_set s' = insert f (used_set s)" "f \<notin> used_set s"
      "total_frames s' = total_frames s" "used_frames s' = used_frames s + 1"
    have u: "unat (used_frames s) \<le> 1048576"
      using assms pmm_invD(4) [OF assms] by (simp add: pmm_inv_def)
    then have "unat (used_frames s') = unat (used_frames s) + 1"
      unfolding h(4) by (subst unat_add_small) simp_all
    with h assms pmm_invD(3) [OF assms] have "pmm_inv s'"
      by (intro pmm_invI) (auto simp: pmm_inv_def)
    then show ?thesis by (simp add: a)
  qed (use a assms in simp)
qed

lemma pmm_free_frame_state:
  assumes inv: "pmm_inv s" and f: "f \<in> used_set s"
  shows "used_set (pmm_free_frame (word_of_nat f * 4096) s) = used_set s - {f}"
    and "unat (used_frames (pmm_free_frame (word_of_nat f * 4096) s)) = card (used_set s) - 1"
    and "total_frames (pmm_free_frame (word_of_nat f * 4096) s) = total_frames s"
proof -
  note t = pmm_invD(1) [OF inv]
  have lt: "f < frame_limit s" using f by (simp add: used_set_def)
  have "f < 1048576" using lt frame_limit_bounds(2) [OF t] by simp
  then have af: "addr_to_frame (word_of_nat f * 4096) = word_of_nat f"
    unfolding addr_to_frame_def u32_eq_iff_unat unat_div
    by (simp add: frame_addr_unat unat_of_nat_small)
  have "0 < card (used_set s)" using f by (auto simp: card_gt_0_iff)
  then have u: "0 < unat (used_frames s)" using inv by (simp add: pmm_inv_def)
  then have pos: "0 < used_frames s" by (simp add: word_less_nat_alt)
  have "unat (used_frames s - 1) = unat (used_frames s) - 1"
    using pos by (subst unat_sub_small) (auto simp: word_le_nat_alt Suc_le_eq u)
  then show "unat (used_frames (pmm_free_frame (word_of_nat f * 4096) s)) = card (used_set s) - 1"
    using inv pos by (simp add: pmm_free_frame_def af Let_def pmm_inv_def)
  show "used_set (pmm_free_frame (word_of_nat f * 4096) s) = used_set s - {f}"
    and "total_frames (pmm_free_frame (word_of_nat f * 4096) s) = total_frames s"
    using used_set_mark_free [OF t lt] by (simp_all add: pmm_free_frame_def af Let_def)
qed

section \<open>Initialisation\<close>

lemma frame_bitmap_fill:
  assumes "n \<le> 262144" and "w < 262144"
  shows "frame_bitmap (fold (\<lambda>w. set_frame_bitmap (word_of_nat w) v) [0..<n] s) (word_of_nat w) =
     (if w < n then v else frame_bitmap s (word_of_nat w))"
  using assms(1)
proof (induction n)
  case (Suc n)
  then have "unat (word_of_nat n :: u32) = n" and "unat (word_of_nat w :: u32) = w"
    using assms(2) by (simp_all add: unat_of_nat_small)
  with Suc assms(2) show ?case by (auto simp: u32_eq_iff_unat)
qed simp

lemma fill_fields [simp]:
  "total_frames (fold (\<lambda>w. set_frame_bitmap (word_of_nat w) v) ws s) = total_frames s"
  by (induction ws arbitrary: s) simp_all

lemma pmm_init_total_frames [simp]: "total_frames (pmm_init m s) = m div 4096"
  by (simp add: pmm_init_def Let_def)

lemma unat_total_frames_init: "unat (total_frames (pmm_init m s)) < 1048576"
  using unat_u32_less [of m] by (simp add: unat_div)

lemma pmm_init_bitmap:
  assumes "w < unat (bitmap_words (pmm_init m s))"
  shows "frame_bitmap (pmm_init m s) (word_of_nat w) = (if w < 16 then 0xFFFFFFFF else 0)"
proof -
  let ?t = "s\<lparr>total_frames := m div 4096\<rparr>"
  have n: "bitmap_words (pmm_init m s) = bitmap_words ?t"
    by (simp add: bitmap_words_def)
  have "unat (bitmap_words ?t) \<le> 32768"
    using frame_limit_bounds(3) [OF unat_total_frames_init [of m s]] n by simp
  then show ?thesis
    using assms n by (simp add: pmm_init_def Let_def frame_bitmap_fill)
qed

lemma used_set_pmm_init:
  assumes "0x200000 \<le> m"
  shows "used_set (pmm_init m s) = {..<512}"
proof -
  let ?s = "pmm_init m s"
  note t = unat_total_frames_init [of m s]
  have "512 \<le> unat (total_frames ?s)"
    using assms by (simp add: unat_div word_le_nat_alt)
  then have lim: "512 \<le> frame_limit ?s" using frame_limit_bounds(1) [OF t] by linarith
  have "used_at ?s f \<longleftrightarrow> f < 512" if f: "f < frame_limit ?s" for f
  proof -
    have w: "f div 32 < unat (bitmap_words ?s)" using f by (simp add: frame_limit_def)
    then have "used_at ?s (32 * (f div 32) + f mod 32) \<longleftrightarrow>
        bit (if f div 32 < 16 then 0xFFFFFFFF else 0 :: u32) (f mod 32)"
      using frame_limit_bounds(3) [OF t]
      by (subst used_at_block) (simp_all add: pmm_init_bitmap [OF w])
    also have "\<dots> \<longleftrightarrow> f div 32 < 16" using all_ones_bit by auto
    also have "\<dots> \<longleftrightarrow> f < 512" by (subst div_less_iff_less_mult) simp_all
    finally show ?thesis by simp
  qed
  with lim show ?thesis by (auto simp: used_set_def)
qed

lemma pmm_init_used_frames [simp]: "used_frames (pmm_init m s) = 512"
  by (simp add: pmm_init_def Let_def)

lemma pmm_init_inv: "0x200000 \<le> m \<Longrightarrow> pmm_inv (pmm_init m s)"
  using unat_total_frames_init [of m s]
  by (intro pmm_invI) (simp_all add: used_set_pmm_init unat_div word_le_nat_alt)

section \<open>Only the bitmap is written\<close>

lemma set_frame_bitmap_ram:
  assumes "unat w < 32768" and "unat a < 0x100000 \<or> 0x120000 \<le> unat a"
  shows "ram (set_frame_bitmap w v s) a = ram s a"
proof -
  have "a \<noteq> BITMAP_BASE_ADDR + 4 * w + word_of_nat i" if i: "i < 4" for i
  proof
    assume "a = BITMAP_BASE_ADDR + 4 * w + word_of_nat i"
    then have "unat a = 0x100000 + 4 * unat w + i"
      using aligned4_unat_add [OF bm_addr_aligned [of w] i] bm_addr_unat [of w] assms(1) by simp
    with assms i show False by linarith
  qed
  then show ?thesis by (simp add: set_frame_bitmap_def store32_other_byte del: BITMAP_BASE_ADDR_def)
qed

lemma pmm_alloc_frame_ram:
  assumes "pmm_inv s" and "unat a < 0x100000 \<or> 0x120000 \<le> unat a"
  shows "ram (snd (pmm_alloc_frame s)) a = ram s a"
  using pmm_invD(1) [OF assms(1)]
proof (cases rule: pmm_alloc_frame_cases)
  case (found f)
  then have "f < frame_limit s" by (simp add: first_free_def)
  then have "f < 1048576" using frame_limit_bounds(2) [OF pmm_invD(1) [OF assms(1)]] by simp
  then have "unat (word_of_nat f div 32 :: u32) < 32768" by (simp add: unat_div unat_of_nat_small)
  then show ?thesis
    using found assms(2) by (simp add: mark_frame_used_def set_frame_bitmap_ram)
qed simp

lemma load32_alloc:
  assumes "pmm_inv s" and "aligned4 a" and "0x120000 \<le> unat a"
  shows "load32 (ram (snd (pmm_alloc_frame s))) a = load32 (ram s) a"
proof -
  have r: "ram (snd (pmm_alloc_frame s)) (a + word_of_nat k) = ram s (a + word_of_nat k)"
    if "k < 4" for k
    using assms that by (intro pmm_alloc_frame_ram) (simp_all add: aligned4_unat_add)
  show ?thesis
    using r [of 0] r [of 1] r [of 2] r [of 3] by (intro load32_cong) simp_all
qed

section \<open>The contract of a frame allocator\<close>

text \<open>
  What the page-table code and the heap rely on: an allocation that succeeds returns a page that
  nobody owned, and owns it; one that fails returns 0 and changes nothing.
\<close>

locale frame_allocator =
  fixes alloc :: "'s \<Rightarrow> u32 \<times> 's"
    and owned :: "'s \<Rightarrow> u32 set"
    and inv :: "'s \<Rightarrow> bool"
  assumes alloc_inv: "inv s \<Longrightarrow> inv (snd (alloc s))"
    and alloc_fresh: "inv s \<Longrightarrow> alloc s = (p, s') \<Longrightarrow> p \<noteq> 0 \<Longrightarrow>
      p \<notin> owned s \<and> owned s' = insert p (owned s) \<and> page_aligned p"
    and alloc_fail: "inv s \<Longrightarrow> alloc s = (0, s') \<Longrightarrow> s' = s"
begin

text \<open>A run of allocations, as a mapping loop makes them.\<close>

fun alloc_many :: "nat \<Rightarrow> 's \<Rightarrow> u32 list \<times> 's" where
  "alloc_many 0 s = ([], s)"
| "alloc_many (Suc n) s = (let (p, s1) = alloc s; (ps, s2) = alloc_many n s1 in (p # ps, s2))"

lemma alloc_owned_mono: "inv s \<Longrightarrow> owned s \<subseteq> owned (snd (alloc s))"
  using alloc_fresh [of s "fst (alloc s)" "snd (alloc s)"] alloc_fail [of s "snd (alloc s)"]
  by (cases "fst (alloc s) = 0") (metis order_refl prod.collapse, auto)

lemma alloc_many_inv: "inv s \<Longrightarrow> inv (snd (alloc_many n s))"
proof (induction n arbitrary: s)
  case (Suc n)
  then show ?case using alloc_inv [OF Suc.prems] by (auto simp: split_def Let_def)
qed simp

lemma alloc_many_fresh:
  assumes "inv s" and "alloc_many n s = (ps, s')" and "0 \<notin> set ps"
  shows "distinct ps \<and> set ps \<inter> owned s = {} \<and> owned s' = owned s \<union> set ps \<and>
     (\<forall>p \<in> set ps. page_aligned p) \<and> length ps = n"
  using assms
proof (induction n arbitrary: s ps)
  case (Suc n)
  obtain p s1 where a: "alloc s = (p, s1)" by (metis surj_pair)
  obtain qs where q: "alloc_many n s1 = (qs, s')" "ps = p # qs"
    using Suc.prems(2) a by (auto split: prod.splits)
  have "p \<notin> owned s \<and> owned s1 = insert p (owned s) \<and> page_aligned p"
    using alloc_fresh [OF Suc.prems(1) a] Suc.prems(3) q(2) by auto
  moreover have "inv s1" using alloc_inv [OF Suc.prems(1)] a by simp
  then have "distinct qs \<and> set qs \<inter> owned s1 = {} \<and> owned s' = owned s1 \<union> set qs \<and>
      (\<forall>p \<in> set qs. page_aligned p) \<and> length qs = n"
    using Suc.IH [OF _ q(1)] Suc.prems(3) q(2) by auto
  ultimately show ?case using q(2) by auto
qed auto

end

lemma owned_insert: "used_set s' = insert f (used_set s) \<Longrightarrow>
    owned_frames s' = insert (word_of_nat f * 4096) (owned_frames s)"
  by (simp add: owned_frames_def)

lemma owned_frames_iff:
  assumes "unat (total_frames s) < 1048576" and "f < 1048576"
  shows "word_of_nat f * 4096 \<in> owned_frames s \<longleftrightarrow> f \<in> used_set s"
  using assms used_set_less [OF assms(1)] by (auto simp: owned_frames_def frame_addr_inj)

interpretation pmm_alloc: frame_allocator pmm_alloc_frame owned_frames pmm_inv
proof unfold_locales
  fix s :: "'a pmm_scheme" assume inv: "pmm_inv s"
  show "pmm_inv (snd (pmm_alloc_frame s))" by (rule pmm_alloc_frame_inv [OF inv])
  fix p s' assume a: "pmm_alloc_frame s = (p, s')" "p \<noteq> 0"
  from pmm_alloc_frame_state [OF inv a(1)] a(2)
  show "p \<notin> owned_frames s \<and> owned_frames s' = insert p (owned_frames s) \<and> page_aligned p"
    by (auto simp: owned_insert owned_frames_iff [OF pmm_invD(1) [OF inv]])
next
  fix s s' :: "'a pmm_scheme" assume inv: "pmm_inv s" and a: "pmm_alloc_frame s = (0, s')"
  from pmm_alloc_frame_state [OF inv a] show "s' = s"
  proof (elim disjE exE conjE)
    fix f assume "512 \<le> f" "f < 1048576" "(0 :: u32) = word_of_nat f * 4096"
    then show ?thesis by (simp add: u32_eq_iff_unat frame_addr_unat)
  qed
qed

lemma mark_free_mark_used:
  assumes "unat g < 1048576" and "\<not> frame_used s g"
  shows "mark_frame_free g (mark_frame_used g s) = s"
proof -
  let ?w = "g div 32" and ?b = "unat (g mod 32)"
  have "(frame_bitmap s ?w OR push_bit ?b 1) AND NOT (push_bit ?b 1) = frame_bitmap s ?w"
    using assms(2) unfolding frame_used_def
    by (intro bit_word_eqI) (auto simp: bit_simps)
  moreover have "set_frame_bitmap ?w (frame_bitmap s ?w) (set_frame_bitmap ?w v s) = s" for v
    using bm_addr_aligned [of ?w] unfolding set_frame_bitmap_def frame_bitmap_def
    by (simp add: mem_simps)
  ultimately show ?thesis
    using assms(1) by (simp add: mark_frame_free_def mark_frame_used_def frame_word_index)
qed

text \<open>While the frames in use form an initial segment, allocation extends it by one.\<close>

lemma pmm_alloc_frame_next:
  assumes inv: "pmm_inv s" and u: "used_set s = {..<n}" and n: "n < frame_limit s"
  obtains s' where "pmm_alloc_frame s = (word_of_nat n * 4096, s')" and "pmm_inv s'"
    and "used_set s' = {..<Suc n}" and "total_frames s' = total_frames s"
proof -
  obtain p s' where a: "pmm_alloc_frame s = (p, s')" by (metis surj_pair)
  have "pmm_inv s'" using pmm_alloc_frame_inv [OF inv] a by simp
  from pmm_alloc_frame_state [OF inv a] show thesis
  proof (elim disjE exE conjE)
    fix f assume f: "first_free s 0 (frame_limit s) f" "p = word_of_nat f * 4096"
      "used_set s' = insert f (used_set s)" "f \<notin> used_set s" "total_frames s' = total_frames s"
    have "f = n"
    proof (rule antisym)
      show "n \<le> f" using f(4) u by simp
      show "f \<le> n"
      proof (rule ccontr)
        assume "\<not> f \<le> n"
        then have "used_at s n" using f(1) by (simp add: first_free_def)
        with n have "n \<in> used_set s" by (simp add: used_set_def)
        with u show False by simp
      qed
    qed
    then show thesis
      using f a u by (intro that [of s'] \<open>pmm_inv s'\<close>) (simp_all add: lessThan_Suc)
  qed (use u n in auto)
qed

lemma frame_limit_cong: "total_frames s' = total_frames s \<Longrightarrow> frame_limit s' = frame_limit s"
  by (simp add: frame_limit_def bitmap_words_def)

lemma pmm_alloc_many_sequential:
  assumes "pmm_inv s" and "used_set s = {..<n}" and "n + k \<le> frame_limit s"
  shows "\<exists>s'. pmm_alloc.alloc_many k s = (map (\<lambda>f. word_of_nat f * 4096) [n..<n + k], s') \<and>
     pmm_inv s' \<and> used_set s' = {..<n + k} \<and> total_frames s' = total_frames s"
  using assms
proof (induction k arbitrary: s n)
  case (Suc k)
  obtain s1 where s1: "pmm_alloc_frame s = (word_of_nat n * 4096, s1)" "pmm_inv s1"
    "used_set s1 = {..<Suc n}" "total_frames s1 = total_frames s"
    using pmm_alloc_frame_next [of s n] Suc.prems by (metis add_Suc_right less_add_Suc1 less_le_trans)
  have "Suc n + k \<le> frame_limit s1" using Suc.prems(3) frame_limit_cong [OF s1(4)] by simp
  from Suc.IH [OF s1(2,3) this] obtain s' where
    "pmm_alloc.alloc_many k s1 = (map (\<lambda>f. word_of_nat f * 4096) [Suc n..<Suc n + k], s')"
    "pmm_inv s'" "used_set s' = {..<Suc n + k}" "total_frames s' = total_frames s1" by blast
  moreover have "[n..<n + Suc k] = n # [Suc n..<Suc n + k]" by (simp add: upt_rec)
  ultimately show ?case using s1 by simp
qed simp

section \<open>Properties\<close>

text \<open>C1: allocation is first-fit. If some frame of the bitmap is free, \<^verbatim>\<open>pmm_alloc_frame\<close>
  returns the address of the lowest free frame, never one of the first 512, and adds exactly that
  frame to the frames in use; otherwise it returns 0 and changes nothing.\<close>

theorem pmm_alloc_first_fit:
  assumes "pmm_inv s" and "pmm_alloc_frame s = (p, s')"
  shows "if \<exists>f < frame_limit s. \<not> used_at s f
     then \<exists>f < frame_limit s. p = word_of_nat f * 4096 \<and> 512 \<le> f \<and> \<not> used_at s f \<and>
            (\<forall>g < f. used_at s g) \<and> used_set s' = insert f (used_set s)
     else p = 0 \<and> s' = s"
  using pmm_alloc_frame_state [OF assms]
  by (auto simp: first_free_def used_set_def set_eq_iff)

text \<open>A machine with 32 MiB, the size the boot code falls back to.\<close>

definition pmm_32MiB :: pmm where
  "pmm_32MiB = pmm_init 0x2000000 \<lparr>ram = (\<lambda>_. 7), total_frames = 0, used_frames = 0\<rparr>"

lemma pmm_32MiB_facts:
  "pmm_inv pmm_32MiB" "frame_limit pmm_32MiB = 8192" "used_set pmm_32MiB = {..<512}"
proof -
  show "pmm_inv pmm_32MiB" unfolding pmm_32MiB_def by (rule pmm_init_inv) simp
  show "frame_limit pmm_32MiB = 8192"
    by (simp add: pmm_32MiB_def frame_limit_def bitmap_words_def)
  show "used_set pmm_32MiB = {..<512}" unfolding pmm_32MiB_def by (rule used_set_pmm_init) simp
qed

theorem pmm_alloc_first_fit_witness:
  "pmm_inv pmm_32MiB \<and> fst (pmm_alloc_frame pmm_32MiB) \<noteq> 0"
proof -
  let ?s = pmm_32MiB
  have "512 \<notin> used_set ?s" by (simp add: pmm_32MiB_facts)
  then have ex: "\<exists>f < frame_limit ?s. \<not> used_at ?s f"
    using pmm_32MiB_facts(2) by (intro exI [of _ 512]) (simp add: used_set_def)
  obtain f where "f < frame_limit ?s" "512 \<le> f" "fst (pmm_alloc_frame ?s) = word_of_nat f * 4096"
    using pmm_alloc_first_fit [OF pmm_32MiB_facts(1),
        of "fst (pmm_alloc_frame ?s)" "snd (pmm_alloc_frame ?s)"]
    unfolding if_P [OF ex] by auto
  with pmm_32MiB_facts show ?thesis by (simp add: u32_eq_iff_unat frame_addr_unat)
qed

text \<open>C2: every operation keeps the allocator's invariant. Initialisation with at least 2 MiB
  establishes it, and allocating and releasing a frame outside the reserved 2 MiB preserve it: the
  reserved frames stay in use and \<^verbatim>\<open>used_frames\<close> stays the number of bits set.\<close>

theorem pmm_ops_preserve_inv:
  "(0x200000 \<le> m \<longrightarrow> pmm_inv (pmm_init m s)) \<and>
   (pmm_inv s \<longrightarrow> pmm_inv (snd (pmm_alloc_frame s))) \<and>
   (pmm_inv s \<and> f \<in> used_set s \<and> 512 \<le> f \<longrightarrow> pmm_inv (pmm_free_frame (word_of_nat f * 4096) s))"
proof (intro conjI impI)
  assume h: "pmm_inv s \<and> f \<in> used_set s \<and> 512 \<le> f"
  note st = pmm_free_frame_state [of s f]
  show "pmm_inv (pmm_free_frame (word_of_nat f * 4096) s)"
    using h st pmm_invD(3) [of s] by (intro pmm_invI) (auto simp: pmm_inv_def)
qed (rule pmm_init_inv pmm_alloc_frame_inv, assumption)+

theorem pmm_ops_preserve_inv_witness:
  "pmm_inv pmm_32MiB \<and> pmm_inv (snd (pmm_alloc_frame pmm_32MiB)) \<and>
   pmm_inv (pmm_free_frame 0x200000 (snd (pmm_alloc_frame pmm_32MiB)))"
proof -
  obtain s' where s': "pmm_alloc_frame pmm_32MiB = (word_of_nat 512 * 4096, s')"
    "pmm_inv s'" "used_set s' = {..<Suc 512}"
    by (rule pmm_alloc_frame_next [OF pmm_32MiB_facts(1,3)]) (simp_all add: pmm_32MiB_facts(2))
  have "pmm_inv (pmm_free_frame (word_of_nat 512 * 4096) s')"
    using pmm_ops_preserve_inv [of 0 s' 512] s' by simp
  then show ?thesis using s' pmm_32MiB_facts(1) by simp
qed

text \<open>releasing a frame that was just allocated undoes the allocation. The whole state, every
  byte of memory included, is the one before the allocation.\<close>

theorem pmm_free_alloc_roundtrip:
  assumes "pmm_inv s" and "pmm_alloc_frame s = (p, s')" and "p \<noteq> 0"
  shows "pmm_free_frame p s' = s"
  using pmm_invD(1) [OF assms(1)]
proof (cases rule: pmm_alloc_frame_cases)
  case (found f)
  then have f: "f < frame_limit s" "\<not> used_at s f" by (auto simp: first_free_def)
  then have lt: "f < 1048576" using frame_limit_bounds(2) [OF pmm_invD(1) [OF assms(1)]] by simp
  have af: "addr_to_frame p = word_of_nat f"
    using found assms(2) lt unfolding addr_to_frame_def u32_eq_iff_unat unat_div
    by (simp add: frame_addr_unat unat_of_nat_small)
  have s': "s' = (mark_frame_used (word_of_nat f) s)\<lparr>used_frames := used_frames s + 1\<rparr>"
    using found(2) assms(2) by simp
  have free: "mark_frame_free g (t\<lparr>used_frames := x\<rparr>) = (mark_frame_free g t)\<lparr>used_frames := x\<rparr>"
    for g x and t :: "'a pmm_scheme"
    by (simp add: mark_frame_free_def set_frame_bitmap_def)
  have "unat (used_frames s) < 1048577"
    using assms(1) pmm_invD(4) [OF assms(1)] by (simp add: pmm_inv_def)
  then have "unat (used_frames s + 1) = unat (used_frames s) + 1" by (subst unat_add_small) simp_all
  then have "0 < used_frames s + 1" by (simp add: word_less_nat_alt)
  moreover have "mark_frame_free (word_of_nat f) (mark_frame_used (word_of_nat f) s) = s"
    using f lt by (intro mark_free_mark_used) (simp_all add: unat_of_nat_small)
  ultimately show ?thesis by (simp add: pmm_free_frame_def af s' free Let_def)
next
  case full
  with assms show ?thesis by simp
qed

theorem pmm_free_alloc_roundtrip_witness:
  "fst (pmm_alloc_frame pmm_32MiB) = 0x200000 \<and>
   pmm_free_frame 0x200000 (snd (pmm_alloc_frame pmm_32MiB)) = pmm_32MiB"
proof -
  obtain s' where s': "pmm_alloc_frame pmm_32MiB = (word_of_nat 512 * 4096, s')"
    by (rule pmm_alloc_frame_next [OF pmm_32MiB_facts(1,3)]) (simp_all add: pmm_32MiB_facts(2))
  with pmm_free_alloc_roundtrip [OF pmm_32MiB_facts(1) s'] show ?thesis by simp
qed

text \<open>after initialisation with \<open>m\<close> bytes of memory, successive allocations hand out the
  frames after the reserved 2 MiB in order: the \<open>k\<close> allocations return the addresses
  \<open>0x200000, 0x201000, \<dots>\<close>, as long as the bitmap covers them. In particular boot-time page
  tables sit at known addresses.\<close>

theorem pmm_boot_allocation_order:
  assumes "0x200000 \<le> m" and "512 + k \<le> frame_limit (pmm_init m s)"
  shows "fst (pmm_alloc.alloc_many k (pmm_init m s)) = map (\<lambda>i. 0x200000 + word_of_nat i * 4096) [0..<k]"
proof -
  have "fst (pmm_alloc.alloc_many k (pmm_init m s)) = map (\<lambda>f. word_of_nat f * 4096) [512..<512 + k]"
    using pmm_alloc_many_sequential [OF pmm_init_inv [OF assms(1)] used_set_pmm_init [OF assms(1)] assms(2)]
    by (metis fst_conv)
  also have "\<dots> = map (\<lambda>i. 0x200000 + word_of_nat i * 4096) [0..<k]"
  proof (rule nth_equalityI)
    fix i assume "i < length (map (\<lambda>f. word_of_nat f * 4096 :: u32) [512..<512 + k])"
    moreover have "(word_of_nat (512 + i) * 4096 :: u32) = 0x200000 + word_of_nat i * 4096"
      by (simp only: of_nat_add distrib_right) simp
    ultimately show "map (\<lambda>f. word_of_nat f * 4096 :: u32) [512..<512 + k] ! i =
        map (\<lambda>i. 0x200000 + word_of_nat i * 4096) [0..<k] ! i" by simp
  qed simp
  finally show ?thesis .
qed

theorem pmm_boot_allocation_order_witness:
  "fst (pmm_alloc.alloc_many 3 pmm_32MiB) = [0x200000, 0x201000, 0x202000]"
proof -
  have "512 + 3 \<le> frame_limit pmm_32MiB" by (simp add: pmm_32MiB_facts)
  then show ?thesis
    using pmm_boot_allocation_order [of "0x2000000" 3 "\<lparr>ram = (\<lambda>_. 7), total_frames = 0, used_frames = 0\<rparr>"]
    by (simp add: pmm_32MiB_def upt_rec)
qed

text \<open>C36: the allocator can hand out memory that does not exist. The bitmap is searched in whole
  32-bit words, so when the number of frames is not a multiple of 32 the bits past the last frame
  are free: after every frame of the machine has been allocated, the next allocation returns the
  address just past the end of memory instead of 0.\<close>

theorem pmm_alloc_past_end_of_memory:
  assumes "0x200000 \<le> m" and "unat (total_frames (pmm_init m s)) mod 32 \<noteq> 0"
    and "k = unat (total_frames (pmm_init m s)) - 512"
  shows "fst (pmm_alloc_frame (snd (pmm_alloc.alloc_many k (pmm_init m s)))) =
     pmm_get_total_memory (pmm_init m s)"
proof -
  let ?s = "pmm_init m s" and ?n = "unat (total_frames (pmm_init m s))"
  note t = unat_total_frames_init [of m s]
  have "?n \<noteq> frame_limit ?s" using assms(2) by (auto simp: frame_limit_def)
  then have lt: "?n < frame_limit ?s" using frame_limit_bounds(1) [OF t] by simp
  have "512 \<le> ?n" using assms(1) by (simp add: unat_div word_le_nat_alt)
  then have k: "512 + k = ?n" using assms(3) by simp
  then obtain s' where s': "snd (pmm_alloc.alloc_many k ?s) = s'" "pmm_inv s'"
    "used_set s' = {..<?n}" "total_frames s' = total_frames ?s"
    using pmm_alloc_many_sequential [OF pmm_init_inv [OF assms(1)] used_set_pmm_init [OF assms(1)], of k] lt
    by (metis less_imp_le snd_conv)
  have "?n < frame_limit s'" using lt frame_limit_cong [OF s'(4)] by simp
  from pmm_alloc_frame_next [OF s'(2,3) this] have "fst (pmm_alloc_frame s') = word_of_nat ?n * 4096"
    by (metis fst_conv)
  then show ?thesis using s'(1) by (simp add: pmm_get_total_memory_def)
qed

theorem pmm_alloc_past_end_of_memory_witness:
  "\<exists>k s. fst (pmm_alloc_frame (snd (pmm_alloc.alloc_many k (pmm_init 0x2010000 (s :: pmm))))) = 0x2010000"
proof -
  let ?s = "\<lparr>ram = (\<lambda>_. 0), total_frames = 0, used_frames = 0\<rparr>"
  have "fst (pmm_alloc_frame (snd (pmm_alloc.alloc_many 7696 (pmm_init 0x2010000 ?s)))) =
      pmm_get_total_memory (pmm_init 0x2010000 ?s)"
    by (rule pmm_alloc_past_end_of_memory) simp_all
  also have "\<dots> = 0x2010000" by (simp add: pmm_get_total_memory_def)
  finally show ?thesis by blast
qed

text \<open>C37: with 128 MiB plus one page of memory or more, initialisation overwrites the kernel's own code.
  The bitmap starts at 0x100000 and the linker script places the code at 0x101000, one page
  later; a bitmap of more than 1024 words runs into it, and \<^verbatim>\<open>pmm_init\<close> stores zero there
  whatever the memory held.\<close>

theorem pmm_init_overwrites_kernel_text:
  assumes "0x8001000 \<le> m"
  shows "load32 (ram (pmm_init m s)) 0x101000 = 0"
proof -
  let ?s = "pmm_init m s"
  have "32769 \<le> unat (total_frames ?s)"
    using assms div_le_mono [of "0x8001000" "unat m" 4096] by (simp add: unat_div word_le_nat_alt)
  then have "1024 < unat (bitmap_words ?s)"
    using div_le_mono [of "32800" "unat (total_frames ?s) + 31" 32]
    unfolding unat_bitmap_words [OF unat_total_frames_init] by simp
  then have "frame_bitmap ?s (word_of_nat 1024) = 0" by (subst pmm_init_bitmap) simp_all
  then show ?thesis by (simp add: frame_bitmap_def)
qed

theorem pmm_init_overwrites_kernel_text_witness:
  "load32 (\<lambda>_. 0x90) 0x101000 \<noteq> 0 \<and>
   load32 (ram (pmm_init 0x10000000 \<lparr>ram = (\<lambda>_. 0x90), total_frames = 0, used_frames = 0\<rparr>)) 0x101000 = 0"
proof -
  have "load32 (\<lambda>_. 0x90) 0x101000 \<noteq> 0" by (simp add: load32_def)
  then show ?thesis
    using pmm_init_overwrites_kernel_text [of "0x10000000"] by simp
qed

end
