(* ===== verification/Vmm.thy ===== *)
theory Vmm
  imports Pmm
begin

text \<open>
  The two-level i386 page tables of \<^verbatim>\<open>memory/vmm.c\<close>. Directories and tables are pages of
  physical memory that the code reaches through pointers equal to their physical addresses: the
  boot code runs before paging is on, and afterwards relies on the identity map of the first 8 MiB
  that \<open>vmm_init\<close> installs. The translation lookaside buffer is not modelled: \<^verbatim>\<open>invlpg\<close>
  has no effect on this state. The lemmas abstract the tables to a map from page numbers to page
  table entries and show that each operation is the corresponding update of that map.
\<close>

section \<open>State and operations\<close>

definition PAGE_PRESENT :: u32 where [simp]: "PAGE_PRESENT = 0x1"
definition PAGE_WRITE :: u32 where [simp]: "PAGE_WRITE = 0x2"

record vmm = pmm +
  current_directory :: u32
  kernel_directory :: u32
  cr3 :: u32
  paging_enabled :: bool

text \<open>\<^verbatim>\<open>p[i]\<close> for a page \<open>p\<close> of 1024 entries.\<close>

definition entry :: "'a vmm_scheme \<Rightarrow> u32 \<Rightarrow> u32 \<Rightarrow> u32" where
  "entry s p i = load32 (ram s) (entry_addr p i)"

definition set_entry :: "u32 \<Rightarrow> u32 \<Rightarrow> u32 \<Rightarrow> 'a vmm_scheme \<Rightarrow> 'a vmm_scheme" where
  "set_entry p i v s = s\<lparr>ram := store32 (ram s) (entry_addr p i) v\<rparr>"

definition enable_paging :: "u32 \<Rightarrow> 'a vmm_scheme \<Rightarrow> 'a vmm_scheme" where
  "enable_paging dir s = s\<lparr>cr3 := dir, paging_enabled := True\<rparr>"

definition pd_index :: "u32 \<Rightarrow> u32" where
  "pd_index virtual_addr = drop_bit 22 virtual_addr"

definition pt_index :: "u32 \<Rightarrow> u32" where
  "pt_index virtual_addr = drop_bit 12 virtual_addr AND 0x3FF"

text \<open>The on-demand allocation of a page table at the head of \<^verbatim>\<open>vmm_map_page\<close>.\<close>

definition vmm_ensure_table :: "u32 \<Rightarrow> u32 \<Rightarrow> 'a vmm_scheme \<Rightarrow> 'a vmm_scheme" where
  "vmm_ensure_table pdi flags s =
     (if entry s (current_directory s) pdi AND PAGE_PRESENT = 0 then
        let (pt_phys, s1) = pmm_alloc_frame s;
            s2 = set_entry (current_directory s1) pdi
                   (pt_phys OR PAGE_PRESENT OR PAGE_WRITE OR flags) s1
        in fold (\<lambda>i. set_entry pt_phys (word_of_nat i) 0) [0..<1024] s2
      else s)"

definition vmm_map_page :: "u32 \<Rightarrow> u32 \<Rightarrow> u32 \<Rightarrow> 'a vmm_scheme \<Rightarrow> 'a vmm_scheme" where
  "vmm_map_page virtual_addr physical_addr flags s =
     (let pdi = pd_index virtual_addr;
          pti = pt_index virtual_addr;
          s1 = vmm_ensure_table pdi flags s;
          pt = entry s1 (current_directory s1) pdi AND 0xFFFFF000
      in set_entry pt pti ((physical_addr AND 0xFFFFF000) OR flags) s1)"

definition vmm_unmap_page :: "u32 \<Rightarrow> 'a vmm_scheme \<Rightarrow> 'a vmm_scheme" where
  "vmm_unmap_page virtual_addr s =
     (let pdi = pd_index virtual_addr;
          pti = pt_index virtual_addr
      in if entry s (current_directory s) pdi AND PAGE_PRESENT \<noteq> 0 then
           let pt = entry s (current_directory s) pdi AND 0xFFFFF000 in set_entry pt pti 0 s
         else s)"

definition vmm_get_physical_address :: "u32 \<Rightarrow> 'a vmm_scheme \<Rightarrow> u32" where
  "vmm_get_physical_address virtual_addr s =
     (let pdi = pd_index virtual_addr;
          pti = pt_index virtual_addr;
          offset = virtual_addr AND 0xFFF
      in if entry s (current_directory s) pdi AND PAGE_PRESENT = 0 then 0
         else let pt = entry s (current_directory s) pdi AND 0xFFFFF000 in
           if entry s pt pti AND PAGE_PRESENT = 0 then 0
           else (entry s pt pti AND 0xFFFFF000) + offset)"

definition vmm_get_current_directory :: "'a vmm_scheme \<Rightarrow> u32" where
  "vmm_get_current_directory s = current_directory s"

definition vmm_switch_directory :: "u32 \<Rightarrow> 'a vmm_scheme \<Rightarrow> 'a vmm_scheme" where
  "vmm_switch_directory dir s = s\<lparr>current_directory := dir, cr3 := dir\<rparr>"

definition vmm_init :: "'a vmm_scheme \<Rightarrow> 'a vmm_scheme" where
  "vmm_init s =
     (let (pd_phys, s1) = pmm_alloc_frame s;
          s2 = s1\<lparr>kernel_directory := pd_phys\<rparr>;
          s3 = s2\<lparr>ram := memset (ram s2) (kernel_directory s2) 0 4096\<rparr>;
          s4 = s3\<lparr>current_directory := kernel_directory s3\<rparr>;
          s5 = fold (\<lambda>i. vmm_map_page (word_of_nat i * PAGE_SIZE) (word_of_nat i * PAGE_SIZE)
                 (PAGE_PRESENT OR PAGE_WRITE)) [0..<2048] s4;
          s6 = vmm_map_page 0xB8000 0xB8000 (PAGE_PRESENT OR PAGE_WRITE) s5
      in enable_paging (kernel_directory s6) s6)"

section \<open>Address arithmetic\<close>

lemma frame_mask_eq: "(0xFFFFF000 :: u32) = NOT (mask 12)"
  by (simp add: mask_numeral)

lemma page_aligned_iff_take_bit: "page_aligned p \<longleftrightarrow> take_bit 12 p = 0"
proof -
  have "unat (take_bit 12 p) = unat p mod 4096" by (simp add: take_bit_eq_mod unat_mod)
  then show ?thesis
    unfolding page_aligned_def dvd_eq_mod_eq_0 u32_eq_iff_unat by simp
qed

lemma page_aligned_bit: "page_aligned p \<Longrightarrow> n < 12 \<Longrightarrow> \<not> bit p n"
  unfolding page_aligned_iff_take_bit
  by (metis bit_take_bit_iff bit_0_eq bot_apply bot_bool_def)

lemma page_aligned_mask [simp]: "page_aligned (x AND 0xFFFFF000)"
  unfolding page_aligned_iff_take_bit frame_mask_eq
  by (intro bit_word_eqI) (auto simp: bit_simps)

lemma frame_of_entry:
  assumes "page_aligned p" and "flags AND 0xFFFFF000 = 0"
  shows "(p OR flags) AND 0xFFFFF000 = p"
proof (rule bit_word_eqI)
  fix n assume "n < LENGTH(32)"
  moreover have "\<not> bit (flags AND 0xFFFFF000) n" using assms(2) by simp
  ultimately show "bit ((p OR flags) AND 0xFFFFF000) n = bit p n"
    using page_aligned_bit [OF assms(1), of n] unfolding frame_mask_eq by (auto simp: bit_simps)
qed

lemma pd_index_less [simp]: "unat (pd_index v) < 1024"
proof -
  have "unat (pd_index v) = unat v div 4194304" by (simp add: pd_index_def drop_bit_eq_div unat_div)
  then show ?thesis using unat_u32_less [of v] by simp
qed

lemma pt_index_take_bit: "pt_index v = take_bit 10 (drop_bit 12 v)"
  by (simp add: pt_index_def take_bit_eq_mask mask_numeral)

lemma pt_index_less [simp]: "unat (pt_index v) < 1024"
  by (simp add: pt_index_take_bit take_bit_eq_mod unat_mod)

text \<open>The two indices together are the page number.\<close>

lemma indices_eq_iff:
  "pd_index v = pd_index v' \<and> pt_index v = pt_index v' \<longleftrightarrow> drop_bit 12 v = drop_bit 12 v'"
proof
  assume h: "pd_index v = pd_index v' \<and> pt_index v = pt_index v'"
  show "drop_bit 12 v = drop_bit 12 v'"
  proof (rule bit_word_eqI)
    fix n assume n: "n < LENGTH(32)"
    have d: "bit (pd_index v) k = bit (pd_index v') k" "bit (pt_index v) k = bit (pt_index v') k" for k
      using h by simp_all
    show "bit (drop_bit 12 v) n = bit (drop_bit 12 v') n"
      using d(1) [of "n - 10"] d(2) [of n]
      by (cases "n < 10") (simp_all add: pd_index_def pt_index_take_bit bit_simps)
  qed
next
  assume h: "drop_bit 12 v = drop_bit 12 v'"
  have "pd_index v = drop_bit 10 (drop_bit 12 v)" for v by (simp add: pd_index_def)
  then have "pd_index v = pd_index v'" using h by (simp only:)
  then show "pd_index v = pd_index v' \<and> pt_index v = pt_index v'"
    using h by (simp add: pt_index_take_bit)
qed

section \<open>Entries\<close>

lemma entry_set_entry:
  assumes "page_aligned p" and "page_aligned q" and "unat i < 1024" and "unat j < 1024"
  shows "entry (set_entry p i v s) q j = (if p = q \<and> i = j then v else entry s q j)"
proof (cases "p = q \<and> i = j")
  case True
  then show ?thesis by (simp add: entry_def set_entry_def mem_simps)
next
  case False
  with assms have "entry_addr p i \<noteq> entry_addr q j" by (simp add: entry_addr_eq_iff)
  with assms False show ?thesis
    by (auto simp: entry_def set_entry_def load32_store32_other)
qed

lemma set_entry_fields [simp]:
  "total_frames (set_entry p i v s) = total_frames s"
  "used_frames (set_entry p i v s) = used_frames s"
  "current_directory (set_entry p i v s) = current_directory s"
  "kernel_directory (set_entry p i v s) = kernel_directory s"
  by (simp_all add: set_entry_def)

text \<open>Page tables above 2 MiB do not overlap the frame bitmap.\<close>

lemma frame_bitmap_set_entry:
  assumes "page_aligned p" and "0x200000 \<le> unat p" and "unat i < 1024" and "unat w < 32768"
  shows "frame_bitmap (set_entry p i v s) w = frame_bitmap s w"
proof -
  have "unat (entry_addr p i) \<noteq> unat (BITMAP_BASE_ADDR + 4 * w)"
    using assms by (simp add: unat_entry_addr bm_addr_unat del: BITMAP_BASE_ADDR_def)
  then have "entry_addr p i \<noteq> BITMAP_BASE_ADDR + 4 * w" by metis
  with assms(1) show ?thesis
    unfolding frame_bitmap_def set_entry_def
    by (simp add: load32_store32_other bm_addr_aligned del: BITMAP_BASE_ADDR_def)
qed

lemma used_set_set_entry:
  assumes "page_aligned p" and "0x200000 \<le> unat p" and "unat i < 1024"
    and "unat (total_frames s) < 1048576"
  shows "used_set (set_entry p i v s) = used_set s"
proof -
  have lim: "frame_limit (set_entry p i v s) = frame_limit s" by (rule frame_limit_cong) simp
  have "used_at (set_entry p i v s) f \<longleftrightarrow> used_at s f" if "f < frame_limit s" for f
  proof -
    have "unat (word_of_nat f div 32 :: u32) < 32768"
      using that frame_limit_bounds(2) [OF assms(4)]
      by (simp add: unat_div unat_of_nat_small)
    with assms show ?thesis by (simp add: frame_used_def frame_bitmap_set_entry)
  qed
  with lim show ?thesis by (auto simp: used_set_def)
qed

lemma pmm_inv_set_entry:
  assumes "page_aligned p" and "0x200000 \<le> unat p" and "unat i < 1024" and "pmm_inv s"
  shows "pmm_inv (set_entry p i v s)"
  using assms pmm_invD [OF assms(4)] used_set_set_entry [OF assms(1-3) pmm_invD(1) [OF assms(4)], of v]
  by (intro pmm_invI) (auto simp: pmm_inv_def)

lemma entry_pmm_alloc:
  assumes "pmm_inv s" and "page_aligned p" and "0x200000 \<le> unat p" and "unat i < 1024"
  shows "entry (snd (pmm_alloc_frame s)) p i = entry s p i"
  unfolding entry_def using assms by (intro load32_alloc) (simp_all add: unat_entry_addr)

lemma pmm_alloc_frame_more [simp]:
  "current_directory (snd (pmm_alloc_frame s)) = current_directory s"
  "kernel_directory (snd (pmm_alloc_frame s)) = kernel_directory s"
  by (simp_all add: pmm_alloc_frame_def Let_def mark_frame_used_def set_frame_bitmap_def)

text \<open>Clearing a fresh page table.\<close>

abbreviation clear_table :: "u32 \<Rightarrow> 'a vmm_scheme \<Rightarrow> 'a vmm_scheme" where
  "clear_table p \<equiv> fold (\<lambda>i. set_entry p (word_of_nat i) 0) [0..<1024]"

lemma entry_clear_table:
  assumes "page_aligned p" and "page_aligned q" and "unat j < 1024"
  shows "entry (clear_table p s) q j = (if p = q then 0 else entry s q j)"
proof -
  have "entry (fold (\<lambda>i. set_entry p (word_of_nat i) 0) [0..<n] s) q j =
      (if p = q \<and> unat j < n then 0 else entry s q j)" if "n \<le> 1024" for n
    using that
  proof (induction n)
    case (Suc n)
    then have "unat (word_of_nat n :: u32) = n" by (simp add: unat_of_nat_small)
    with Suc assms show ?case by (auto simp: entry_set_entry u32_eq_iff_unat less_Suc_eq)
  qed simp
  from this [of 1024] show ?thesis using assms(3) by simp
qed

lemma clear_table_pmm:
  assumes "page_aligned p" and "0x200000 \<le> unat p" and "pmm_inv s"
  shows "pmm_inv (clear_table p s) \<and> used_set (clear_table p s) = used_set s \<and>
     total_frames (clear_table p s) = total_frames (s :: 'a vmm_scheme)"
proof (rule fold_upt_invariant [where P = "\<lambda>n t. pmm_inv t \<and> used_set t = used_set s \<and>
      total_frames t = total_frames s"])
  fix i and t :: "'a vmm_scheme" assume i: "i < (1024 :: nat)"
    and t: "pmm_inv t \<and> used_set t = used_set s \<and> total_frames t = total_frames s"
  have "unat (word_of_nat i :: u32) < 1024" using i by (simp add: unat_of_nat_small)
  with t assms show "pmm_inv (set_entry p (word_of_nat i) 0 t) \<and>
      used_set (set_entry p (word_of_nat i) 0 t) = used_set s \<and>
      total_frames (set_entry p (word_of_nat i) 0 t) = total_frames s"
    by (simp add: pmm_inv_set_entry used_set_set_entry pmm_invD)
qed (use assms in simp_all)

lemma clear_table_fields [simp]:
  "current_directory (fold (\<lambda>i. set_entry p (word_of_nat i) 0) is s) = current_directory s"
  "kernel_directory (fold (\<lambda>i. set_entry p (word_of_nat i) 0) is s) = kernel_directory s"
  by (induction "is" arbitrary: s) simp_all

section \<open>Well-formed address spaces\<close>

definition pd_present :: "'a vmm_scheme \<Rightarrow> u32 \<Rightarrow> bool" where
  "pd_present s i \<longleftrightarrow> entry s (current_directory s) i AND PAGE_PRESENT \<noteq> 0"

definition table_of :: "'a vmm_scheme \<Rightarrow> u32 \<Rightarrow> u32" where
  "table_of s i = entry s (current_directory s) i AND 0xFFFFF000"

text \<open>
  The directory and the tables it names are pages above 2 MiB owned in the frame allocator, and
  no page serves twice.
\<close>

definition table_frame :: "'a vmm_scheme \<Rightarrow> u32 \<Rightarrow> bool" where
  "table_frame s p \<longleftrightarrow> page_aligned p \<and> 0x200000 \<le> unat p \<and> p \<in> owned_frames s"

definition vmm_wf :: "'a vmm_scheme \<Rightarrow> bool" where
  "vmm_wf s \<longleftrightarrow> pmm_inv s \<and> table_frame s (current_directory s) \<and>
     (\<forall>i. unat i < 1024 \<and> pd_present s i \<longrightarrow>
        table_frame s (table_of s i) \<and> table_of s i \<noteq> current_directory s) \<and>
     (\<forall>i j. unat i < 1024 \<and> unat j < 1024 \<and> pd_present s i \<and> pd_present s j \<and>
        table_of s i = table_of s j \<longrightarrow> i = j)"

text \<open>The abstract address space: the page table entry of every page, 0 where no table exists.\<close>

definition pte :: "'a vmm_scheme \<Rightarrow> u32 \<Rightarrow> u32" where
  "pte s v = (if pd_present s (pd_index v) then entry s (table_of s (pd_index v)) (pt_index v) else 0)"

lemma vmm_get_physical_address_pte:
  "vmm_get_physical_address v s =
     (if pte s v AND PAGE_PRESENT = 0 then 0 else (pte s v AND 0xFFFFF000) + (v AND 0xFFF))"
  by (simp add: vmm_get_physical_address_def pte_def pd_present_def table_of_def Let_def)

lemma vmm_wfD:
  assumes "vmm_wf s"
  shows "pmm_inv s" and "page_aligned (current_directory s)" and "0x200000 \<le> unat (current_directory s)"
    and "current_directory s \<in> owned_frames s"
    and "unat i < 1024 \<Longrightarrow> pd_present s i \<Longrightarrow> 0x200000 \<le> unat (table_of s i)"
    and "unat i < 1024 \<Longrightarrow> pd_present s i \<Longrightarrow> table_of s i \<in> owned_frames s"
    and "unat i < 1024 \<Longrightarrow> pd_present s i \<Longrightarrow> table_of s i \<noteq> current_directory s"
    and "unat i < 1024 \<Longrightarrow> unat j < 1024 \<Longrightarrow> pd_present s i \<Longrightarrow> pd_present s j \<Longrightarrow>
      table_of s i = table_of s j \<Longrightarrow> i = j"
  using assms unfolding vmm_wf_def table_frame_def by blast+

lemma vmm_wfI:
  assumes "pmm_inv s" and "table_frame s (current_directory s)"
    and "\<And>i. unat i < 1024 \<Longrightarrow> pd_present s i \<Longrightarrow> table_frame s (table_of s i)"
    and "\<And>i. unat i < 1024 \<Longrightarrow> pd_present s i \<Longrightarrow> table_of s i \<noteq> current_directory s"
    and "\<And>i j. unat i < 1024 \<Longrightarrow> unat j < 1024 \<Longrightarrow> pd_present s i \<Longrightarrow> pd_present s j \<Longrightarrow>
      table_of s i = table_of s j \<Longrightarrow> i = j"
  shows "vmm_wf s"
  using assms unfolding vmm_wf_def by blast

lemma table_of_aligned [simp]: "page_aligned (table_of s i)"
  by (simp add: table_of_def)

lemma owned_frames_cong: "used_set s' = used_set s \<Longrightarrow> owned_frames s' = owned_frames s"
  by (simp add: owned_frames_def)

text \<open>Writing an entry of an existing table changes the address space at that page only.\<close>

lemma set_table_entry:
  fixes e :: u32
  assumes wf: "vmm_wf s" and pres: "pd_present s pdi" and i: "unat pdi < 1024" "unat pti < 1024"
  defines "s' \<equiv> set_entry (table_of s pdi) pti e s"
  shows "vmm_wf s'" and "used_set s' = used_set s" and "current_directory s' = current_directory s"
    and "unat j < 1024 \<Longrightarrow> pd_present s' j = pd_present s j"
    and "pte s' v = (if pd_index v = pdi \<and> pt_index v = pti then e else pte s v)"
proof -
  note d = vmm_wfD [OF wf]
  have T: "0x200000 \<le> unat (table_of s pdi)" "table_of s pdi \<noteq> current_directory s"
    using d(5,7) i pres by auto
  have dir: "entry s' (current_directory s) j = entry s (current_directory s) j" if "unat j < 1024" for j
    unfolding s'_def using T d(2) i that by (subst entry_set_entry) auto
  show cd: "current_directory s' = current_directory s" by (simp add: s'_def)
  show us: "used_set s' = used_set s"
    unfolding s'_def using T i d(1) by (intro used_set_set_entry) (simp_all add: pmm_invD)
  have pmm: "pmm_inv s'" unfolding s'_def using T i d(1) by (intro pmm_inv_set_entry) simp_all
  show pp: "pd_present s' j = pd_present s j" if "unat j < 1024" for j
    using dir [OF that] by (simp add: pd_present_def cd)
  have to: "table_of s' j = table_of s j" if "unat j < 1024" for j
    using dir [OF that] by (simp add: table_of_def cd)
  have own: "owned_frames s' = owned_frames s" by (rule owned_frames_cong [OF us])
  show "vmm_wf s'"
    by (rule vmm_wfI) (use pmm d in \<open>auto simp: table_frame_def own cd pp to\<close>)
  have "entry s' (table_of s (pd_index v)) (pt_index v) =
      (if pd_index v = pdi \<and> pt_index v = pti then e else entry s (table_of s (pd_index v)) (pt_index v))"
    if "pd_present s (pd_index v)"
    unfolding s'_def using d(8) [OF _ i(1) that pres] i
    by (subst entry_set_entry) auto
  then show "pte s' v = (if pd_index v = pdi \<and> pt_index v = pti then e else pte s v)"
    using pres by (auto simp: pte_def pp to)
qed

lemma alloc_table_frame:
  assumes "pmm_inv s" and "pmm_alloc_frame s = (p, s')" and "\<exists>f < frame_limit s. \<not> used_at s f"
  shows "p \<notin> owned_frames s" and "owned_frames s' = insert p (owned_frames s)" and "page_aligned p"
    and "0x200000 \<le> unat p" and "pmm_inv s'"
proof -
  from assms(3) have nf: "used_set s \<noteq> {..<frame_limit s}" by (auto simp: used_set_def)
  with pmm_alloc_frame_state [OF assms(1,2)] obtain f where f: "512 \<le> f" "f < 1048576"
    "p = word_of_nat f * 4096" by auto
  then have u: "unat p = f * 4096" by (simp add: frame_addr_unat)
  with f show "0x200000 \<le> unat p" by simp
  with u have "p \<noteq> 0" by auto
  from pmm_alloc.alloc_fresh [OF assms(1,2) this]
  show "p \<notin> owned_frames s" "owned_frames s' = insert p (owned_frames s)" "page_aligned p" by auto
  show "pmm_inv s'" using pmm_alloc_frame_inv [OF assms(1)] assms(2) by simp
qed

lemma table_entry_value:
  assumes "page_aligned p" and "flags AND 0xFFFFF000 = 0"
  shows "(p OR PAGE_PRESENT OR PAGE_WRITE OR flags) AND 0xFFFFF000 = p"
    and "(p OR PAGE_PRESENT OR PAGE_WRITE OR flags) AND PAGE_PRESENT \<noteq> 0"
proof -
  have "(PAGE_PRESENT OR PAGE_WRITE OR flags) AND 0xFFFFF000 = 0"
    using assms(2) by (simp add: bit.conj_disj_distrib2)
  from frame_of_entry [OF assms(1) this]
  show "(p OR PAGE_PRESENT OR PAGE_WRITE OR flags) AND 0xFFFFF000 = p" by (simp add: or.assoc)
  have "bit ((p OR PAGE_PRESENT OR PAGE_WRITE OR flags) AND PAGE_PRESENT) 0"
    by (simp add: bit_simps)
  then show "(p OR PAGE_PRESENT OR PAGE_WRITE OR flags) AND PAGE_PRESENT \<noteq> 0" by (metis bit_0_eq bot_apply bot_bool_def)
qed

text \<open>The on-demand allocation installs an empty table: the address space does not change.\<close>

lemma ensure_table_absent:
  assumes wf: "vmm_wf s" and fl: "flags AND 0xFFFFF000 = 0" and i: "unat pdi < 1024"
    and abs: "\<not> pd_present s pdi" and free: "\<exists>f < frame_limit s. \<not> used_at s f"
    and a: "pmm_alloc_frame s = (p, s0)"
  defines "s1 \<equiv> vmm_ensure_table pdi flags s"
  shows "vmm_wf s1" and "used_set s1 = used_set s0" and "current_directory s1 = current_directory s"
    and "unat j < 1024 \<Longrightarrow> pd_present s1 j \<longleftrightarrow> j = pdi \<or> pd_present s j"
    and "pte s1 v = pte s v" and "total_frames s1 = total_frames s0"
proof -
  note d = vmm_wfD [OF wf] and al = alloc_table_frame [OF vmm_wfD(1) [OF wf] a free]
  let ?E = "p OR PAGE_PRESENT OR PAGE_WRITE OR flags" and ?cd = "current_directory s"
  have cd0: "current_directory s0 = ?cd" using pmm_alloc_frame_more(1) [of s] a by simp
  let ?s2 = "set_entry ?cd pdi ?E s0"
  have s1: "s1 = clear_table p ?s2"
    using abs a by (simp add: s1_def vmm_ensure_table_def pd_present_def cd0)
  have ne: "?cd \<noteq> p" using al(1) d(4) by auto
  have inv2: "pmm_inv ?s2" "used_set ?s2 = used_set s0"
    using d(2,3) i al(5) by (simp_all add: pmm_inv_set_entry used_set_set_entry pmm_invD)
  have e: "entry s1 q j = (if q = p then 0 else if q = ?cd \<and> j = pdi then ?E else entry s q j)"
    if "page_aligned q" "0x200000 \<le> unat q" "unat j < 1024" for q j
    using that al(3) d(1,2) i entry_pmm_alloc [OF d(1) that] a unfolding s1
    by (auto simp: entry_clear_table entry_set_entry)
  show cd: "current_directory s1 = ?cd" by (simp add: s1 cd0)
  show us: "used_set s1 = used_set s0" and tf: "total_frames s1 = total_frames s0"
    unfolding s1 using clear_table_pmm [OF al(3,4) inv2(1)] inv2(2) by simp_all
  have pmm: "pmm_inv s1" unfolding s1 using clear_table_pmm [OF al(3,4) inv2(1)] by simp
  have own: "owned_frames s1 = insert p (owned_frames s)" using owned_frames_cong [OF us] al(2) by simp
  have dir: "entry s1 ?cd j = (if j = pdi then ?E else entry s ?cd j)" if "unat j < 1024" for j
    using e [OF d(2,3) that] ne by auto
  show pp: "pd_present s1 j \<longleftrightarrow> j = pdi \<or> pd_present s j" if "unat j < 1024" for j
    using dir [OF that] table_entry_value(2) [OF al(3) fl] by (simp add: pd_present_def cd)
  have to: "table_of s1 j = (if j = pdi then p else table_of s j)" if "unat j < 1024" for j
    using dir [OF that] table_entry_value(1) [OF al(3) fl] by (simp add: table_of_def cd)
  have notp: "table_of s j \<noteq> p" if "unat j < 1024" "pd_present s j" for j
    using d(6) [OF that] al(1) by auto
  show "vmm_wf s1"
    by (rule vmm_wfI) (use pmm d al ne notp in \<open>auto simp: table_frame_def own cd pp to split: if_splits\<close>)
  show "pte s1 v = pte s v"
  proof (cases "pd_index v = pdi")
    case True
    then show ?thesis using abs e [OF al(3,4) pt_index_less [of v]] i by (simp add: pte_def pp to)
  next
    case False
    show ?thesis
    proof (cases "pd_present s (pd_index v)")
      case True
      then have "entry s1 (table_of s (pd_index v)) (pt_index v) = entry s (table_of s (pd_index v)) (pt_index v)"
        using d(5,7) notp by (subst e) auto
      with True False show ?thesis by (simp add: pte_def pp to)
    qed (use False in \<open>simp add: pte_def pp\<close>)
  qed
qed

lemma ensure_table_present: "pd_present s pdi \<Longrightarrow> vmm_ensure_table pdi flags s = s"
  by (simp add: vmm_ensure_table_def pd_present_def)

section \<open>Mapping and unmapping a page\<close>

text \<open>A table for the page exists or a frame is free for it.\<close>

definition table_available :: "u32 \<Rightarrow> 'a vmm_scheme \<Rightarrow> bool" where
  "table_available v s \<longleftrightarrow> pd_present s (pd_index v) \<or> (\<exists>f < frame_limit s. \<not> used_at s f)"

lemma ensure_table_facts:
  assumes "vmm_wf s" and "flags AND 0xFFFFF000 = 0" and "table_available v s"
  defines "s1 \<equiv> vmm_ensure_table (pd_index v) flags s"
  shows "vmm_wf s1" and "pd_present s1 (pd_index v)" and "current_directory s1 = current_directory s"
    and "pte s1 v' = pte s v'"
proof -
  obtain p s0 where a: "pmm_alloc_frame s = (p, s0)" by (metis surj_pair)
  note absent = ensure_table_absent [OF assms(1,2) pd_index_less _ _ a]
  show "vmm_wf s1" and "pd_present s1 (pd_index v)" and "current_directory s1 = current_directory s"
    and "pte s1 v' = pte s v'"
    using assms(1,3) absent [of v]
    by (cases "pd_present s (pd_index v)";
        simp add: s1_def table_available_def ensure_table_present)+
qed

lemma vmm_map_page_facts:
  assumes "vmm_wf s" and "flags AND 0xFFFFF000 = 0" and "table_available v s"
  shows "vmm_wf (vmm_map_page v p flags s)"
    and "current_directory (vmm_map_page v p flags s) = current_directory s"
    and "pte (vmm_map_page v p flags s) v' =
      (if drop_bit 12 v' = drop_bit 12 v then (p AND 0xFFFFF000) OR flags else pte s v')"
proof -
  let ?s1 = "vmm_ensure_table (pd_index v) flags s"
  note e = ensure_table_facts [OF assms]
  have m: "vmm_map_page v p flags s =
      set_entry (table_of ?s1 (pd_index v)) (pt_index v) ((p AND 0xFFFFF000) OR flags) ?s1"
    by (simp add: vmm_map_page_def table_of_def Let_def)
  note st = set_table_entry [OF e(1,2) pd_index_less pt_index_less]
  show "vmm_wf (vmm_map_page v p flags s)" unfolding m by (rule st(1))
  show "current_directory (vmm_map_page v p flags s) = current_directory s"
    unfolding m by (simp add: e(3))
  show "pte (vmm_map_page v p flags s) v' =
      (if drop_bit 12 v' = drop_bit 12 v then (p AND 0xFFFFF000) OR flags else pte s v')"
    unfolding m st(5) e(4) indices_eq_iff ..
qed

lemma vmm_unmap_page_facts:
  assumes "vmm_wf s"
  shows "vmm_wf (vmm_unmap_page v s)"
    and "pte (vmm_unmap_page v s) v' = (if drop_bit 12 v' = drop_bit 12 v then 0 else pte s v')"
proof -
  have "pte s v' = 0" if "\<not> pd_present s (pd_index v)" "drop_bit 12 v' = drop_bit 12 v"
    using that indices_eq_iff [of v' v] by (simp add: pte_def)
  moreover have "vmm_unmap_page v s =
      (if pd_present s (pd_index v) then set_entry (table_of s (pd_index v)) (pt_index v) 0 s else s)"
    by (simp add: vmm_unmap_page_def pd_present_def table_of_def Let_def)
  ultimately show "vmm_wf (vmm_unmap_page v s)"
    and "pte (vmm_unmap_page v s) v' = (if drop_bit 12 v' = drop_bit 12 v then 0 else pte s v')"
    using assms set_table_entry [OF assms _ pd_index_less pt_index_less] indices_eq_iff [of v' v]
    by auto
qed

section \<open>The boot address space\<close>

lemma page_base_plus_offset: "((v :: u32) AND 0xFFFFF000) + (v AND 0xFFF) = v"
proof -
  have "(0xFFF :: u32) = mask 12" by (simp add: mask_numeral)
  then have d: "(v AND 0xFFFFF000) AND (v AND 0xFFF) = 0"
    and o: "(v AND 0xFFFFF000) OR (v AND 0xFFF) = v"
    unfolding frame_mask_eq by (auto intro!: bit_word_eqI simp: bit_simps)
  have "(v AND 0xFFFFF000) + (v AND 0xFFF) = (v AND 0xFFFFF000) OR (v AND 0xFFF)"
    using d by (intro disjunctive_add) (metis bit_and_iff bit_0_eq bot_apply bot_bool_def)
  with o show ?thesis by simp
qed

lemma page_number_unat: "unat (drop_bit 12 (v :: u32)) = unat v div 4096"
  by (simp add: drop_bit_eq_div unat_div)

lemma page_number_eq_iff:
  assumes "i < 1048576"
  shows "drop_bit 12 v = drop_bit 12 (word_of_nat i * 4096 :: u32) \<longleftrightarrow> unat v div 4096 = i"
  using assms unfolding u32_eq_iff_unat page_number_unat by (simp add: frame_addr_unat)

lemma page_base_cong: "drop_bit 12 v = drop_bit 12 v' \<Longrightarrow> (v :: u32) AND 0xFFFFF000 = v' AND 0xFFFFF000"
proof -
  have "(v :: u32) AND 0xFFFFF000 = push_bit 12 (drop_bit 12 v)" for v
    unfolding frame_mask_eq by (intro bit_word_eqI) (auto simp: bit_simps)
  then show "drop_bit 12 v = drop_bit 12 v' \<Longrightarrow> v AND 0xFFFFF000 = v' AND 0xFFFFF000" by metis
qed

text \<open>The state of the identity-mapping loop after \<open>i\<close> pages.\<close>

definition identity_upto :: "nat \<Rightarrow> 'a vmm_scheme \<Rightarrow> bool" where
  "identity_upto i t \<longleftrightarrow> vmm_wf t \<and> current_directory t = 0x200000 \<and>
     used_set t = {..<513 + (i + 1023) div 1024} \<and>
     (\<forall>j. unat j < 1024 \<longrightarrow> (pd_present t j \<longleftrightarrow> unat j < (i + 1023) div 1024)) \<and>
     (\<forall>v. pte t v = (if unat v < i * 4096 then (v AND 0xFFFFF000) OR 3 else 0))"

lemma identity_step_pte:
  assumes "i < 1048576" and "\<forall>v. pte t v = (if unat v < i * 4096 then (v AND 0xFFFFF000) OR 3 else 0)"
    and "\<And>v. pte t' v = (if drop_bit 12 v = drop_bit 12 (word_of_nat i * 4096)
           then (word_of_nat i * 4096 AND 0xFFFFF000) OR 3 else pte t v)"
  shows "pte t' v = (if unat v < Suc i * 4096 then (v AND 0xFFFFF000) OR 3 else 0)"
proof -
  consider "unat v < i * 4096" | "unat v div 4096 = i" | "Suc i * 4096 \<le> unat v"
    by (metis div_less_iff_less_mult less_Suc_eq not_less zero_less_numeral)
  then show ?thesis
  proof cases
    case 1
    then have "unat v div 4096 \<noteq> i" by (metis div_less_iff_less_mult less_irrefl zero_less_numeral)
    with 1 assms show ?thesis by (simp add: page_number_eq_iff)
  next
    case 2
    then have e: "drop_bit 12 v = drop_bit 12 (word_of_nat i * 4096)"
      using page_number_eq_iff [OF assms(1)] by simp
    have "unat v < Suc i * 4096"
      using 2 by (metis div_less_iff_less_mult lessI zero_less_numeral)
    then show ?thesis using page_base_cong [OF e] assms(3) [of v] e by simp
  next
    case 3
    then have "unat v div 4096 \<noteq> i" by (metis div_less_iff_less_mult less_Suc_eq not_less zero_less_numeral)
    with 3 assms show ?thesis by (simp add: page_number_eq_iff)
  qed
qed

lemma unat_pd_index: "unat (pd_index v) = unat v div 4194304"
  by (simp add: pd_index_def drop_bit_eq_div unat_div)

lemma table_count_step:
  fixes i :: nat
  shows "i mod 1024 \<noteq> 0 \<Longrightarrow> (Suc i + 1023) div 1024 = (i + 1023) div 1024"
    and "i mod 1024 = 0 \<Longrightarrow> (i + 1023) div 1024 = i div 1024"
    and "i mod 1024 = 0 \<Longrightarrow> (Suc i + 1023) div 1024 = Suc (i div 1024)"
    and "i div 1024 < (i + 1023) div 1024 \<longleftrightarrow> i mod 1024 \<noteq> 0"
proof -
  define q r where "q = i div 1024" and "r = i mod 1024"
  have i: "i = 1024 * q + r" and r: "r < 1024" by (simp_all add: q_def r_def)
  have a: "(Suc i + 1023) div 1024 = q + 1" "(i + 1023) div 1024 = (if r = 0 then q else q + 1)"
    using r unfolding i by (auto simp: div_nat_eqI)
  then show "i mod 1024 \<noteq> 0 \<Longrightarrow> (Suc i + 1023) div 1024 = (i + 1023) div 1024"
    "i mod 1024 = 0 \<Longrightarrow> (i + 1023) div 1024 = i div 1024"
    "i mod 1024 = 0 \<Longrightarrow> (Suc i + 1023) div 1024 = Suc (i div 1024)"
    "i div 1024 < (i + 1023) div 1024 \<longleftrightarrow> i mod 1024 \<noteq> 0"
    by (simp_all add: q_def r_def)
qed

lemma vmm_ensure_table_kernel_directory:
  "kernel_directory (vmm_ensure_table i flags s) = kernel_directory s"
  using pmm_alloc_frame_more(2) [of s]
  by (simp add: vmm_ensure_table_def split_def Let_def)

text \<open>One page of the identity map, first the table it needs: every 1024th page takes the next free
  frame, the others find the table present.\<close>

lemma identity_room:
  assumes "i < 2048" and "515 \<le> frame_limit t" and "i mod 1024 = 0"
  shows "513 + (i + 1023) div 1024 < frame_limit t"
proof -
  have "i div 1024 < 2" using assms(1) by simp
  then show ?thesis using assms(2,3) by (simp add: table_count_step)
qed

lemma identity_pd:
  assumes P: "identity_upto i t" and i: "i < 2048"
  defines "v \<equiv> word_of_nat i * 4096 :: u32"
  shows "unat (pd_index v) = i div 1024" and "pd_present t (pd_index v) \<longleftrightarrow> i mod 1024 \<noteq> 0"
proof -
  show pdi: "unat (pd_index v) = i div 1024" using i by (simp add: unat_pd_index v_def frame_addr_unat)
  have pd: "unat j < 1024 \<Longrightarrow> pd_present t j \<longleftrightarrow> unat j < (i + 1023) div 1024" for j
    using P by (auto simp: identity_upto_def)
  show "pd_present t (pd_index v) \<longleftrightarrow> i mod 1024 \<noteq> 0"
    unfolding pd [OF pd_index_less] pdi by (rule table_count_step)
qed

lemma identity_table_available:
  assumes P: "identity_upto i t" and i: "i < 2048" and lim: "515 \<le> frame_limit t"
  shows "table_available (word_of_nat i * 4096) t"
proof (cases "i mod 1024 = 0")
  case True
  let ?n = "513 + (i + 1023) div 1024"
  note room = identity_room [OF i lim True]
  have "?n \<notin> used_set t" using P by (simp add: identity_upto_def)
  with room have "\<not> used_at t ?n" unfolding used_set_def by blast
  with room show ?thesis unfolding table_available_def by blast
qed (simp add: identity_pd(2) [OF P i] table_available_def)

lemma identity_ensure_table:
  assumes P: "identity_upto i t" and i: "i < 2048" and lim: "515 \<le> frame_limit t"
  defines "s1 \<equiv> vmm_ensure_table (pd_index (word_of_nat i * 4096)) 3 t"
  shows "used_set s1 = {..<513 + (Suc i + 1023) div 1024} \<and> total_frames s1 = total_frames t \<and>
      kernel_directory s1 = kernel_directory t \<and>
      (\<forall>j. unat j < 1024 \<longrightarrow> (pd_present s1 j \<longleftrightarrow> unat j < (Suc i + 1023) div 1024))"
proof -
  let ?v = "word_of_nat i * 4096 :: u32" and ?n = "513 + (i + 1023) div 1024"
  from P have wf: "vmm_wf t" and us: "used_set t = {..<?n}"
    and pd: "\<And>j. unat j < 1024 \<Longrightarrow> pd_present t j \<longleftrightarrow> unat j < (i + 1023) div 1024"
    by (auto simp: identity_upto_def)
  note pdi = identity_pd [OF P i]
  show ?thesis
  proof (cases "i mod 1024 = 0")
    case False
    then have p: "pd_present t (pd_index ?v)" using pdi(2) by simp
    show ?thesis unfolding s1_def ensure_table_present [OF p] table_count_step(1) [OF False] using us pd by simp
  next
    case True
    obtain s0 where a: "pmm_alloc_frame t = (word_of_nat ?n * 4096, s0)"
      "used_set s0 = {..<Suc ?n}" "total_frames s0 = total_frames t"
      by (rule pmm_alloc_frame_next [OF vmm_wfD(1) [OF wf] us identity_room [OF i lim True]])
    have free: "\<exists>f < frame_limit t. \<not> used_at t f" and np: "\<not> pd_present t (pd_index ?v)"
      using identity_table_available [OF P i lim] True pdi(2) by (auto simp: table_available_def)
    have fl: "(3 :: u32) AND 0xFFFFF000 = 0" by simp
    note ab = ensure_table_absent [OF wf fl pd_index_less np free a(1)]
    have c: "?n = 513 + i div 1024" "(Suc i + 1023) div 1024 = Suc (i div 1024)"
      using True by (simp_all add: table_count_step del: add_Suc)
    have "pd_present s1 j \<longleftrightarrow> unat j < (Suc i + 1023) div 1024" if "unat j < 1024" for j
      unfolding s1_def ab(4) [OF that] c(2) using pd [OF that] True
      by (auto simp: u32_eq_iff_unat pdi(1) table_count_step(2) less_Suc_eq)
    then show ?thesis using ab(2,6) a(2,3) c np by (simp add: vmm_ensure_table_kernel_directory s1_def)
  qed
qed

lemma identity_step:
  assumes P: "identity_upto i t" and i: "i < 2048" and lim: "515 \<le> frame_limit t"
  defines "t' \<equiv> vmm_map_page (word_of_nat i * 4096) (word_of_nat i * 4096) 3 t"
  shows "identity_upto (Suc i) t'" and "total_frames t' = total_frames t"
    and "kernel_directory t' = kernel_directory t"
proof -
  let ?v = "word_of_nat i * 4096 :: u32"
  from P have wf: "vmm_wf t" and cd: "current_directory t = 0x200000"
    and pt: "\<forall>v. pte t v = (if unat v < i * 4096 then (v AND 0xFFFFF000) OR 3 else 0)"
    by (auto simp: identity_upto_def)
  have avail: "table_available ?v t" by (rule identity_table_available [OF P i lim])
  have fl: "(3 :: u32) AND 0xFFFFF000 = 0" by simp
  note m = vmm_map_page_facts [OF wf fl avail, of ?v]
  let ?s1 = "vmm_ensure_table (pd_index ?v) 3 t"
  note e = ensure_table_facts [OF wf fl avail]
  note st = set_table_entry [OF e(1,2) pd_index_less pt_index_less]
  have t': "t' = set_entry (table_of ?s1 (pd_index ?v)) (pt_index ?v) ((?v AND 0xFFFFF000) OR 3) ?s1"
    by (simp add: t'_def vmm_map_page_def table_of_def Let_def)
  note s1 = identity_ensure_table [OF P i lim]
  show "total_frames t' = total_frames t" "kernel_directory t' = kernel_directory t"
    using s1 by (simp_all add: t')
  have "pte t' v = (if unat v < Suc i * 4096 then (v AND 0xFFFFF000) OR 3 else 0)" for v
    using i pt m(3) by (intro identity_step_pte [of i t]) (simp_all add: t'_def)
  moreover have "pd_present t' j = pd_present ?s1 j" if "unat j < 1024" for j
    unfolding t' by (rule st(4) [OF that])
  moreover have "used_set t' = used_set ?s1" unfolding t' by (rule st(2))
  ultimately show "identity_upto (Suc i) t'"
    unfolding identity_upto_def using m(1,2) cd s1 by (simp add: t'_def)
qed

lemma pmm_alloc_frame_more2 [simp]:
  "cr3 (snd (pmm_alloc_frame s)) = cr3 s"
  "paging_enabled (snd (pmm_alloc_frame s)) = paging_enabled s"
  by (simp_all add: pmm_alloc_frame_def Let_def mark_frame_used_def set_frame_bitmap_def)

text \<open>Clearing the directory page with \<^verbatim>\<open>memset\<close> does not reach the bitmap.\<close>

lemma frame_bitmap_memset_page:
  assumes "page_aligned p" and "0x200000 \<le> unat p" and "unat w < 32768"
  shows "frame_bitmap (s\<lparr>ram := memset (ram s) p 0 4096\<rparr>) w = frame_bitmap s w"
proof -
  have b: "memset (ram s) p 0 4096 (BITMAP_BASE_ADDR + 4 * w + word_of_nat k) =
      ram s (BITMAP_BASE_ADDR + 4 * w + word_of_nat k)" if k: "k < 4" for k
  proof -
    have "BITMAP_BASE_ADDR + 4 * w + word_of_nat k \<noteq> p + word_of_nat i" if "i < 4096" for i
    proof
      assume "BITMAP_BASE_ADDR + 4 * w + word_of_nat k = p + word_of_nat i"
      then have "0x100000 + 4 * unat w + k = unat p + i"
        using aligned4_unat_add [OF bm_addr_aligned [of w] k] bm_addr_unat [of w] assms(3)
          page_aligned_offset [OF assms(1) that] by simp
      with assms k show False by linarith
    qed
    then have no: "\<not> (\<exists>i < unat (4096 :: u32). BITMAP_BASE_ADDR + 4 * w + word_of_nat k = p + word_of_nat i)"
      by auto
    show ?thesis unfolding memset_apply using no by (simp only: if_False)
  qed
  show ?thesis
    unfolding frame_bitmap_def using b [of 0] b [of 1] b [of 2] b [of 3]
    by (simp add: load32_cong [of "memset (ram s) p 0 4096" _ "ram s"] del: BITMAP_BASE_ADDR_def)
qed

lemma used_set_memset_page:
  assumes "page_aligned p" and "0x200000 \<le> unat p" and "unat (total_frames s) < 1048576"
  shows "used_set (s\<lparr>ram := memset (ram s) p 0 4096\<rparr>) = used_set s"
proof -
  let ?t = "s\<lparr>ram := memset (ram s) p 0 4096\<rparr>"
  have lim: "frame_limit ?t = frame_limit s" by (rule frame_limit_cong) simp
  have "used_at ?t f \<longleftrightarrow> used_at s f" if "f < frame_limit s" for f
  proof -
    have "unat (word_of_nat f div 32 :: u32) < 32768"
      using that frame_limit_bounds(2) [OF assms(3)] by (simp add: unat_div unat_of_nat_small)
    with assms show ?thesis by (simp add: frame_used_def frame_bitmap_memset_page)
  qed
  with lim show ?thesis by (auto simp: used_set_def)
qed

lemma used_set_directory_update [simp]:
  "used_set (s\<lparr>current_directory := d\<rparr>) = used_set s"
  "used_set (s\<lparr>kernel_directory := d\<rparr>) = used_set s"
  by (simp_all add: used_set_def frame_limit_def bitmap_words_def frame_used_def frame_bitmap_def)

lemma pmm_inv_cong:
  assumes "pmm_inv s" and "used_set s' = used_set s" and "total_frames s' = total_frames s"
    and "used_frames s' = used_frames s"
  shows "pmm_inv s'"
  using assms pmm_invD(3) [OF assms(1)] by (intro pmm_invI) (auto simp: pmm_inv_def)

text \<open>The state in which the identity-mapping loop starts: an empty directory at 2 MiB.\<close>

lemma identity_start:
  assumes inv: "pmm_inv s" and us: "used_set s = {..<512}" and lim: "515 \<le> frame_limit s"
    and a: "pmm_alloc_frame s = (pd, s1)"
  defines "t \<equiv> s1\<lparr>kernel_directory := pd, ram := memset (ram s1) pd 0 4096, current_directory := pd\<rparr>"
  shows "identity_upto 0 t" and "total_frames t = total_frames s" and "kernel_directory t = 0x200000"
proof -
  obtain s' where s': "pmm_alloc_frame s = (word_of_nat 512 * 4096, s')" "pmm_inv s'"
    "used_set s' = {..<Suc 512}" "total_frames s' = total_frames s"
    by (rule pmm_alloc_frame_next [OF inv us]) (use lim in simp_all)
  then have pd: "pd = 0x200000" and s1: "s1 = s'" using a by auto
  have al: "page_aligned pd" "0x200000 \<le> unat pd" by (simp_all add: pd page_aligned_def)
  have ust: "used_set t = {..<513}"
    using s'(3) used_set_memset_page [OF al, of "s1\<lparr>kernel_directory := pd\<rparr>"] pmm_invD(1) [OF s'(2)]
    by (simp add: t_def s1)
  show tf: "total_frames t = total_frames s" using s'(4) by (simp add: t_def s1)
  have inv_t: "pmm_inv t"
    by (rule pmm_inv_cong [OF s'(2)]) (use ust s'(3) in \<open>simp_all add: t_def s1\<close>)
  have e: "entry t pd j = 0" if "unat j < 1024" for j
    using load32_memset_page [OF al(1) al(1) that] by (simp add: entry_def t_def)
  have np: "\<not> pd_present t j" if "unat j < 1024" for j
    using e [OF that] by (simp add: pd_present_def t_def)
  have "word_of_nat 512 * 4096 \<in> owned_frames t"
    unfolding owned_frames_def ust by (rule imageI) simp
  then have "table_frame t (current_directory t)"
    using al by (simp add: table_frame_def t_def pd)
  then have "vmm_wf t" using inv_t np by (intro vmm_wfI) auto
  then show "identity_upto 0 t"
    using ust np by (simp add: identity_upto_def pte_def t_def pd)
  show "kernel_directory t = 0x200000" by (simp add: t_def pd)
qed

lemma identity_run:
  assumes "identity_upto 0 t" and "515 \<le> frame_limit t" and "kernel_directory t = d"
  shows "identity_upto 2048 (fold (\<lambda>i. vmm_map_page (word_of_nat i * PAGE_SIZE) (word_of_nat i * PAGE_SIZE)
     (PAGE_PRESENT OR PAGE_WRITE)) [0..<2048] t) \<and>
     kernel_directory (fold (\<lambda>i. vmm_map_page (word_of_nat i * PAGE_SIZE) (word_of_nat i * PAGE_SIZE)
     (PAGE_PRESENT OR PAGE_WRITE)) [0..<2048] t) = d"
proof -
  let ?f = "\<lambda>i. vmm_map_page (word_of_nat i * PAGE_SIZE) (word_of_nat i * PAGE_SIZE) (PAGE_PRESENT OR PAGE_WRITE)"
  have "identity_upto 2048 (fold ?f [0..<2048] t) \<and>
      total_frames (fold ?f [0..<2048] t) = total_frames t \<and> kernel_directory (fold ?f [0..<2048] t) = d"
  proof (rule fold_upt_invariant [where P = "\<lambda>i u. identity_upto i u \<and> total_frames u = total_frames t \<and>
        kernel_directory u = d"])
    fix i u assume "i < (2048 :: nat)"
      and "identity_upto i u \<and> total_frames u = total_frames t \<and> kernel_directory u = d"
    then show "identity_upto (Suc i) (?f i u) \<and> total_frames (?f i u) = total_frames t \<and>
        kernel_directory (?f i u) = d"
      using identity_step [of i u] assms(2) frame_limit_cong [of u t] by simp
  qed (use assms in simp_all)
  then show ?thesis by simp
qed

section \<open>The address space as an interface\<close>

text \<open>
  What the heap relies on: mapping and unmapping are updates of one page of a lookup function,
  as long as a page table is available for the page.
\<close>

locale address_space =
  fixes map_page :: "u32 \<Rightarrow> u32 \<Rightarrow> 's \<Rightarrow> 's" and unmap_page :: "u32 \<Rightarrow> 's \<Rightarrow> 's"
    and lookup :: "'s \<Rightarrow> u32 \<Rightarrow> u32" and wf :: "'s \<Rightarrow> bool" and room :: "u32 \<Rightarrow> 's \<Rightarrow> bool"
  assumes map_wf: "wf s \<Longrightarrow> room v s \<Longrightarrow> wf (map_page v p s)"
    and map_lookup: "wf s \<Longrightarrow> room v s \<Longrightarrow> lookup (map_page v p s) v' =
      (if drop_bit 12 v' = drop_bit 12 v then (p AND 0xFFFFF000) OR 3 else lookup s v')"
    and map_room: "wf s \<Longrightarrow> room v s \<Longrightarrow> room v (map_page v p s)"
    and unmap_wf: "wf s \<Longrightarrow> wf (unmap_page v s)"
    and unmap_lookup: "wf s \<Longrightarrow> lookup (unmap_page v s) v' =
      (if drop_bit 12 v' = drop_bit 12 v then 0 else lookup s v')"
begin

lemma unmap_map_lookup:
  "wf s \<Longrightarrow> room v s \<Longrightarrow> lookup (unmap_page v (map_page v p s)) v' = lookup (unmap_page v s) v'"
  by (simp add: map_wf map_lookup unmap_lookup)

lemma remap_lookup:
  "wf s \<Longrightarrow> room v s \<Longrightarrow> lookup (map_page v q (map_page v p s)) v' = lookup (map_page v q s) v'"
  by (simp add: map_wf map_room map_lookup)

lemma map_commute_lookup:
  assumes "wf s" and "room v s" and "room w s" and "room w (map_page v p s)" and "room v (map_page w q s)"
    and "drop_bit 12 v \<noteq> drop_bit 12 w"
  shows "lookup (map_page w q (map_page v p s)) v' = lookup (map_page v p (map_page w q s)) v'"
  using assms by (auto simp: map_wf map_lookup)

end

lemma pte_table_available_map:
  assumes "vmm_wf s" and "table_available v s"
  shows "table_available v (vmm_map_page v p 3 s)"
proof -
  let ?s1 = "vmm_ensure_table (pd_index v) 3 s"
  note e = ensure_table_facts [OF assms(1) _ assms(2), of 3]
  have m: "vmm_map_page v p 3 s =
      set_entry (table_of ?s1 (pd_index v)) (pt_index v) ((p AND 0xFFFFF000) OR 3) ?s1"
    by (simp add: vmm_map_page_def table_of_def Let_def)
  have "pd_present (vmm_map_page v p 3 s) (pd_index v)"
    unfolding m using e(1,2) set_table_entry(4) [OF e(1,2) pd_index_less pt_index_less pd_index_less] by simp
  then show ?thesis by (simp add: table_available_def)
qed

interpretation kspace: address_space "\<lambda>v p. vmm_map_page v p 3" vmm_unmap_page pte vmm_wf table_available
proof
  fix s :: "'a vmm_scheme" and v p v'
  show "vmm_wf (vmm_map_page v p 3 s)" if "vmm_wf s" "table_available v s"
    using vmm_map_page_facts(1) [OF that(1) _ that(2), of 3] by simp
  show "pte (vmm_map_page v p 3 s) v' =
      (if drop_bit 12 v' = drop_bit 12 v then p AND 0xFFFFF000 OR 3 else pte s v')"
    if "vmm_wf s" "table_available v s"
    using vmm_map_page_facts(3) [OF that(1) _ that(2), of 3] by simp
  show "table_available v (vmm_map_page v p 3 s)" if "vmm_wf s" "table_available v s"
    using that by (rule pte_table_available_map)
qed (rule vmm_unmap_page_facts, assumption)+

section \<open>Initialisation\<close>

text \<open>The address space is a function of the memory, the allocator's counters and the directory.\<close>

lemma vmm_view_cong:
  assumes r: "ram s' = ram s" and tf: "total_frames s' = total_frames s"
    and uf: "used_frames s' = used_frames s" and cd: "current_directory s' = current_directory s"
  shows "vmm_wf s' = vmm_wf s" and "pte s' = pte s" and "used_set s' = used_set s"
    and "pd_present s' = pd_present s" and "frame_limit s' = frame_limit s"
    and "vmm_get_physical_address v s' = vmm_get_physical_address v s"
proof -
  have f: "frame_bitmap s' = frame_bitmap s" by (rule ext) (simp add: frame_bitmap_def r)
  have e: "entry s' = entry s" by (rule ext)+ (simp add: entry_def r)
  show us: "used_set s' = used_set s" and "frame_limit s' = frame_limit s"
    by (simp_all add: used_set_def frame_limit_def bitmap_words_def frame_used_def f tf)
  show pd: "pd_present s' = pd_present s" by (rule ext) (simp add: pd_present_def e cd)
  have to: "table_of s' = table_of s" by (rule ext) (simp add: table_of_def e cd)
  show "pte s' = pte s" by (intro ext) (simp add: pte_def pd to e)
  have "table_frame s' = table_frame s" by (rule ext) (simp add: table_frame_def owned_frames_def us)
  moreover have "frame_used s' = frame_used s" by (rule ext) (simp add: frame_used_def f)
  ultimately show "vmm_wf s' = vmm_wf s"
    unfolding vmm_wf_def pmm_inv_def us uf tf cd pd to by simp
  show "vmm_get_physical_address v s' = vmm_get_physical_address v s"
    by (simp add: vmm_get_physical_address_def e cd Let_def)
qed

lemma enable_paging_fields:
  "ram (enable_paging d s) = ram s" "total_frames (enable_paging d s) = total_frames s"
  "used_frames (enable_paging d s) = used_frames s" "current_directory (enable_paging d s) = current_directory s"
  "kernel_directory (enable_paging d s) = kernel_directory s"
  by (simp_all add: enable_paging_def)

lemmas enable_paging_wf [simp] = enable_paging_fields(2,4,5)
  vmm_view_cong [of "enable_paging d s" s for d s, OF enable_paging_fields(1-4)]

lemma vmm_init_facts:
  assumes inv: "pmm_inv s" and us: "used_set s = {..<512}" and lim: "515 \<le> frame_limit s"
  shows "vmm_wf (vmm_init s)" and "used_set (vmm_init s) = {..<515}"
    and "pte (vmm_init s) v = (if unat v < 0x800000 then (v AND 0xFFFFF000) OR 3 else 0)"
    and "current_directory (vmm_init s) = 0x200000" and "kernel_directory (vmm_init s) = 0x200000"
    and "cr3 (vmm_init s) = 0x200000" and "paging_enabled (vmm_init s)"
    and "unat i < 1024 \<Longrightarrow> pd_present (vmm_init s) i \<longleftrightarrow> unat i < 2"
proof -
  obtain pd s1 where a: "pmm_alloc_frame s = (pd, s1)" by (metis surj_pair)
  define t where "t = s1\<lparr>kernel_directory := pd, ram := memset (ram s1) pd 0 4096, current_directory := pd\<rparr>"
  let ?f = "\<lambda>i. vmm_map_page (word_of_nat i * PAGE_SIZE) (word_of_nat i * PAGE_SIZE) (PAGE_PRESENT OR PAGE_WRITE)"
  define u where "u = fold ?f [0..<2048] t"
  note st = identity_start [OF inv us lim a, folded t_def]
  have "515 \<le> frame_limit t" using lim frame_limit_cong [OF st(2)] by simp
  from identity_run [OF st(1) this st(3)]
  have run: "identity_upto 2048 u" and kd: "kernel_directory u = 0x200000" unfolding u_def by auto
  let ?w = "vmm_map_page 0xB8000 0xB8000 3 u"
  have ini: "vmm_init s = enable_paging (kernel_directory ?w) ?w"
    by (simp add: vmm_init_def a Let_def t_def u_def)
  from run have wf: "vmm_wf u" and cd: "current_directory u = 0x200000" and uu: "used_set u = {..<515}"
    and pd: "pd_present u (pd_index 0xB8000)"
    and pt: "\<And>v. pte u v = (if unat v < 0x800000 then (v AND 0xFFFFF000) OR 3 else 0)"
    by (simp_all add: identity_upto_def unat_pd_index)
  have av: "table_available 0xB8000 u" using pd by (simp add: table_available_def)
  note m = vmm_map_page_facts [OF wf _ av, of 3 "0xB8000"]
  have w: "?w = set_entry (table_of u (pd_index 0xB8000)) (pt_index 0xB8000) ((0xB8000 AND 0xFFFFF000) OR 3) u"
    using ensure_table_present [OF pd] by (simp add: vmm_map_page_def table_of_def Let_def)
  have kw: "kernel_directory ?w = 0x200000" unfolding w by (simp add: kd)
  show "vmm_wf (vmm_init s)" "current_directory (vmm_init s) = 0x200000" "kernel_directory (vmm_init s) = 0x200000"
    "cr3 (vmm_init s) = 0x200000" "paging_enabled (vmm_init s)"
    using m(1,2) cd kw unfolding ini by (simp_all) (simp_all add: enable_paging_def)
  show "used_set (vmm_init s) = {..<515}"
    unfolding ini enable_paging_wf w set_table_entry(2) [OF wf pd pd_index_less pt_index_less] by (rule uu)
  show "pd_present (vmm_init s) i \<longleftrightarrow> unat i < 2" if "unat i < 1024"
    unfolding ini enable_paging_wf w set_table_entry(4) [OF wf pd pd_index_less pt_index_less that]
    using run that by (simp add: identity_upto_def)
  show "pte (vmm_init s) v = (if unat v < 0x800000 then (v AND 0xFFFFF000) OR 3 else 0)"
  proof (cases "drop_bit 12 v = drop_bit 12 (0xB8000 :: u32)")
    case True
    then have "v AND 0xFFFFF000 = 0xB8000 AND 0xFFFFF000" by (rule page_base_cong)
    moreover have "unat v div 4096 = 184" using True page_number_unat [of v] page_number_unat [of "0xB8000"] by simp
    then have "unat v < 0x800000" by simp
    ultimately show ?thesis unfolding ini enable_paging_wf using m(3) True by simp
  next
    case False
    then show ?thesis unfolding ini enable_paging_wf using m(3) pt by simp
  qed
qed

text \<open>Taking a frame for another purpose does not disturb the address space.\<close>

lemma vmm_alloc_frame_facts:
  assumes wf: "vmm_wf s"
  defines "s' \<equiv> snd (pmm_alloc_frame s)"
  shows "vmm_wf s'" and "pte s' = pte s" and "unat i < 1024 \<Longrightarrow> pd_present s' i = pd_present s i"
proof -
  note d = vmm_wfD [OF wf]
  have cd: "current_directory s' = current_directory s" by (simp add: s'_def)
  have e: "entry s' q j = entry s q j" if "page_aligned q" "0x200000 \<le> unat q" "unat j < 1024" for q j
    unfolding s'_def by (rule entry_pmm_alloc [OF d(1) that])
  show pp: "pd_present s' i = pd_present s i" if "unat i < 1024" for i
    using e [OF d(2,3) that] by (simp add: pd_present_def cd)
  have to: "table_of s' i = table_of s i" if "unat i < 1024" for i
    using e [OF d(2,3) that] by (simp add: table_of_def cd)
  have own: "owned_frames s \<subseteq> owned_frames s'"
    unfolding s'_def by (rule pmm_alloc.alloc_owned_mono [OF d(1)])
  have inv: "pmm_inv s'" unfolding s'_def by (rule pmm_alloc.alloc_inv [OF d(1)])
  show "vmm_wf s'"
    by (rule vmm_wfI) (use inv own d in \<open>auto simp: table_frame_def cd pp to\<close>)
  show "pte s' = pte s"
    by (rule ext) (use d(5) in \<open>simp add: pte_def pp to e\<close>)
qed

lemma vmm_alloc_many_facts:
  "vmm_wf s \<Longrightarrow> vmm_wf (snd (pmm_alloc.alloc_many n s)) \<and> pte (snd (pmm_alloc.alloc_many n s)) = pte s \<and>
     (\<forall>i. unat i < 1024 \<longrightarrow> pd_present (snd (pmm_alloc.alloc_many n s)) i = pd_present s i)"
proof (induction n arbitrary: s)
  case (Suc n)
  show ?case using Suc.IH [OF vmm_alloc_frame_facts(1) [OF Suc.prems]] vmm_alloc_frame_facts [OF Suc.prems]
    by (simp add: split_def Let_def)
qed simp

section \<open>Properties\<close>

text \<open>A 32 MiB machine after the boot sequence \<^verbatim>\<open>pmm_init\<close>, \<^verbatim>\<open>vmm_init\<close>.\<close>

definition vmm_reset :: vmm where
  "vmm_reset = \<lparr>ram = (\<lambda>_. 7), total_frames = 0, used_frames = 0, current_directory = 0,
     kernel_directory = 0, cr3 = 0, paging_enabled = False\<rparr>"

definition vmm_32MiB :: vmm where
  "vmm_32MiB = vmm_init (pmm_init 0x2000000 vmm_reset)"

lemma pmm_init_boot:
  assumes "0x203000 \<le> m"
  shows "pmm_inv (pmm_init m s)" and "used_set (pmm_init m s) = {..<512}"
    and "515 \<le> frame_limit (pmm_init m s)"
proof -
  have m: "0x200000 \<le> m" using assms by (simp add: word_le_nat_alt)
  then show "pmm_inv (pmm_init m s)" "used_set (pmm_init m s) = {..<512}"
    by (rule pmm_init_inv, rule used_set_pmm_init)
  have "515 \<le> unat (total_frames (pmm_init m s))"
    using assms div_le_mono [of "0x203000" "unat m" 4096] by (simp add: unat_div word_le_nat_alt)
  then show "515 \<le> frame_limit (pmm_init m s)"
    using frame_limit_bounds(1) [OF unat_total_frames_init] by (rule order_trans)
qed

lemma vmm_32MiB_facts:
  "vmm_wf vmm_32MiB" "used_set vmm_32MiB = {..<515}"
  "pte vmm_32MiB v = (if unat v < 0x800000 then (v AND 0xFFFFF000) OR 3 else 0)"
  unfolding vmm_32MiB_def using vmm_init_facts [OF pmm_init_boot [of "0x2000000" vmm_reset]] by simp_all

lemma pmm_alloc_frame_total_frames [simp]: "total_frames (snd (pmm_alloc_frame s)) = total_frames s"
  by (simp add: pmm_alloc_frame_def Let_def)

lemma clear_table_total_frames [simp]:
  "total_frames (fold (\<lambda>i. set_entry p (word_of_nat i) 0) is s) = total_frames s"
  by (induction "is" arbitrary: s) simp_all

lemma vmm_map_page_total_frames [simp]: "total_frames (vmm_map_page v p fl s) = total_frames s"
  by (simp add: vmm_map_page_def vmm_ensure_table_def split_def Let_def)

lemma vmm_init_total_frames: "total_frames (vmm_init s) = total_frames s"
proof -
  have "total_frames (fold (\<lambda>i. vmm_map_page (a i) (b i) fl) is s) = total_frames s"
    for a b fl and "is" :: "nat list" and s :: "'a vmm_scheme"
    by (induction "is" arbitrary: s) simp_all
  then show ?thesis by (simp add: vmm_init_def split_def Let_def)
qed

lemma vmm_32MiB_available: "table_available v vmm_32MiB"
proof -
  have "frame_limit vmm_32MiB = 8192"
    by (simp add: frame_limit_def bitmap_words_def vmm_32MiB_def vmm_init_total_frames)
  moreover have "8191 \<notin> used_set vmm_32MiB" by (simp add: vmm_32MiB_facts)
  ultimately have "8191 < frame_limit vmm_32MiB \<and> \<not> used_at vmm_32MiB 8191"
    by (simp add: used_set_def)
  then show ?thesis unfolding table_available_def by blast
qed





text \<open>C29: after \<^verbatim>\<open>pmm_init\<close> and \<^verbatim>\<open>vmm_init\<close> on a machine with at least 2 MiB and
  three pages, paging is on with the page directory in the first frame above the reserved 2 MiB, the
  first 8 MiB are mapped to themselves and nothing else is mapped, exactly three frames (directory
  and two page tables) have been taken, and the address space is well-formed.\<close>

theorem vmm_init_identity_map:
  assumes "0x203000 \<le> m"
  shows "let s = vmm_init (pmm_init m s0) in
     vmm_wf s \<and> paging_enabled s \<and> cr3 s = 0x200000 \<and> vmm_get_current_directory s = 0x200000 \<and>
     used_set s = {..<515} \<and>
     vmm_get_physical_address v s = (if v < 0x800000 then v else 0)"
proof -
  note f = vmm_init_facts [OF pmm_init_boot [OF assms, of s0]]
  have "((v AND 0xFFFFF000) OR 3) AND 0xFFFFF000 = v AND 0xFFFFF000"
    by (rule frame_of_entry) simp_all
  moreover have "((v AND 0xFFFFF000) OR 3) AND PAGE_PRESENT \<noteq> 0"
    by (simp add: bit.conj_disj_distrib2 and.assoc)
  moreover have "v < 0x800000 \<longleftrightarrow> unat v < 0x800000" by (simp add: word_less_nat_alt)
  ultimately show ?thesis
    using f(1,2,4-7) f(3) [of v] by (simp add: Let_def vmm_get_physical_address_pte vmm_get_current_directory_def
        page_base_plus_offset)
qed

theorem vmm_init_identity_map_witness:
  "vmm_get_physical_address 0xB8004 vmm_32MiB = 0xB8004 \<and> vmm_get_physical_address 0x800000 vmm_32MiB = 0"
  using vmm_init_identity_map [of "0x2000000" vmm_reset "0xB8004"]
    vmm_init_identity_map [of "0x2000000" vmm_reset "0x800000"]
  by (simp add: vmm_32MiB_def Let_def)

text \<open>running out of frames is not noticed. When every frame is in use and no page table
  covers the address, \<^verbatim>\<open>vmm_map_page\<close> takes the failure value 0 of the frame allocator for a
  frame: it clears the page at physical address 0 (the real-mode interrupt vectors and BIOS data)
  and uses it as the page table, and the translation of the page reports success.\<close>

theorem vmm_map_page_out_of_frames:
  assumes "vmm_wf s" and "\<not> table_available v s" and "flags AND 0xFFFFF000 = 0" and "flags AND PAGE_PRESENT \<noteq> 0"
    and "unat j < 1024"
  shows "load32 (ram (vmm_map_page v p flags s)) (4 * j) =
       (if j = pt_index v then (p AND 0xFFFFF000) OR flags else 0) \<and>
     vmm_get_physical_address v (vmm_map_page v p flags s) = (p AND 0xFFFFF000) + (v AND 0xFFF)"
proof -
  note d = vmm_wfD [OF assms(1)]
  let ?cd = "current_directory s" and ?E = "0 OR PAGE_PRESENT OR PAGE_WRITE OR flags"
  have full: "\<not> (\<exists>f < frame_limit s. \<not> used_at s f)" and np: "\<not> pd_present s (pd_index v)"
    using assms(2) by (auto simp: table_available_def)
  have a: "pmm_alloc_frame s = (0, s)"
    using full pmm_alloc_frame_state [OF d(1), of "fst (pmm_alloc_frame s)" "snd (pmm_alloc_frame s)"]
    by (cases "pmm_alloc_frame s") (auto simp: used_set_def first_free_def)
  let ?s1 = "clear_table 0 (set_entry ?cd (pd_index v) ?E s)"
  have z: "page_aligned 0" "?cd \<noteq> 0" using d(3) by (auto simp: page_aligned_def)
  have s1: "vmm_ensure_table (pd_index v) flags s = ?s1"
    using np a by (simp add: vmm_ensure_table_def pd_present_def)
  have cd: "current_directory ?s1 = ?cd" by simp
  have pde: "entry ?s1 ?cd (pd_index v) = ?E"
    using d(2) z by (simp add: entry_clear_table entry_set_entry)
  have tb: "?E AND 0xFFFFF000 = 0" and pr: "?E AND PAGE_PRESENT \<noteq> 0"
    using table_entry_value [OF z(1) assms(3)] by simp_all
  let ?t = "set_entry 0 (pt_index v) ((p AND 0xFFFFF000) OR flags) ?s1"
  have t: "vmm_map_page v p flags s = ?t"
    unfolding vmm_map_page_def Let_def s1 cd pde tb ..
  have e0: "entry ?t 0 i = (if i = pt_index v then (p AND 0xFFFFF000) OR flags else 0)" if "unat i < 1024" for i
    using that z(1) by (subst entry_set_entry) (auto simp: entry_clear_table)
  have ed: "entry ?t ?cd (pd_index v) = ?E"
    using d(2) z pde by (subst entry_set_entry) auto
  have pt: "pte ?t v = (p AND 0xFFFFF000) OR flags"
    using ed pr tb e0 [OF pt_index_less, of v] by (simp add: pte_def pd_present_def table_of_def)
  have "((p AND 0xFFFFF000) OR flags) AND 0xFFFFF000 = p AND 0xFFFFF000"
    by (rule frame_of_entry [OF page_aligned_mask assms(3)])
  moreover have "((p AND 0xFFFFF000) OR flags) AND PAGE_PRESENT \<noteq> 0"
    using assms(4) by (simp add: bit.conj_disj_distrib2 and.assoc)
  ultimately show ?thesis
    unfolding t using pt e0 [OF assms(5)] by (simp add: vmm_get_physical_address_pte entry_def entry_addr_def)
qed

text \<open>A machine of 544 frames whose frames have all been handed out.\<close>

definition vmm_exhausted :: vmm where
  "vmm_exhausted = snd (pmm_alloc.alloc_many 29 (vmm_init (pmm_init 0x220000 vmm_reset)))"

lemma vmm_exhausted_facts: "vmm_wf vmm_exhausted" "\<not> table_available 0xD0000000 vmm_exhausted"
proof -
  let ?s = "vmm_init (pmm_init 0x220000 vmm_reset)" and ?i = "pd_index 0xD0000000"
  note f = vmm_init_facts [OF pmm_init_boot [of "0x220000" vmm_reset]]
  have lim: "frame_limit ?s = 544"
    by (simp add: frame_limit_def bitmap_words_def vmm_init_total_frames)
  have wf: "vmm_wf ?s" and us: "used_set ?s = {..<515}" using f by simp_all
  have le: "515 + 29 \<le> frame_limit ?s" using lim by simp
  obtain ps s' where s': "pmm_alloc.alloc_many 29 ?s = (ps, s')" "used_set s' = {..<515 + 29}"
    "total_frames s' = total_frames ?s"
    using pmm_alloc_many_sequential [OF vmm_wfD(1) [OF wf] us le] by blast
  have x: "vmm_exhausted = s'" by (simp add: vmm_exhausted_def s'(1))
  have "\<not> pd_present ?s ?i" using f(8) [of ?i] by (simp add: unat_pd_index)
  then have np: "\<not> pd_present s' ?i" using vmm_alloc_many_facts [OF wf, of 29] s'(1) by simp
  show "vmm_wf vmm_exhausted" using vmm_alloc_many_facts [OF wf, of 29] s'(1) x by simp
  have "frame_limit s' = 544" using frame_limit_cong [OF s'(3)] lim by simp
  then show "\<not> table_available 0xD0000000 vmm_exhausted"
    using np s'(2) unfolding x by (auto simp: table_available_def used_set_def set_eq_iff)
qed

theorem vmm_map_page_out_of_frames_witness:
  "vmm_wf vmm_exhausted \<and> load32 (ram (vmm_map_page 0xD0000000 0x300000 3 vmm_exhausted)) 0 = 0x300003"
proof -
  have "pt_index 0xD0000000 = 0" by (simp add: pt_index_def)
  then show ?thesis
    using vmm_map_page_out_of_frames [OF vmm_exhausted_facts, of 3 0 "0x300000"] vmm_exhausted_facts(1)
    by simp
qed

end
