(* ===== verification/HeapGrow.thy ===== *)
theory HeapGrow
  imports Vmm
begin

text \<open>
  The part of \<^verbatim>\<open>memory/heap.c\<close> below the Rust allocator: mapping heap pages onto fresh
  frames, growing the mapped range, and the interrupt-flag callbacks of the Rust lock. The mapping
  loop counts with a 32-bit address and does not end when the limit is above the last page, so it is
  a partial function; the lemmas show that it returns on every range the kernel uses.
\<close>

section \<open>State and operations\<close>

definition HEAP_START :: u32 where [simp]: "HEAP_START = 0xC0000000"
definition HEAP_INITIAL_SIZE :: u32 where [simp]: "HEAP_INITIAL_SIZE = 0x00100000"
definition HEAP_MAX_SIZE :: u32 where [simp]: "HEAP_MAX_SIZE = 0x10000000"

definition ALIGN :: "u32 \<Rightarrow> u32 \<Rightarrow> u32" where
  "ALIGN x a = (x + a - 1) AND NOT (a - 1)"

record kheap = vmm +
  heap_end :: u32
  heap_max_addr :: u32
  eflags :: u32

partial_function (option) map_heap_range :: "u32 \<Rightarrow> u32 \<Rightarrow> 'a vmm_scheme \<Rightarrow> 'a vmm_scheme option" where
  "map_heap_range va to s =
     (if va < to then
        (let (frame, s1) = pmm_alloc_frame s in
         map_heap_range (va + PAGE_SIZE) to (vmm_map_page va frame (PAGE_PRESENT OR PAGE_WRITE) s1))
      else Some s)"

text \<open>\<^verbatim>\<open>pushfl; popl; cli\<close> reads the flags and clears the interrupt flag, bit 9.\<close>

definition munux_c_irq_save :: "'a kheap_scheme \<Rightarrow> u32 \<times> 'a kheap_scheme" where
  "munux_c_irq_save s = (eflags s, s\<lparr>eflags := eflags s AND NOT 0x200\<rparr>)"

definition munux_c_irq_restore :: "u32 \<Rightarrow> 'a kheap_scheme \<Rightarrow> 'a kheap_scheme" where
  "munux_c_irq_restore flags s = s\<lparr>eflags := flags\<rparr>"

definition munux_c_heap_grow :: "u32 \<Rightarrow> 'a kheap_scheme \<Rightarrow> (u32 \<times> 'a kheap_scheme) option" where
  "munux_c_heap_grow min_bytes s =
     (let aligned = ALIGN min_bytes PAGE_SIZE;
          new_end = heap_end s + aligned
      in if new_end > heap_max_addr s then Some (0, s)
         else do {
           s1 \<leftarrow> map_heap_range (heap_end s) new_end s;
           Some (new_end, s1\<lparr>heap_end := new_end\<rparr>)
         })"

section \<open>The mapping loop\<close>

text \<open>One iteration, and the loop as the iteration of it over the pages of the range.\<close>

definition map_fresh_page :: "u32 \<Rightarrow> 'a vmm_scheme \<Rightarrow> 'a vmm_scheme" where
  "map_fresh_page va s = (let (frame, s1) = pmm_alloc_frame s in vmm_map_page va frame 3 s1)"

lemma map_heap_range_pages:
  assumes "unat va + n * 4096 < 4294967296"
  shows "map_heap_range va (va + word_of_nat n * 4096) s =
     Some (fold (\<lambda>i. map_fresh_page (va + word_of_nat i * 4096)) [0..<n] s)"
  using assms
proof (induction n arbitrary: va s)
  case 0
  then show ?case by (subst map_heap_range.simps) simp
next
  case (Suc n)
  let ?s1 = "map_fresh_page va s"
  have u: "unat (word_of_nat (Suc n) * 4096 :: u32) = Suc n * 4096"
    using Suc.prems by (intro frame_addr_unat) simp
  have lt: "va < va + word_of_nat (Suc n) * 4096"
    using Suc.prems u by (simp add: word_less_nat_alt unat_add_small del: of_nat_Suc)
  have va: "unat (va + 4096) = unat va + 4096" using Suc.prems by (simp add: unat_add_small)
  have e: "va + word_of_nat (Suc n) * 4096 = (va + 4096) + word_of_nat n * 4096"
    by (simp add: algebra_simps)
  have "map_heap_range va (va + word_of_nat (Suc n) * 4096) s =
      map_heap_range (va + 4096) ((va + 4096) + word_of_nat n * 4096) ?s1"
    using lt unfolding e
    by (subst map_heap_range.simps) (simp add: map_fresh_page_def split_def Let_def)
  also have "\<dots> = Some (fold (\<lambda>i. map_fresh_page ((va + 4096) + word_of_nat i * 4096)) [0..<n] ?s1)"
    using Suc.prems va by (intro Suc.IH) simp
  also have "(\<lambda>i. map_fresh_page ((va + 4096) + word_of_nat i * 4096)) =
      (\<lambda>i. map_fresh_page (va + word_of_nat (Suc i) * 4096))"
    by (simp add: algebra_simps)
  also have "fold (\<lambda>i. map_fresh_page (va + word_of_nat (Suc i) * 4096)) [0..<n] ?s1 =
      fold (\<lambda>i. map_fresh_page (va + word_of_nat i * 4096)) [0..<Suc n] s"
    by (simp add: upt_conv_Cons map_Suc_upt [symmetric] fold_map comp_def del: upt_Suc)
  finally show ?case .
qed

text \<open>The memory managers leave the fields above them alone.\<close>

lemma pmm_alloc_frame_vmm_more [simp]: "vmm.more (snd (pmm_alloc_frame s)) = vmm.more s"
  by (simp add: pmm_alloc_frame_def Let_def mark_frame_used_def set_frame_bitmap_def)

lemma set_entry_more [simp]: "vmm.more (set_entry p i v s) = vmm.more s"
  by (simp add: set_entry_def)

lemma clear_table_more [simp]:
  "vmm.more (fold (\<lambda>i. set_entry p (word_of_nat i) 0) is s) = vmm.more s"
  by (induction "is" arbitrary: s) simp_all

lemma vmm_map_page_more [simp]: "vmm.more (vmm_map_page v p flags s) = vmm.more s"
  by (simp add: vmm_map_page_def vmm_ensure_table_def split_def Let_def)

lemma map_fresh_pages_more:
  "vmm.more (fold (\<lambda>i. map_fresh_page (f i)) is s) = vmm.more s"
  by (induction "is" arbitrary: s) (simp_all add: map_fresh_page_def split_def Let_def)

lemma kheap_more_cong:
  assumes "vmm.more s' = vmm.more (s :: 'a kheap_scheme)"
  shows "heap_end s' = heap_end s" and "heap_max_addr s' = heap_max_addr s" and "eflags s' = eflags s"
    and "kheap.more s' = kheap.more s"
  using assms by (cases s; cases s'; simp)+

section \<open>Growing the heap\<close>

lemma ALIGN_page:
  assumes "unat x + 4095 < 4294967296"
  shows "unat (ALIGN x 4096) = (unat x + 4095) div 4096 * 4096"
  using unat_align_up [of x 12] assms by (simp add: ALIGN_def)

lemma munux_c_heap_grow_ok:
  assumes al: "page_aligned (heap_end s)" and n: "n = (unat min_bytes + 4095) div 4096"
    and fit: "unat (heap_end s) + n * 4096 \<le> unat (heap_max_addr s)" and b: "unat min_bytes + 4095 < 4294967296"
  obtains s1 where "munux_c_heap_grow min_bytes s = Some (heap_end s + word_of_nat n * 4096, s1)"
    and "heap_end s1 = heap_end s + word_of_nat n * 4096" and "heap_max_addr s1 = heap_max_addr s"
    and "eflags s1 = eflags s" and "kheap.more s1 = kheap.more s"
    and "unat (heap_end s1) = unat (heap_end s) + n * 4096" and "page_aligned (heap_end s1)"
proof -
  have lt: "unat (heap_end s) + n * 4096 < 4294967296"
    using fit unat_u32_less [of "heap_max_addr s"] by simp
  then have un: "unat (word_of_nat n * 4096 :: u32) = n * 4096"
    by (intro frame_addr_unat) simp
  have a: "ALIGN min_bytes PAGE_SIZE = word_of_nat n * 4096"
    using ALIGN_page [OF b] un by (simp add: u32_eq_iff_unat n)
  let ?e = "heap_end s + word_of_nat n * 4096"
  have ue: "unat ?e = unat (heap_end s) + n * 4096" using un lt by (simp add: unat_add_small)
  with fit have le: "\<not> ?e > heap_max_addr s" by (simp add: word_less_nat_alt)
  define s0 where "s0 = fold (\<lambda>i. map_fresh_page (heap_end s + word_of_nat i * 4096)) [0..<n] s"
  have r: "map_heap_range (heap_end s) ?e s = Some s0"
    unfolding s0_def by (rule map_heap_range_pages [OF lt])
  have more: "vmm.more s0 = vmm.more s" unfolding s0_def by (rule map_fresh_pages_more)
  note c = kheap_more_cong [OF more]
  show thesis
  proof
    show "munux_c_heap_grow min_bytes s = Some (?e, s0\<lparr>heap_end := ?e\<rparr>)"
      using le r a by (simp add: munux_c_heap_grow_def Let_def)
    show "page_aligned (heap_end (s0\<lparr>heap_end := ?e\<rparr>))"
      using al ue by (simp add: page_aligned_def)
  qed (use ue c in simp_all)
qed

section \<open>The frames behind the heap\<close>

text \<open>
  With the frames in use an initial segment of the bitmap, a page of the heap takes the next frame
  and, when its page table is missing, the table the one after that.
\<close>

lemma map_fresh_page_present:
  assumes wf: "vmm_wf s" and us: "used_set s = {..<n}" and lim: "n < frame_limit s"
    and pd: "pd_present s (pd_index va)"
  defines "s' \<equiv> map_fresh_page va s"
  shows "vmm_wf s'" and "used_set s' = {..<Suc n}" and "total_frames s' = total_frames s"
    and "pte s' v = (if drop_bit 12 v = drop_bit 12 va then word_of_nat n * 4096 OR 3 else pte s v)"
    and "unat i < 1024 \<Longrightarrow> pd_present s' i = pd_present s i"
proof -
  obtain s0 where a: "pmm_alloc_frame s = (word_of_nat n * 4096, s0)" "pmm_inv s0"
    "used_set s0 = {..<Suc n}" "total_frames s0 = total_frames s"
    by (rule pmm_alloc_frame_next [OF vmm_wfD(1) [OF wf] us lim])
  note f = vmm_alloc_frame_facts [OF wf, unfolded a(1) snd_conv]
  have pd0: "pd_present s0 (pd_index va)" using f(3) pd by simp
  let ?e = "(word_of_nat n * 4096 AND 0xFFFFF000) OR 3 :: u32"
  have s': "s' = set_entry (table_of s0 (pd_index va)) (pt_index va) ?e s0"
    using ensure_table_present [OF pd0] a(1)
    by (simp add: s'_def map_fresh_page_def vmm_map_page_def table_of_def Let_def)
  note st = set_table_entry [OF f(1) pd0 pd_index_less pt_index_less [of va], where e = ?e]
  show "vmm_wf s'" unfolding s' by (rule st(1))
  show "used_set s' = {..<Suc n}" unfolding s' using st(2) a(3) by simp
  show "total_frames s' = total_frames s" unfolding s' by (simp add: a(4))
  show "pd_present s' i = pd_present s i" if "unat i < 1024" unfolding s' using st(4) [OF that] f(3) [OF that] by simp
  have "(word_of_nat n * 4096 :: u32) AND 0xFFFFF000 = word_of_nat n * 4096"
    using frame_of_entry [of "word_of_nat n * 4096" 0] by simp
  then show "pte s' v = (if drop_bit 12 v = drop_bit 12 va then word_of_nat n * 4096 OR 3 else pte s v)"
    unfolding s' using st(5) f(2) indices_eq_iff [of v va] by simp
qed

lemma map_fresh_page_absent:
  assumes wf: "vmm_wf s" and us: "used_set s = {..<n}" and lim: "Suc n < frame_limit s"
    and pd: "\<not> pd_present s (pd_index va)"
  defines "s' \<equiv> map_fresh_page va s"
  shows "vmm_wf s'" and "used_set s' = {..<n + 2}" and "total_frames s' = total_frames s"
    and "pte s' v = (if drop_bit 12 v = drop_bit 12 va then word_of_nat n * 4096 OR 3 else pte s v)"
    and "unat i < 1024 \<Longrightarrow> pd_present s' i \<longleftrightarrow> i = pd_index va \<or> pd_present s i"
proof -
  obtain s0 where a: "pmm_alloc_frame s = (word_of_nat n * 4096, s0)" "pmm_inv s0"
    "used_set s0 = {..<Suc n}" "total_frames s0 = total_frames s"
    using pmm_alloc_frame_next [OF vmm_wfD(1) [OF wf] us] lim by auto
  note f = vmm_alloc_frame_facts [OF wf, unfolded a(1) snd_conv]
  have np: "\<not> pd_present s0 (pd_index va)" using f(3) pd by simp
  have lim0: "Suc n < frame_limit s0" using lim frame_limit_cong [OF a(4)] by simp
  obtain s00 where b: "pmm_alloc_frame s0 = (word_of_nat (Suc n) * 4096, s00)" "used_set s00 = {..<Suc (Suc n)}"
    "total_frames s00 = total_frames s0"
    using pmm_alloc_frame_next [OF a(2,3) lim0] by metis
  have "Suc n \<notin> used_set s0" by (simp add: a(3))
  then have free: "\<exists>f < frame_limit s0. \<not> used_at s0 f" using lim0 unfolding used_set_def by blast
  let ?s1 = "vmm_ensure_table (pd_index va) 3 s0"
  note ab = ensure_table_absent [OF f(1) _ pd_index_less np free b(1), of 3, simplified]
  have pd1: "pd_present ?s1 (pd_index va)" using ab(4) by simp
  let ?e = "(word_of_nat n * 4096 AND 0xFFFFF000) OR 3 :: u32"
  have s': "s' = set_entry (table_of ?s1 (pd_index va)) (pt_index va) ?e ?s1"
    using a(1) by (simp add: s'_def map_fresh_page_def vmm_map_page_def table_of_def Let_def)
  note st = set_table_entry [OF ab(1) pd1 pd_index_less pt_index_less [of va], where e = ?e]
  show "vmm_wf s'" unfolding s' by (rule st(1))
  show "used_set s' = {..<n + 2}" unfolding s' using st(2) ab(2) b(2) by simp
  show "total_frames s' = total_frames s" unfolding s' by (simp add: a(4) b(3) ab(6))
  show "pd_present s' i \<longleftrightarrow> i = pd_index va \<or> pd_present s i" if "unat i < 1024"
    unfolding s' using st(4) [OF that] ab(4) [OF that] f(3) [OF that] by simp
  have "(word_of_nat n * 4096 :: u32) AND 0xFFFFF000 = word_of_nat n * 4096"
    using frame_of_entry [of "word_of_nat n * 4096" 0] by simp
  then show "pte s' v = (if drop_bit 12 v = drop_bit 12 va then word_of_nat n * 4096 OR 3 else pte s v)"
    unfolding s' using st(5) f(2) ab(5) indices_eq_iff [of v va] by simp
qed

text \<open>The frame behind the \<open>j\<close>-th page of a range that starts with its page table missing:
  the table takes the frame after the first page's.\<close>

definition fresh_frame :: "nat \<Rightarrow> nat \<Rightarrow> nat" where
  "fresh_frame n j = (if j = 0 then n else n + 1 + j)"

lemma same_page_iff:
  assumes "unat va + i * 4096 < 4294967296" and "page_aligned va"
  shows "drop_bit 12 v = drop_bit 12 (va + word_of_nat i * 4096) \<longleftrightarrow> unat v div 4096 = unat va div 4096 + i"
proof -
  have "unat (va + word_of_nat i * 4096) = unat va + i * 4096"
    using assms(1) by (simp add: unat_add_small frame_addr_unat)
  then show ?thesis unfolding u32_eq_iff_unat page_number_unat by (simp add: add.commute)
qed

lemma pd_index_range:
  assumes "4194304 dvd unat va" and "i < 1024"
  shows "pd_index (va + word_of_nat i * 4096) = pd_index va" and "unat va + i * 4096 < 4294967296"
proof -
  from assms(1) obtain q where q: "unat va = 4194304 * q" by (auto elim: dvdE)
  then have "q < 1024" using unat_u32_less [of va] by simp
  then show lt: "unat va + i * 4096 < 4294967296" using assms(2) q by simp
  have "unat (va + word_of_nat i * 4096) = unat va + i * 4096"
    using assms(2) lt by (simp add: unat_add_small frame_addr_unat)
  moreover have "(4194304 * q + i * 4096) div 4194304 = q"
    using assms(2) by (intro div_nat_eqI) simp_all
  ultimately show "pd_index (va + word_of_nat i * 4096) = pd_index va"
    unfolding u32_eq_iff_unat unat_pd_index by (simp add: q)
qed

lemma page_aligned_4MiB: "4194304 dvd unat va \<Longrightarrow> page_aligned va"
  unfolding page_aligned_def by (rule dvd_trans [of _ 4194304]) simp_all

lemma map_fresh_pages_run:
  assumes wf: "vmm_wf s" and us: "used_set s = {..<n}" and pd: "\<not> pd_present s (pd_index va)"
    and va: "4194304 dvd unat va"
    and "k \<le> 1023" and "n + k + 2 \<le> frame_limit s"
  defines "t \<equiv> fold (\<lambda>i. map_fresh_page (va + word_of_nat i * 4096)) [0..<Suc k] s"
  shows "vmm_wf t \<and> used_set t = {..<n + k + 2} \<and> total_frames t = total_frames s \<and>
     (\<forall>i. unat i < 1024 \<longrightarrow> pd_present t i = (i = pd_index va \<or> pd_present s i)) \<and>
     (\<forall>v. pte t v = (let P = unat v div 4096; a = unat va div 4096 in
        if a \<le> P \<and> P \<le> a + k then word_of_nat (fresh_frame n (P - a)) * 4096 OR 3 else pte s v))"
  using assms(5,6) unfolding t_def
proof (induction k)
  case 0
  have al: "page_aligned va" by (rule page_aligned_4MiB [OF va])
  have "Suc n < frame_limit s" using 0 by simp
  note m = map_fresh_page_absent [OF wf us this pd]
  have sp: "drop_bit 12 v = drop_bit 12 va \<longleftrightarrow> unat v div 4096 = unat va div 4096" for v
    using same_page_iff [OF _ al, of 0 v] unat_u32_less [of va] by simp
  have pt: "pte (map_fresh_page va s) v = (let P = unat v div 4096; a = unat va div 4096 in
      if a \<le> P \<and> P \<le> a + 0 then word_of_nat (fresh_frame n (P - a)) * 4096 OR 3 else pte s v)" for v
    unfolding m(4) sp Let_def by (auto simp: fresh_frame_def)
  have f: "fold (\<lambda>i. map_fresh_page (va + word_of_nat i * 4096)) [0..<Suc 0] s = map_fresh_page va s"
    by simp
  have us: "n + 0 + 2 = n + 2" by simp
  show ?case unfolding f us using m(1-3,5) pt by blast
next
  case (Suc k)
  let ?t = "fold (\<lambda>i. map_fresh_page (va + word_of_nat i * 4096)) [0..<Suc k] s"
  let ?w = "va + word_of_nat (Suc k) * 4096"
  have al: "page_aligned va" by (rule page_aligned_4MiB [OF va])
  from Suc have IH: "vmm_wf ?t" "used_set ?t = {..<n + k + 2}" "total_frames ?t = total_frames s"
    "\<And>i. unat i < 1024 \<Longrightarrow> pd_present ?t i = (i = pd_index va \<or> pd_present s i)"
    "\<And>v. pte ?t v = (let P = unat v div 4096; a = unat va div 4096 in
        if a \<le> P \<and> P \<le> a + k then word_of_nat (fresh_frame n (P - a)) * 4096 OR 3 else pte s v)"
    by auto
  have pi: "pd_index ?w = pd_index va" and r: "unat va + Suc k * 4096 < 4294967296"
    using pd_index_range [OF va, of "Suc k"] Suc.prems by simp_all
  have lim: "n + k + 2 < frame_limit ?t" using Suc.prems frame_limit_cong [OF IH(3)] by simp
  have pdt: "pd_present ?t (pd_index ?w)" unfolding pi using IH(4) by simp
  note m = map_fresh_page_present [OF IH(1,2) lim pdt]
  have sp: "drop_bit 12 v = drop_bit 12 ?w \<longleftrightarrow> unat v div 4096 = unat va div 4096 + Suc k" for v
    by (rule same_page_iff [OF r al])
  have pt: "pte (map_fresh_page ?w ?t) v = (let P = unat v div 4096; a = unat va div 4096 in
      if a \<le> P \<and> P \<le> a + Suc k then word_of_nat (fresh_frame n (P - a)) * 4096 OR 3 else pte s v)" for v
    unfolding m(4) sp IH(5) Let_def by (auto simp: fresh_frame_def add_ac)
  have f: "fold (\<lambda>i. map_fresh_page (va + word_of_nat i * 4096)) [0..<Suc (Suc k)] s = map_fresh_page ?w ?t"
    by (simp del: of_nat_Suc)
  have us: "n + Suc k + 2 = Suc (n + k + 2)" by simp
  have tf: "total_frames (map_fresh_page ?w ?t) = total_frames s" unfolding m(3) by (rule IH(3))
  have pp: "pd_present (map_fresh_page ?w ?t) i = (i = pd_index va \<or> pd_present s i)" if "unat i < 1024" for i
    unfolding m(5) [OF that] by (rule IH(4) [OF that])
  show ?case unfolding f us by (intro conjI allI impI m(1,2) tf pp pt)
qed

end
