(* ===== verification/RustHeap.thy ===== *)
theory RustHeap
  imports HeapGrow
begin

text \<open>
  The kernel heap of \<^verbatim>\<open>rust/munux-rs/src/heap.rs\<close> and the interrupt-disabling lock of
  \<^verbatim>\<open>sync.rs\<close> around it: a first-fit list of blocks sorted by address, with splitting,
  coalescing on release and growth through the C callback. The 12-byte headers and the words the
  allocator writes into payloads are separate stores indexed by virtual address; the layout
  invariant shows that headers and live payloads never overlap, which is what makes the separation
  sound. Rust code runs with overflow checks, so arithmetic that does not fit stops with
  \<open>Overflow\<close>; a walk that never ends or follows a null pointer is \<open>Stuck\<close>.
\<close>

section \<open>State\<close>

record block =
  bsize :: u32
  is_free :: u32
  bnext :: u32

record heap =
  head :: u32
  hend :: u32
  hmax :: u32

record rheap = kheap +
  blocks :: "u32 \<Rightarrow> block"
  words :: "u32 \<Rightarrow> u32"
  heap_locked :: bool
  HEAP :: "heap option"

definition HEADER_SIZE :: u32 where [simp]: "HEADER_SIZE = 12"
definition MIN_SPLIT_REMAINDER :: u32 where [simp]: "MIN_SPLIT_REMAINDER = HEADER_SIZE + 16"
definition DEFAULT_ALIGN :: u32 where [simp]: "DEFAULT_ALIGN = 4"

section \<open>Checked arithmetic\<close>

datatype rust_stop = Overflow | Stuck

definition and_then :: "'e + 'a \<Rightarrow> ('a \<Rightarrow> 'e + 'b) \<Rightarrow> 'e + 'b" where
  "and_then r f = (case r of Inl e \<Rightarrow> Inl e | Inr x \<Rightarrow> f x)"

lemma and_then_simps [simp]: "and_then (Inl e) f = Inl e" "and_then (Inr x) f = f x"
  by (simp_all add: and_then_def)

definition add_or_panic :: "u32 \<Rightarrow> u32 \<Rightarrow> rust_stop + u32" where
  "add_or_panic a b = (case checked_add a b of None \<Rightarrow> Inl Overflow | Some c \<Rightarrow> Inr c)"

definition sub_or_panic :: "u32 \<Rightarrow> u32 \<Rightarrow> rust_stop + u32" where
  "sub_or_panic a b = (if b \<le> a then Inr (a - b) else Inl Overflow)"

definition or_stuck :: "'a option \<Rightarrow> rust_stop + 'a" where
  "or_stuck r = (case r of None \<Rightarrow> Inl Stuck | Some x \<Rightarrow> Inr x)"

lemma or_stuck_Some [simp]: "or_stuck (Some x) = Inr x"
  by (simp add: or_stuck_def)

definition is_power_of_two :: "u32 \<Rightarrow> bool" where
  "is_power_of_two w \<longleftrightarrow> w \<noteq> 0 \<and> w AND (w - 1) = 0"

section \<open>The lock\<close>

text \<open>Acquiring a held spin lock on the only processor with interrupts off never ends.\<close>

definition heap_lock :: "'a rheap_scheme \<Rightarrow> rust_stop + (u32 \<times> 'a rheap_scheme)" where
  "heap_lock s =
     (let (flags, s1) = munux_c_irq_save s in
      if heap_locked s1 then Inl Stuck else Inr (flags, s1\<lparr>heap_locked := True\<rparr>))"

definition heap_unlock :: "u32 \<Rightarrow> 'a rheap_scheme \<Rightarrow> 'a rheap_scheme" where
  "heap_unlock flags s = munux_c_irq_restore flags (s\<lparr>heap_locked := False\<rparr>)"

section \<open>The allocator\<close>

definition align_up :: "u32 \<Rightarrow> u32 \<Rightarrow> rust_stop + u32" where
  "align_up value align =
     and_then (add_or_panic value align) (\<lambda>v. and_then (sub_or_panic v 1) (\<lambda>v.
     and_then (sub_or_panic align 1) (\<lambda>m. Inr (v AND NOT m))))"

definition payload_of :: "u32 \<Rightarrow> u32" where
  "payload_of header = header + HEADER_SIZE"

definition Heap_new :: "u32 \<Rightarrow> u32 \<Rightarrow> u32 \<Rightarrow> (u32 \<Rightarrow> block) \<Rightarrow> rust_stop + (heap \<times> (u32 \<Rightarrow> block))" where
  "Heap_new start initial_size max_size bs =
     and_then (sub_or_panic initial_size HEADER_SIZE) (\<lambda>sz.
     and_then (add_or_panic start initial_size) (\<lambda>e.
     and_then (add_or_panic start max_size) (\<lambda>m.
       Inr (\<lparr>head = start, hend = e, hmax = m\<rparr>,
            bs(start := \<lparr>bsize = sz, is_free = 1, bnext = 0\<rparr>)))))"

definition split_if_worthwhile :: "u32 \<Rightarrow> u32 \<Rightarrow> (u32 \<Rightarrow> block) \<Rightarrow> rust_stop + (u32 \<Rightarrow> block)" where
  "split_if_worthwhile b requested bs =
     and_then (add_or_panic requested MIN_SPLIT_REMAINDER) (\<lambda>lim.
       if bsize (bs b) \<le> lim then Inr bs
       else let new_header = payload_of b + requested in
         and_then (sub_or_panic (bsize (bs b)) requested) (\<lambda>r.
         and_then (sub_or_panic r HEADER_SIZE) (\<lambda>sz.
           let bs1 = bs(new_header := \<lparr>bsize = sz, is_free = 1, bnext = bnext (bs b)\<rparr>)
           in Inr (bs1(b := (bs1 b)\<lparr>bsize := requested, bnext := new_header\<rparr>)))))"

text \<open>The first-fit walk: the first free block that fits, or the last block of the list.\<close>

partial_function (option) find_fit :: "(u32 \<Rightarrow> block) \<Rightarrow> u32 \<Rightarrow> u32 \<Rightarrow> (bool \<times> u32) option" where
  "find_fit bs needed current =
     (if is_free (bs current) = 1 \<and> bsize (bs current) \<ge> needed then Some (True, current)
      else if bnext (bs current) = 0 then Some (False, current)
      else find_fit bs needed (bnext (bs current)))"

definition grow_and_attach ::
    "heap \<Rightarrow> u32 \<Rightarrow> u32 \<Rightarrow> 'a rheap_scheme \<Rightarrow> rust_stop + (u32 \<times> heap \<times> 'a rheap_scheme)" where
  "grow_and_attach h tail needed s =
     and_then (add_or_panic needed HEADER_SIZE) (\<lambda>required.
       if (case checked_add (hend h) required of None \<Rightarrow> True | Some e \<Rightarrow> e > hmax h)
       then Inr (0, h, s)
       else and_then (or_stuck (munux_c_heap_grow required s)) (\<lambda>(new_end, s1).
         if new_end = 0 \<or> new_end \<le> hend h \<or> new_end > hmax h then Inr (0, h, s1)
         else let new_block = hend h;
                  bs1 = (blocks s1)(new_block := \<lparr>bsize = needed, is_free = 0, bnext = 0\<rparr>);
                  bs2 = bs1(tail := (bs1 tail)\<lparr>bnext := new_block\<rparr>)
              in Inr (payload_of new_block, h\<lparr>hend := new_end\<rparr>, s1\<lparr>blocks := bs2\<rparr>)))"

definition allocate ::
    "heap \<Rightarrow> u32 \<Rightarrow> 'a rheap_scheme \<Rightarrow> rust_stop + (u32 \<times> heap \<times> 'a rheap_scheme)" where
  "allocate h nbytes s =
     (if nbytes = 0 then Inr (0, h, s)
      else and_then (align_up nbytes DEFAULT_ALIGN) (\<lambda>needed.
        and_then (or_stuck (find_fit (blocks s) needed (head h))) (\<lambda>(fits, current).
          if fits then
            and_then (split_if_worthwhile current needed (blocks s)) (\<lambda>bs.
              Inr (payload_of current, h, s\<lparr>blocks := bs(current := (bs current)\<lparr>is_free := 0\<rparr>)\<rparr>))
          else grow_and_attach h current needed s)))"

partial_function (option) find_predecessor_loop :: "(u32 \<Rightarrow> block) \<Rightarrow> u32 \<Rightarrow> u32 \<Rightarrow> u32 option" where
  "find_predecessor_loop bs target current =
     (let nxt = bnext (bs current) in
      if nxt = target then Some current
      else if nxt = 0 then None
      else find_predecessor_loop bs target nxt)"

definition find_predecessor :: "heap \<Rightarrow> u32 \<Rightarrow> (u32 \<Rightarrow> block) \<Rightarrow> rust_stop + u32 option" where
  "find_predecessor h target bs =
     (if head h = target then Inr None
      else and_then (or_stuck (find_predecessor_loop bs target (head h))) (\<lambda>p. Inr (Some p)))"

definition merge_with_next_if_free :: "u32 \<Rightarrow> (u32 \<Rightarrow> block) \<Rightarrow> rust_stop + (u32 \<Rightarrow> block)" where
  "merge_with_next_if_free b bs =
     (if is_free (bs b) \<noteq> 1 \<or> bnext (bs b) = 0 then Inr bs
      else let n = bnext (bs b) in
        if is_free (bs n) \<noteq> 1 then Inr bs
        else and_then (add_or_panic HEADER_SIZE (bsize (bs n))) (\<lambda>d.
          and_then (add_or_panic (bsize (bs b)) d) (\<lambda>sz.
            Inr (bs(b := (bs b)\<lparr>bsize := sz, bnext := bnext (bs n)\<rparr>)))))"

definition deallocate :: "heap \<Rightarrow> u32 \<Rightarrow> 'a rheap_scheme \<Rightarrow> rust_stop + 'a rheap_scheme" where
  "deallocate h ptr s =
     (let header_ptr = ptr - HEADER_SIZE in
      and_then (find_predecessor h header_ptr (blocks s)) (\<lambda>prev.
        let bs1 = (blocks s)(header_ptr := (blocks s header_ptr)\<lparr>is_free := 1\<rparr>) in
        and_then (merge_with_next_if_free header_ptr bs1) (\<lambda>bs2.
          case prev of
            None \<Rightarrow> Inr (s\<lparr>blocks := bs2\<rparr>)
          | Some p \<Rightarrow> and_then (merge_with_next_if_free p bs2) (\<lambda>bs3. Inr (s\<lparr>blocks := bs3\<rparr>)))))"

definition allocate_aligned ::
    "heap \<Rightarrow> u32 \<Rightarrow> u32 \<Rightarrow> 'a rheap_scheme \<Rightarrow> rust_stop + (u32 \<times> heap \<times> 'a rheap_scheme)" where
  "allocate_aligned h nbytes align0 s =
     (if nbytes = 0 \<or> \<not> is_power_of_two align0 then Inr (0, h, s)
      else let align = max align0 DEFAULT_ALIGN; word = 4 in
        case Option.bind (checked_add nbytes align) (\<lambda>v. checked_add v word) of
          None \<Rightarrow> Inr (0, h, s)
        | Some total_size \<Rightarrow> and_then (allocate h total_size s) (\<lambda>(base, h1, s1).
            if base = 0 then Inr (0, h1, s1)
            else and_then (add_or_panic base word) (\<lambda>b. and_then (align_up b align) (\<lambda>aligned.
              and_then (sub_or_panic aligned word) (\<lambda>slot.
                Inr (aligned, h1, s1\<lparr>words := (words s1)(slot := base)\<rparr>))))))"

definition deallocate_aligned :: "heap \<Rightarrow> u32 \<Rightarrow> 'a rheap_scheme \<Rightarrow> rust_stop + 'a rheap_scheme" where
  "deallocate_aligned h ptr s =
     and_then (sub_or_panic ptr 4) (\<lambda>slot.
       let base = words s slot in if base = 0 then Inr s else deallocate h base s)"

section \<open>Entry points\<close>

definition munux_rs_heap_init :: "u32 \<Rightarrow> u32 \<Rightarrow> u32 \<Rightarrow> 'a rheap_scheme \<Rightarrow> rust_stop + 'a rheap_scheme" where
  "munux_rs_heap_init start initial_size max_size s =
     and_then (Heap_new start initial_size max_size (blocks s)) (\<lambda>(h, bs).
     and_then (heap_lock (s\<lparr>blocks := bs\<rparr>)) (\<lambda>(flags, s1).
       Inr (heap_unlock flags (s1\<lparr>HEAP := Some h\<rparr>))))"

definition munux_rs_alloc :: "u32 \<Rightarrow> 'a rheap_scheme \<Rightarrow> rust_stop + (u32 \<times> 'a rheap_scheme)" where
  "munux_rs_alloc nbytes s =
     and_then (heap_lock s) (\<lambda>(flags, s1).
       case HEAP s1 of
         None \<Rightarrow> Inr (0, heap_unlock flags s1)
       | Some h \<Rightarrow> and_then (allocate h nbytes s1) (\<lambda>(p, h1, s2).
           Inr (p, heap_unlock flags (s2\<lparr>HEAP := Some h1\<rparr>))))"

definition munux_rs_free :: "u32 \<Rightarrow> 'a rheap_scheme \<Rightarrow> rust_stop + 'a rheap_scheme" where
  "munux_rs_free ptr s =
     (if ptr = 0 then Inr s
      else and_then (heap_lock s) (\<lambda>(flags, s1).
        case HEAP s1 of
          None \<Rightarrow> Inr (heap_unlock flags s1)
        | Some h \<Rightarrow> and_then (deallocate h ptr s1) (\<lambda>s2. Inr (heap_unlock flags s2))))"

definition munux_rs_alloc_aligned :: "u32 \<Rightarrow> u32 \<Rightarrow> 'a rheap_scheme \<Rightarrow> rust_stop + (u32 \<times> 'a rheap_scheme)" where
  "munux_rs_alloc_aligned nbytes align s =
     and_then (heap_lock s) (\<lambda>(flags, s1).
       case HEAP s1 of
         None \<Rightarrow> Inr (0, heap_unlock flags s1)
       | Some h \<Rightarrow> and_then (allocate_aligned h nbytes align s1) (\<lambda>(p, h1, s2).
           Inr (p, heap_unlock flags (s2\<lparr>HEAP := Some h1\<rparr>))))"

definition munux_rs_free_aligned :: "u32 \<Rightarrow> 'a rheap_scheme \<Rightarrow> rust_stop + 'a rheap_scheme" where
  "munux_rs_free_aligned ptr s =
     (if ptr = 0 then Inr s
      else and_then (heap_lock s) (\<lambda>(flags, s1).
        case HEAP s1 of
          None \<Rightarrow> Inr (heap_unlock flags s1)
        | Some h \<Rightarrow> and_then (deallocate_aligned h ptr s1) (\<lambda>s2. Inr (heap_unlock flags s2))))"

section \<open>The layout invariant\<close>

text \<open>\<open>seg bs p xs q\<close>: following \<^verbatim>\<open>next\<close> from \<open>p\<close> visits the blocks \<open>xs\<close> and
  arrives at \<open>q\<close>; the whole list is a segment to the null pointer.\<close>

fun seg :: "(u32 \<Rightarrow> block) \<Rightarrow> u32 \<Rightarrow> u32 list \<Rightarrow> u32 \<Rightarrow> bool" where
  "seg bs p [] q \<longleftrightarrow> p = q"
| "seg bs p (a # as) q \<longleftrightarrow> p = a \<and> a \<noteq> 0 \<and> seg bs (bnext (bs a)) as q"

definition block_end :: "(u32 \<Rightarrow> block) \<Rightarrow> u32 \<Rightarrow> nat" where
  "block_end bs a = unat a + 12 + unat (bsize (bs a))"

text \<open>\<open>laid bs lo xs\<close>: the blocks follow one another upwards from address \<open>lo\<close>, at 4-byte
  aligned addresses, without overlap; \<open>limit bs lo xs\<close> is where the last one ends.\<close>

fun laid :: "(u32 \<Rightarrow> block) \<Rightarrow> nat \<Rightarrow> u32 list \<Rightarrow> bool" where
  "laid bs lo [] \<longleftrightarrow> True"
| "laid bs lo (a # as) \<longleftrightarrow> lo \<le> unat a \<and> aligned4 a \<and> laid bs (block_end bs a) as"

fun limit :: "(u32 \<Rightarrow> block) \<Rightarrow> nat \<Rightarrow> u32 list \<Rightarrow> nat" where
  "limit bs lo [] = lo"
| "limit bs lo (a # as) = limit bs (block_end bs a) as"

text \<open>No two neighbours are both free: releasing a block always merges it.\<close>

fun coalesced :: "(u32 \<Rightarrow> block) \<Rightarrow> u32 list \<Rightarrow> bool" where
  "coalesced bs (a # b # as) \<longleftrightarrow> (is_free (bs a) \<noteq> 1 \<or> is_free (bs b) \<noteq> 1) \<and> coalesced bs (b # as)"
| "coalesced bs _ \<longleftrightarrow> True"

lemma seg_append: "seg bs p (xs @ ys) q \<longleftrightarrow> (\<exists>r. seg bs p xs r \<and> seg bs r ys q)"
  by (induction xs arbitrary: p) auto

lemma laid_append: "laid bs lo (xs @ ys) \<longleftrightarrow> laid bs lo xs \<and> laid bs (limit bs lo xs) ys"
  by (induction xs arbitrary: lo) auto

lemma limit_append: "limit bs lo (xs @ ys) = limit bs (limit bs lo xs) ys"
  by (induction xs arbitrary: lo) auto

lemma coalesced_append:
  "coalesced bs (xs @ a # ys) \<longleftrightarrow>
     coalesced bs xs \<and> coalesced bs (a # ys) \<and> (xs \<noteq> [] \<longrightarrow> is_free (bs (last xs)) \<noteq> 1 \<or> is_free (bs a) \<noteq> 1)"
  by (induction bs xs rule: coalesced.induct) auto

lemma coalesced_Cons:
  "coalesced bs (a # ys) \<longleftrightarrow> coalesced bs ys \<and> (ys \<noteq> [] \<longrightarrow> is_free (bs a) \<noteq> 1 \<or> is_free (bs (hd ys)) \<noteq> 1)"
  by (cases ys) auto

lemma seg_cong: "(\<And>a. a \<in> set xs \<Longrightarrow> bnext (bs' a) = bnext (bs a)) \<Longrightarrow> seg bs' p xs q = seg bs p xs q"
  by (induction xs arbitrary: p) auto

lemma laid_cong: "(\<And>a. a \<in> set xs \<Longrightarrow> bsize (bs' a) = bsize (bs a)) \<Longrightarrow>
    laid bs' lo xs = laid bs lo xs \<and> limit bs' lo xs = limit bs lo xs"
  by (induction xs arbitrary: lo) (auto simp: block_end_def)

lemma coalesced_cong: "(\<And>a. a \<in> set xs \<Longrightarrow> is_free (bs' a) = is_free (bs a)) \<Longrightarrow> coalesced bs' xs = coalesced bs xs"
  by (induction bs xs rule: coalesced.induct) auto

lemma laid_bounds:
  assumes "laid bs lo xs"
  shows "lo \<le> limit bs lo xs" and "a \<in> set xs \<Longrightarrow> lo \<le> unat a \<and> block_end bs a \<le> limit bs lo xs \<and> aligned4 a"
proof -
  have "lo \<le> limit bs lo xs \<and> (\<forall>a \<in> set xs. lo \<le> unat a \<and> block_end bs a \<le> limit bs lo xs \<and> aligned4 a)"
    using assms
  proof (induction xs arbitrary: lo)
    case (Cons b xs)
    then have "block_end bs b \<le> limit bs (block_end bs b) xs \<and>
      (\<forall>a \<in> set xs. block_end bs b \<le> unat a \<and> block_end bs a \<le> limit bs (block_end bs b) xs \<and> aligned4 a)"
      using Cons.IH [of "block_end bs b"] by simp
    with Cons.prems show ?case by (auto simp: block_end_def)
  qed simp
  then show "lo \<le> limit bs lo xs" "a \<in> set xs \<Longrightarrow> lo \<le> unat a \<and> block_end bs a \<le> limit bs lo xs \<and> aligned4 a"
    by auto
qed

lemma laid_mono: "laid bs lo xs \<Longrightarrow> lo' \<le> lo \<Longrightarrow> laid bs lo' xs"
  by (cases xs) auto

lemma limit_mono: "xs \<noteq> [] \<Longrightarrow> limit bs lo' xs = limit bs lo xs"
  by (cases xs) auto

text \<open>Blocks before and after a given one.\<close>

lemma laid_around:
  assumes "laid bs lo (xs @ a # ys)"
  shows "x \<in> set xs \<Longrightarrow> block_end bs x \<le> unat a" and "y \<in> set ys \<Longrightarrow> block_end bs a \<le> unat y"
    and "a \<notin> set xs" and "a \<notin> set ys" and "lo \<le> unat a" and "aligned4 a"
    and "block_end bs a \<le> limit bs lo (xs @ a # ys)"
proof -
  from assms have l: "laid bs lo xs" "limit bs lo xs \<le> unat a" "aligned4 a" "laid bs (block_end bs a) ys"
    by (auto simp: laid_append)
  show x: "block_end bs x \<le> unat a" if "x \<in> set xs" for x using laid_bounds(2) [OF l(1) that] l(2) by simp
  show y: "block_end bs a \<le> unat y" if "y \<in> set ys" for y using laid_bounds(2) [OF l(4) that] by simp
  show "a \<notin> set xs" "a \<notin> set ys" using x [of a] y [of a] by (auto simp: block_end_def)
  show "lo \<le> unat a" using laid_bounds(1) [OF l(1)] l(2) by simp
  show "aligned4 a" by (rule l(3))
  show "block_end bs a \<le> limit bs lo (xs @ a # ys)" using laid_bounds(1) [OF l(4)] by (simp add: limit_append)
qed

lemma laid_distinct: "laid bs lo xs \<Longrightarrow> distinct xs"
proof (induction xs arbitrary: lo)
  case (Cons a xs)
  have "a \<notin> set xs" using laid_around(4) [of bs lo "[]" a xs] Cons.prems by simp
  then show ?case using Cons.IH [of "block_end bs a"] Cons.prems by simp
qed simp

text \<open>Two blocks of a layout do not overlap.\<close>

lemma laid_disjoint:
  assumes "laid bs lo xs" and "a \<in> set xs" and "b \<in> set xs" and "a \<noteq> b"
  shows "block_end bs a \<le> unat b \<or> block_end bs b \<le> unat a"
proof -
  from assms(2) obtain us vs where xs: "xs = us @ a # vs" by (auto simp: in_set_conv_decomp)
  with assms(3,4) have "b \<in> set us \<or> b \<in> set vs" by auto
  with laid_around [of bs lo us a vs] assms(1) xs show ?thesis by auto
qed

text \<open>The blocks between the heap's start and its end \<open>e\<close>.\<close>

definition shape :: "(u32 \<Rightarrow> block) \<Rightarrow> u32 \<Rightarrow> u32 \<Rightarrow> u32 list \<Rightarrow> bool" where
  "shape bs p0 e xs \<longleftrightarrow> seg bs p0 xs 0 \<and> xs \<noteq> [] \<and> laid bs 0xC0000000 xs \<and>
     limit bs 0xC0000000 xs \<le> unat e"

definition layout :: "(u32 \<Rightarrow> block) \<Rightarrow> u32 \<Rightarrow> u32 \<Rightarrow> u32 list \<Rightarrow> bool" where
  "layout bs p0 e xs \<longleftrightarrow> shape bs p0 e xs \<and> coalesced bs xs"

definition payloads :: "(u32 \<Rightarrow> block) \<Rightarrow> u32 list \<Rightarrow> u32 \<Rightarrow> nat option" where
  "payloads bs xs p =
     (if p - 12 \<in> set xs \<and> is_free (bs (p - 12)) \<noteq> 1 then Some (unat (bsize (bs (p - 12)))) else None)"

definition fits :: "(u32 \<Rightarrow> block) \<Rightarrow> u32 \<Rightarrow> u32 \<Rightarrow> bool" where
  "fits bs needed a \<longleftrightarrow> is_free (bs a) = 1 \<and> needed \<le> bsize (bs a)"

lemma find_fit_spec:
  assumes "seg bs p xs 0" and "xs \<noteq> []"
  shows "(\<exists>us v vs. xs = us @ v # vs \<and> find_fit bs needed p = Some (True, v) \<and> fits bs needed v \<and>
        (\<forall>u \<in> set us. \<not> fits bs needed u)) \<or>
     find_fit bs needed p = Some (False, last xs) \<and> (\<forall>u \<in> set xs. \<not> fits bs needed u)"
  using assms
proof (induction xs arbitrary: p)
  case (Cons a xs)
  show ?case
  proof (cases "fits bs needed a")
    case True
    then have "find_fit bs needed p = Some (True, a)"
      using Cons.prems by (subst find_fit.simps) (simp add: fits_def)
    then show ?thesis using True by (intro disjI1 exI [of _ "[]"]) auto
  next
    case nf: False
    show ?thesis
    proof (cases "xs = []")
      case True
      then have "find_fit bs needed p = Some (False, a)"
        using Cons.prems nf by (subst find_fit.simps) (auto simp: fits_def)
      then show ?thesis using True nf by simp
    next
      case False
      then have nz: "bnext (bs a) \<noteq> 0" using Cons.prems by (cases xs) auto
      have e: "find_fit bs needed p = find_fit bs needed (bnext (bs a))"
        using Cons.prems nf nz by (subst find_fit.simps) (auto simp: fits_def)
      have sg: "seg bs (bnext (bs a)) xs 0" using Cons.prems by simp
      from Cons.IH [OF sg False] show ?thesis unfolding e
      proof (elim disjE exE conjE)
        fix us v vs assume "xs = us @ v # vs" "find_fit bs needed (bnext (bs a)) = Some (True, v)"
          "fits bs needed v" "\<forall>u \<in> set us. \<not> fits bs needed u"
        then show "(\<exists>us v vs. a # xs = us @ v # vs \<and> find_fit bs needed (bnext (bs a)) = Some (True, v) \<and>
            fits bs needed v \<and> (\<forall>u \<in> set us. \<not> fits bs needed u)) \<or>
          find_fit bs needed (bnext (bs a)) = Some (False, last (a # xs)) \<and> (\<forall>u \<in> set (a # xs). \<not> fits bs needed u)"
          using nf by (intro disjI1 exI [of _ "a # us"] exI [of _ v] exI [of _ vs]) auto
      qed (use False nf in auto)
    qed
  qed
qed simp

lemma find_predecessor_loop_spec:
  assumes "seg bs p (us @ [q]) t" and "t \<noteq> 0" and "t \<notin> set us" and "t \<noteq> q" and "distinct (us @ [q])"
  shows "find_predecessor_loop bs t p = Some q"
  using assms
proof (induction us arbitrary: p)
  case Nil
  then show ?case by (subst find_predecessor_loop.simps) auto
next
  case (Cons a us)
  have nz: "bnext (bs a) \<noteq> 0" "bnext (bs a) \<noteq> t" using Cons.prems by (cases us; auto)+
  have "find_predecessor_loop bs t p = find_predecessor_loop bs t (bnext (bs a))"
    using Cons.prems nz by (subst find_predecessor_loop.simps) auto
  then show ?case using Cons by auto
qed

section \<open>Splitting\<close>

lemma payload_of_eq_iff: "p - 12 = v \<longleftrightarrow> p = payload_of v"
  by (auto simp: payload_of_def)

lemma shapeD:
  assumes "shape bs p0 e (us @ v # vs)"
  shows "seg bs p0 us v" and "seg bs (bnext (bs v)) vs 0" and "laid bs 0xC0000000 us"
    and "limit bs 0xC0000000 us \<le> unat v" and "aligned4 v" and "laid bs (block_end bs v) vs"
    and "limit bs (block_end bs v) vs \<le> unat e" and "v \<noteq> 0" and "0xC0000000 \<le> unat v"
    and "block_end bs v \<le> unat e" and "v \<notin> set us" and "v \<notin> set vs"
    and "x \<in> set us \<Longrightarrow> block_end bs x \<le> unat v" and "y \<in> set vs \<Longrightarrow> block_end bs v \<le> unat y"
proof -
  from assms have l: "laid bs 0xC0000000 (us @ v # vs)" by (simp add: shape_def)
  note ar = laid_around [OF l]
  show "v \<notin> set us" "v \<notin> set vs" "0xC0000000 \<le> unat v" by (fact ar)+
  show "x \<in> set us \<Longrightarrow> block_end bs x \<le> unat v" "y \<in> set vs \<Longrightarrow> block_end bs v \<le> unat y"
    by (fact ar)+
  show "block_end bs v \<le> unat e" using ar(7) assms by (simp add: shape_def)
qed (use assms in \<open>auto simp: shape_def seg_append laid_append limit_append\<close>)

lemma shapeI:
  assumes "seg bs p0 us v" and "seg bs (bnext (bs v)) vs 0" and "laid bs 0xC0000000 us"
    and "limit bs 0xC0000000 us \<le> unat v" and "aligned4 v" and "laid bs (block_end bs v) vs"
    and "limit bs (block_end bs v) vs \<le> unat e" and "v \<noteq> 0"
  shows "shape bs p0 e (us @ v # vs)"
  using assms by (auto simp: shape_def seg_append laid_append limit_append)

lemma layout_middle:
  "layout bs p0 e (us @ v # vs) \<longleftrightarrow> shape bs p0 e (us @ v # vs) \<and> coalesced bs us \<and> coalesced bs (v # vs) \<and>
     (us \<noteq> [] \<longrightarrow> is_free (bs (last us)) \<noteq> 1 \<or> is_free (bs v) \<noteq> 1)"
  by (simp add: layout_def coalesced_append)

text \<open>Changing a block leaves the segments on both sides of it as they were.\<close>

lemma sides_cong:
  assumes "\<And>a. a \<in> set xs \<Longrightarrow> bs' a = bs a"
  shows "seg bs' p xs q = seg bs p xs q" and "laid bs' lo xs = laid bs lo xs"
    and "limit bs' lo xs = limit bs lo xs" and "coalesced bs' xs = coalesced bs xs"
  by (rule seg_cong, simp add: assms, rule conjunct1 [OF laid_cong], simp add: assms,
      rule conjunct2 [OF laid_cong], simp add: assms, rule coalesced_cong, simp add: assms)

lemma mark_used_layout:
  assumes L: "layout bs p0 e (us @ v # vs)" and f: "is_free (bs v) = 1"
  defines "bs' \<equiv> bs(v := (bs v)\<lparr>is_free := 0\<rparr>)"
  shows "layout bs' p0 e (us @ v # vs)"
    and "payloads bs' (us @ v # vs) = (payloads bs (us @ v # vs))(payload_of v \<mapsto> unat (bsize (bs v)))"
proof -
  from L have S: "shape bs p0 e (us @ v # vs)" and C: "coalesced bs us" "coalesced bs (v # vs)"
    "us \<noteq> [] \<Longrightarrow> is_free (bs (last us)) \<noteq> 1 \<or> is_free (bs v) \<noteq> 1"
    by (simp_all add: layout_middle)
  note d = shapeD [OF S]
  have us: "bs' a = bs a" if "a \<in> set us" for a using that d(11) by (auto simp: bs'_def)
  have vs: "bs' a = bs a" if "a \<in> set vs" for a using that d(12) by (auto simp: bs'_def)
  have v: "bnext (bs' v) = bnext (bs v)" "block_end bs' v = block_end bs v" "is_free (bs' v) \<noteq> 1"
    by (simp_all add: bs'_def block_end_def)
  note cu = sides_cong [of us bs' bs, OF us] and cv = sides_cong [of vs bs' bs, OF vs]
  show "layout bs' p0 e (us @ v # vs)"
    unfolding layout_middle
    using d(1-8) v C by (intro conjI shapeI impI) (auto simp: cu cv coalesced_Cons)
  show "payloads bs' (us @ v # vs) = (payloads bs (us @ v # vs))(payload_of v \<mapsto> unat (bsize (bs v)))"
    by (rule ext) (auto simp: payloads_def bs'_def payload_of_eq_iff [symmetric])
qed

lemma split_layout:
  assumes L: "layout bs p0 e (us @ v # vs)" and f: "is_free (bs v) = 1"
    and al: "4 dvd unat needed" and big: "unat needed + 12 \<le> unat (bsize (bs v))"
  defines "n \<equiv> payload_of v + needed"
  defines "bs1 \<equiv> bs(n := \<lparr>bsize = bsize (bs v) - needed - 12, is_free = 1, bnext = bnext (bs v)\<rparr>)"
  defines "bs' \<equiv> bs1(v := (bs1 v)\<lparr>bsize := needed, is_free := 0, bnext := n\<rparr>)"
  shows "layout bs' p0 e (us @ v # n # vs)"
    and "payloads bs' (us @ v # n # vs) = (payloads bs (us @ v # vs))(payload_of v \<mapsto> unat needed)"
proof -
  from L have S: "shape bs p0 e (us @ v # vs)" and C: "coalesced bs us" "coalesced bs (v # vs)"
    "us \<noteq> [] \<Longrightarrow> is_free (bs (last us)) \<noteq> 1 \<or> is_free (bs v) \<noteq> 1"
    by (simp_all add: layout_middle)
  note d = shapeD [OF S]
  have be: "unat v + 12 + unat (bsize (bs v)) < 4294967296"
    using d(10) unat_u32_less [of e] by (simp add: block_end_def)
  have "unat (v + 12) = unat v + 12" using be by (simp add: unat_add_small)
  then have un: "unat n = unat v + 12 + unat needed"
    using be big by (simp add: n_def payload_of_def unat_add_small)
  have nv: "n \<noteq> v" using un by auto
  have nus: "n \<notin> set us" using d(13) [of n] un by (auto simp: block_end_def)
  have nvs: "n \<notin> set vs" using d(14) [of n] un big by (auto simp: block_end_def)
  have us: "bs' a = bs a" if "a \<in> set us" for a using that d(11) nus by (auto simp: bs'_def bs1_def)
  have vs: "bs' a = bs a" if "a \<in> set vs" for a using that d(12) nvs by (auto simp: bs'_def bs1_def)
  have bn: "bs' n = \<lparr>bsize = bsize (bs v) - needed - 12, is_free = 1, bnext = bnext (bs v)\<rparr>"
    using nv by (simp add: bs'_def bs1_def)
  have bv: "bsize (bs' v) = needed" "is_free (bs' v) = 0" "bnext (bs' v) = n" by (simp_all add: bs'_def)
  have "unat (bsize (bs v) - needed - 12) = unat (bsize (bs v)) - unat needed - 12"
    using big by (simp add: unat_sub word_le_nat_alt)
  then have e1: "block_end bs' n = block_end bs v" using big by (simp add: block_end_def bn un)
  have e2: "block_end bs' v = unat n" by (simp add: block_end_def bv un)
  have n4: "aligned4 n" using d(5) al un by (simp add: aligned4_def)
  have n0: "n \<noteq> 0" using un by auto
  have vn: "vs \<noteq> [] \<longrightarrow> is_free (bs (hd vs)) \<noteq> 1" using C(2) f by (auto simp: coalesced_Cons)
  note cu = sides_cong [of us bs' bs, OF us] and cv = sides_cong [of vs bs' bs, OF vs]
  show "layout bs' p0 e (us @ v # n # vs)"
    unfolding layout_middle
    using d(1-8) vn C by (intro conjI shapeI impI) (auto simp: cu cv bv bn e1 e2 n4 n0 coalesced_Cons vs)
  show "payloads bs' (us @ v # n # vs) = (payloads bs (us @ v # vs))(payload_of v \<mapsto> unat needed)"
  proof (rule ext)
    fix p
    consider "p - 12 = v" | "p - 12 = n" | "p - 12 \<noteq> v" "p - 12 \<noteq> n" by blast
    then show "payloads bs' (us @ v # n # vs) p = ((payloads bs (us @ v # vs))(payload_of v \<mapsto> unat needed)) p"
    proof cases
      case 2
      with nv nus nvs show ?thesis by (simp add: payloads_def bn payload_of_eq_iff [symmetric])
    next
      case 3
      then have "bs' (p - 12) = bs (p - 12)" by (simp add: bs'_def bs1_def)
      with 3 show ?thesis by (simp add: payloads_def payload_of_eq_iff [symmetric])
    qed (simp add: payloads_def bv payload_of_eq_iff [symmetric])
  qed
qed

section \<open>Growing and merging\<close>

lemma grow_layout:
  assumes L: "layout bs p0 e (us @ [v])" and al: "aligned4 e" and e': "unat e + 12 + unat needed \<le> unat e'"
  defines "bs1 \<equiv> bs(e := \<lparr>bsize = needed, is_free = 0, bnext = 0\<rparr>)"
  defines "bs' \<equiv> bs1(v := (bs1 v)\<lparr>bnext := e\<rparr>)"
  shows "layout bs' p0 e' (us @ v # [e])"
    and "payloads bs' (us @ v # [e]) = (payloads bs (us @ [v]))(payload_of e \<mapsto> unat needed)"
    and "payloads bs (us @ [v]) (payload_of e) = None"
proof -
  from L have S: "shape bs p0 e (us @ [v])" and C: "coalesced bs us"
    "us \<noteq> [] \<Longrightarrow> is_free (bs (last us)) \<noteq> 1 \<or> is_free (bs v) \<noteq> 1"
    by (simp_all add: layout_middle)
  note d = shapeD [OF S]
  have ve: "v \<noteq> e" using d(10) by (auto simp: block_end_def)
  have eus: "e \<notin> set us" using d(10) d(13) [of e] by (auto simp: block_end_def)
  have us: "bs' a = bs a" if "a \<in> set us" for a using that d(11) eus by (auto simp: bs'_def bs1_def)
  have v: "bnext (bs' v) = e" "block_end bs' v = block_end bs v" "is_free (bs' v) = is_free (bs v)"
    using ve by (simp_all add: bs'_def bs1_def block_end_def)
  have be: "bs' e = \<lparr>bsize = needed, is_free = 0, bnext = 0\<rparr>" using ve by (simp add: bs'_def bs1_def)
  have ee: "block_end bs' e \<le> unat e'" using e' by (simp add: block_end_def be)
  have e0: "e \<noteq> 0" using d(10) by (auto simp: block_end_def)
  note cu = sides_cong [of us bs' bs, OF us]
  show "layout bs' p0 e' (us @ v # [e])"
    unfolding layout_middle
    using d(1-8,10) C al e0 by (intro conjI shapeI impI) (auto simp: cu v be ee us)
  show "payloads bs' (us @ v # [e]) = (payloads bs (us @ [v]))(payload_of e \<mapsto> unat needed)"
  proof (rule ext)
    fix p
    consider "p - 12 = e" | "p - 12 = v" "p - 12 \<noteq> e" | "p - 12 \<noteq> v" "p - 12 \<noteq> e" by blast
    then show "payloads bs' (us @ v # [e]) p = ((payloads bs (us @ [v]))(payload_of e \<mapsto> unat needed)) p"
    proof cases
      case 2
      then show ?thesis by (simp add: payloads_def bs'_def bs1_def payload_of_eq_iff [symmetric])
    next
      case 3
      then have "bs' (p - 12) = bs (p - 12)" by (simp add: bs'_def bs1_def)
      with 3 show ?thesis by (simp add: payloads_def payload_of_eq_iff [symmetric])
    qed (simp add: payloads_def be payload_of_eq_iff [symmetric])
  qed
  show "payloads bs (us @ [v]) (payload_of e) = None"
    using ve eus by (simp add: payloads_def payload_of_def)
qed

lemma add_or_panic_ok: "unat a + unat b < 4294967296 \<Longrightarrow> add_or_panic a b = Inr (a + b)"
  by (simp add: add_or_panic_def checked_add_def)

lemma sub_or_panic_ok: "unat b \<le> unat a \<Longrightarrow> sub_or_panic a b = Inr (a - b)"
  by (simp add: sub_or_panic_def word_le_nat_alt)

text \<open>Absorbing a free successor.\<close>

lemma merge_free:
  assumes S: "shape bs p0 e (us @ v # w # vs)" and f: "is_free (bs v) = 1" "is_free (bs w) = 1"
  defines "bs' \<equiv> bs(v := (bs v)\<lparr>bsize := bsize (bs v) + (12 + bsize (bs w)), bnext := bnext (bs w)\<rparr>)"
  shows "merge_with_next_if_free v bs = Inr bs'" and "shape bs' p0 e (us @ v # vs)"
    and "payloads bs' (us @ v # vs) = payloads bs (us @ v # w # vs)"
proof -
  note d = shapeD [OF S]
  have w: "bnext (bs v) = w" "w \<noteq> 0" "block_end bs v \<le> unat w" "aligned4 w" "laid bs (block_end bs w) vs"
    "seg bs (bnext (bs w)) vs 0" using d(2,6) by auto
  have S2: "shape bs p0 e ((us @ [v]) @ w # vs)" using S by simp
  note dw = shapeD [OF S2]
  have le: "block_end bs w \<le> unat e" by (rule dw(10))
  have sz: "unat (bsize (bs v)) + (12 + unat (bsize (bs w))) < 4294967296"
    using le w(3) unat_u32_less [of e] by (simp add: block_end_def)
  have u12: "unat (12 + bsize (bs w)) = 12 + unat (bsize (bs w))" using sz by (simp add: unat_add_small)
  then show "merge_with_next_if_free v bs = Inr bs'"
    using f w(1,2) sz by (simp add: merge_with_next_if_free_def Let_def add_or_panic_ok bs'_def)
  have usz: "unat (bsize (bs v) + (12 + bsize (bs w))) = unat (bsize (bs v)) + (12 + unat (bsize (bs w)))"
    using sz u12 by (simp add: unat_add_small)
  have ev: "block_end bs' v \<le> block_end bs w"
    using w(3) usz by (simp add: block_end_def bs'_def)
  have us: "bs' a = bs a" if "a \<in> set us" for a using that d(11) by (auto simp: bs'_def)
  have vs: "bs' a = bs a" if "a \<in> set vs" for a using that d(12) by (auto simp: bs'_def)
  note cu = sides_cong [of us bs' bs, OF us] and cv = sides_cong [of vs bs' bs, OF vs]
  have nx: "bnext (bs' v) = bnext (bs w)" by (simp add: bs'_def)
  have "limit bs (block_end bs' v) vs \<le> unat e"
  proof (cases "vs = []")
    case True
    then show ?thesis using ev le by simp
  next
    case False
    then show ?thesis using d(7) limit_mono [OF False, of bs "block_end bs' v" "block_end bs w"] by simp
  qed
  then show "shape bs' p0 e (us @ v # vs)"
    using d(1,3-5,8) w(6) laid_mono [OF w(5) ev] by (intro shapeI) (auto simp: cu cv nx)
  have wn: "w \<notin> set us" "w \<noteq> v" "w \<notin> set vs" using dw(11,12) by auto
  show "payloads bs' (us @ v # vs) = payloads bs (us @ v # w # vs)"
    using f wn by (intro ext) (auto simp: payloads_def bs'_def)
qed

lemma merge_noop:
  "is_free (bs v) \<noteq> 1 \<or> bnext (bs v) = 0 \<or> is_free (bs (bnext (bs v))) \<noteq> 1 \<Longrightarrow> merge_with_next_if_free v bs = Inr bs"
  by (auto simp: merge_with_next_if_free_def Let_def)

text \<open>Merging a freed block with its successor: afterwards the successor, if any, is in use.\<close>

lemma merge_forward:
  assumes S: "shape bs p0 e (us @ v # vs)" and f: "is_free (bs v) = 1" and C: "coalesced bs us" "coalesced bs vs"
  obtains bs' vs' where "merge_with_next_if_free v bs = Inr bs'" and "shape bs' p0 e (us @ v # vs')"
    and "payloads bs' (us @ v # vs') = payloads bs (us @ v # vs)" and "coalesced bs' us" and "coalesced bs' (v # vs')"
    and "is_free (bs' v) = 1" and "\<And>a. a \<in> set us \<Longrightarrow> bs' a = bs a"
proof (cases "vs \<noteq> [] \<and> is_free (bs (hd vs)) = 1")
  case True
  then obtain w ws where vs: "vs = w # ws" by (cases vs) auto
  define bs' where "bs' = bs(v := (bs v)\<lparr>bsize := bsize (bs v) + (12 + bsize (bs w)), bnext := bnext (bs w)\<rparr>)"
  note d = shapeD [OF S]
  note m = merge_free [of bs p0 e us v w ws, folded bs'_def]
  have us: "bs' a = bs a" if "a \<in> set us" for a using that d(11) by (auto simp: bs'_def)
  have ws: "bs' a = bs a" if "a \<in> set ws" for a using that d(12) vs by (auto simp: bs'_def)
  show thesis
  proof (rule that [of bs' ws])
    show "coalesced bs' us" using C(1) sides_cong(4) [of us bs' bs, OF us] by simp
    have "ws \<noteq> [] \<Longrightarrow> is_free (bs (hd ws)) \<noteq> 1" using C(2) True vs by (cases ws) auto
    then show "coalesced bs' (v # ws)"
      using C(2) vs sides_cong(4) [of ws bs' bs, OF ws] by (auto simp: coalesced_Cons ws)
    show "is_free (bs' v) = 1" using f by (simp add: bs'_def)
  qed (use m S vs f True us in simp_all)
next
  case False
  note d = shapeD [OF S]
  have "bnext (bs v) = 0 \<or> is_free (bs (bnext (bs v))) \<noteq> 1" using d(2) False by (cases vs) auto
  then have "merge_with_next_if_free v bs = Inr bs" by (intro merge_noop) blast
  then show thesis
    by (rule that [of bs vs]) (use S f C False in \<open>auto simp: coalesced_Cons\<close>)
qed

lemma mark_free_shape:
  assumes S: "shape bs p0 e (us @ v # vs)" and u: "is_free (bs v) \<noteq> 1"
  defines "bs' \<equiv> bs(v := (bs v)\<lparr>is_free := 1\<rparr>)"
  shows "shape bs' p0 e (us @ v # vs)"
    and "payloads bs' (us @ v # vs) = (payloads bs (us @ v # vs))(payload_of v := None)"
    and "coalesced bs' us = coalesced bs us" and "coalesced bs' vs = coalesced bs vs"
proof -
  note d = shapeD [OF S]
  have us: "bs' a = bs a" if "a \<in> set us" for a using that d(11) by (auto simp: bs'_def)
  have vs: "bs' a = bs a" if "a \<in> set vs" for a using that d(12) by (auto simp: bs'_def)
  have v: "bnext (bs' v) = bnext (bs v)" "block_end bs' v = block_end bs v"
    by (simp_all add: bs'_def block_end_def)
  note cu = sides_cong [of us bs' bs, OF us] and cv = sides_cong [of vs bs' bs, OF vs]
  show "shape bs' p0 e (us @ v # vs)" using d(1-8) v by (intro shapeI) (auto simp: cu cv)
  show "coalesced bs' us = coalesced bs us" "coalesced bs' vs = coalesced bs vs" by (simp_all add: cu cv)
  show "payloads bs' (us @ v # vs) = (payloads bs (us @ v # vs))(payload_of v := None)"
    by (rule ext) (auto simp: payloads_def bs'_def payload_of_eq_iff [symmetric])
qed

text \<open>The predecessor found by the walk.\<close>

lemma find_predecessor_spec:
  assumes S: "shape bs (head h) e (us @ v # vs)"
  shows "find_predecessor h v bs = Inr (if us = [] then None else Some (last us))"
proof (cases us rule: rev_cases)
  case Nil
  then show ?thesis using shapeD(1) [OF S] by (simp add: find_predecessor_def)
next
  case (snoc us' p)
  note d = shapeD [OF S]
  have "distinct (us @ v # vs)" using S laid_distinct [of bs "0xC0000000" "us @ v # vs"] by (simp add: shape_def)
  then have "find_predecessor_loop bs v (head h) = Some p"
    using d(1,8,11) snoc by (intro find_predecessor_loop_spec [of _ _ us']) auto
  moreover have "head h \<noteq> v" using d(1,11) snoc by (cases us') auto
  ultimately show ?thesis using snoc by (simp add: find_predecessor_def)
qed

lemma deallocate_spec:
  assumes L: "layout (blocks s) (head h) e (us @ v # vs)" and u: "is_free (blocks s v) \<noteq> 1"
  obtains bs' xs' where "deallocate h (payload_of v) s = Inr (s\<lparr>blocks := bs'\<rparr>)"
    and "layout bs' (head h) e xs'"
    and "payloads bs' xs' = (payloads (blocks s) (us @ v # vs))(payload_of v := None)"
proof -
  let ?bs = "blocks s" and ?p0 = "head h"
  from L have S: "shape ?bs ?p0 e (us @ v # vs)" and C: "coalesced ?bs us" "coalesced ?bs vs"
    by (auto simp: layout_middle coalesced_Cons)
  define bs1 where "bs1 = ?bs(v := (?bs v)\<lparr>is_free := 1\<rparr>)"
  note m1 = mark_free_shape [OF S u, folded bs1_def]
  have f1: "is_free (bs1 v) = 1" by (simp add: bs1_def)
  obtain bs2 vs' where m2: "merge_with_next_if_free v bs1 = Inr bs2" "shape bs2 ?p0 e (us @ v # vs')"
    "payloads bs2 (us @ v # vs') = payloads bs1 (us @ v # vs)" "coalesced bs2 us" "coalesced bs2 (v # vs')"
    "is_free (bs2 v) = 1"
    using merge_forward [OF m1(1) f1] m1(3,4) C by metis
  have D: "deallocate h (payload_of v) s = (case (if us = [] then None else Some (last us)) of
      None \<Rightarrow> Inr (s\<lparr>blocks := bs2\<rparr>)
    | Some p \<Rightarrow> and_then (merge_with_next_if_free p bs2) (\<lambda>bs3. Inr (s\<lparr>blocks := bs3\<rparr>)))"
    using find_predecessor_spec [OF S] m2(1) by (simp add: deallocate_def payload_of_def bs1_def [symmetric])
  have pay: "payloads bs2 (us @ v # vs') = (payloads ?bs (us @ v # vs))(payload_of v := None)"
    using m2(3) m1(2) by simp
  consider "us = []" | us' p where "us = us' @ [p]" "is_free (bs2 p) \<noteq> 1" | us' p where "us = us' @ [p]" "is_free (bs2 p) = 1"
    by (cases us rule: rev_cases) blast+
  then show thesis
  proof cases
    case 1
    with D m2 pay show thesis by (intro that [of bs2 "us @ v # vs'"]) (simp_all add: layout_def)
  next
    case 2
    with D have "deallocate h (payload_of v) s = Inr (s\<lparr>blocks := bs2\<rparr>)" by (simp add: merge_noop)
    with 2 m2 pay show thesis by (intro that [of bs2 "us @ v # vs'"]) (simp_all add: layout_middle coalesced_append)
  next
    case 3
    have S3: "shape bs2 ?p0 e (us' @ p # v # vs')" using m2(2) 3 by simp
    define bs3 where "bs3 = bs2(p := (bs2 p)\<lparr>bsize := bsize (bs2 p) + (12 + bsize (bs2 v)), bnext := bnext (bs2 v)\<rparr>)"
    note m3 = merge_free [OF S3 3(2) m2(6), folded bs3_def]
    note d = shapeD [OF S3]
    have us: "bs3 a = bs2 a" if "a \<in> set us'" for a using that d(11) by (auto simp: bs3_def)
    have vs: "bs3 a = bs2 a" if "a \<in> set vs'" for a using that d(12) by (auto simp: bs3_def)
    have "coalesced bs3 us'" "us' \<noteq> [] \<Longrightarrow> is_free (bs3 (last us')) \<noteq> 1"
      using m2(4) 3 us sides_cong(4) [of us' bs3 bs2, OF us] by (auto simp: coalesced_append)
    moreover have "coalesced bs3 (p # vs')"
      using m2(5,6) sides_cong(4) [of vs' bs3 bs2, OF vs] by (auto simp: coalesced_Cons vs)
    ultimately have "layout bs3 ?p0 e (us' @ p # vs')" using m3(2) by (simp add: layout_middle)
    moreover have "deallocate h (payload_of v) s = Inr (s\<lparr>blocks := bs3\<rparr>)" using D 3 m3(1) by simp
    moreover have "payloads bs3 (us' @ p # vs') = payloads bs2 (us @ v # vs')" using m3(3) 3 by simp
    ultimately show thesis using pay by (intro that [of bs3 "us' @ p # vs'"]) simp_all
  qed
qed

section \<open>Allocation\<close>

text \<open>A heap \<open>h\<close> whose blocks are \<open>xs\<close>, its end known to both sides of the interface.\<close>

definition heap_at :: "heap \<Rightarrow> 'a rheap_scheme \<Rightarrow> u32 list \<Rightarrow> bool" where
  "heap_at h s xs \<longleftrightarrow> layout (blocks s) (head h) (hend h) xs \<and> unat (hend h) \<le> 0xD0000000 \<and>
     hmax h = 0xD0000000 \<and> page_aligned (hend h) \<and> heap_end s = hend h \<and> heap_max_addr s = 0xD0000000"

definition round4 :: "nat \<Rightarrow> nat" where
  "round4 n = (n + 3) div 4 * 4"

lemma round4_bounds: "n \<le> round4 n" "round4 n \<le> n + 3" "4 dvd round4 n"
  by (simp_all add: round4_def)

lemma align_up_4:
  assumes "unat n < 0xFFFFFFFC"
  obtains needed where "align_up n DEFAULT_ALIGN = Inr needed" and "unat needed = round4 (unat n)"
proof -
  have a: "add_or_panic n 4 = Inr (n + 4)" using assms by (intro add_or_panic_ok) simp
  have "unat (n + 4) = unat n + 4" using assms by (simp add: unat_add_small)
  then have b: "sub_or_panic (n + 4) 1 = Inr (n + 4 - 1)" by (intro sub_or_panic_ok) simp
  have c: "sub_or_panic 4 1 = Inr (3 :: u32)" by (simp add: sub_or_panic_ok)
  have "align_up n DEFAULT_ALIGN = Inr ((n + 4 - 1) AND NOT 3)"
    by (simp add: align_up_def a b c)
  moreover have "unat ((n + 4 - 1) AND NOT 3) = round4 (unat n)"
    using unat_align_up [of n 2] assms by (simp add: round4_def)
  ultimately show thesis by (rule that)
qed

lemma rheap_more_cong:
  assumes "kheap.more s' = kheap.more (s :: 'a rheap_scheme)"
  shows "blocks s' = blocks s" and "words s' = words s" and "heap_locked s' = heap_locked s" and "HEAP s' = HEAP s"
  using assms by (cases s; cases s'; simp)+

lemma allocate_hit:
  assumes H: "heap_at h s (us @ v # vs)" and f: "fits (blocks s) needed v" and al: "4 dvd unat needed"
  obtains bs bs' xs' m where "split_if_worthwhile v needed (blocks s) = Inr bs"
    and "bs' = bs(v := (bs v)\<lparr>is_free := 0\<rparr>)"
    and "layout bs' (head h) (hend h) xs'" and "unat needed \<le> m"
    and "payloads bs' xs' = (payloads (blocks s) (us @ v # vs))(payload_of v \<mapsto> m)"
    and "payloads (blocks s) (us @ v # vs) (payload_of v) = None" and "payload_of v \<noteq> 0"
proof -
  let ?bs = "blocks s"
  from H have L: "layout ?bs (head h) (hend h) (us @ v # vs)" and e: "unat (hend h) \<le> 0xD0000000"
    by (simp_all add: heap_at_def)
  then have S: "shape ?bs (head h) (hend h) (us @ v # vs)" by (simp add: layout_def)
  note d = shapeD [OF S]
  from f have fr: "is_free (?bs v) = 1" and sz: "unat needed \<le> unat (bsize (?bs v))"
    by (simp_all add: fits_def word_le_nat_alt)
  have small: "unat (bsize (?bs v)) \<le> 0x10000000" using d(9,10) e by (simp add: block_end_def)
  have add: "add_or_panic needed 28 = Inr (needed + 28)"
    "unat (needed + 28) = unat needed + 28"
    using sz small by (simp_all add: add_or_panic_ok unat_add_small)
  have none: "payloads ?bs (us @ v # vs) (payload_of v) = None" using fr by (simp add: payloads_def payload_of_def)
  have "unat (v + 12) = unat v + 12" using d(10) e by (simp add: unat_add_small block_end_def)
  then have p0: "payload_of v \<noteq> 0" by (auto simp: payload_of_def)
  show thesis
  proof (cases "bsize (?bs v) \<le> needed + 28")
    case True
    then have sp: "split_if_worthwhile v needed ?bs = Inr ?bs" by (simp add: split_if_worthwhile_def add)
    show thesis by (rule that [OF sp refl mark_used_layout(1) [OF L fr] sz mark_used_layout(2) [OF L fr] none p0])
  next
    case False
    then have big: "unat needed + 12 \<le> unat (bsize (?bs v))" using add(2) by (simp add: word_le_nat_alt)
    define n where "n = payload_of v + needed"
    define bs1 where "bs1 = ?bs(n := \<lparr>bsize = bsize (?bs v) - needed - 12, is_free = 1, bnext = bnext (?bs v)\<rparr>)"
    have "unat (bsize (?bs v) - needed) = unat (bsize (?bs v)) - unat needed"
      using sz by (simp add: unat_sub word_le_nat_alt)
    then have sp: "split_if_worthwhile v needed ?bs = Inr (bs1(v := (bs1 v)\<lparr>bsize := needed, bnext := n\<rparr>))"
      using False big
      by (simp add: split_if_worthwhile_def add sub_or_panic_ok Let_def n_def [symmetric]) (auto simp: bs1_def)
    have up: "(bs1(v := (bs1 v)\<lparr>bsize := needed, bnext := n\<rparr>))
        (v := ((bs1(v := (bs1 v)\<lparr>bsize := needed, bnext := n\<rparr>)) v)\<lparr>is_free := 0\<rparr>) =
      bs1(v := (bs1 v)\<lparr>bsize := needed, is_free := 0, bnext := n\<rparr>)"
      by (cases "bs1 v") simp
    note sl = split_layout [OF L fr al big, folded n_def, folded bs1_def]
    show thesis
      by (rule that [OF sp refl]) (use sl up none p0 in auto)
  qed
qed

lemma allocate_grow:
  assumes H: "heap_at h s xs" and n: "unat needed < 0xFFFFFFF4" and al: "4 dvd unat needed"
  shows "if unat (hend h) + unat needed + 12 \<le> 0xD0000000
     then \<exists>h' s'. grow_and_attach h (last xs) needed s = Inr (payload_of (hend h), h', s') \<and>
         heap_at h' s' (xs @ [hend h]) \<and> payload_of (hend h) \<noteq> 0 \<and>
         payloads (blocks s') (xs @ [hend h]) = (payloads (blocks s) xs)(payload_of (hend h) \<mapsto> unat needed) \<and>
         payloads (blocks s) xs (payload_of (hend h)) = None \<and>
         words s' = words s \<and> eflags s' = eflags s \<and> heap_locked s' = heap_locked s
     else grow_and_attach h (last xs) needed s = Inr (0, h, s)"
proof -
  from H have L: "layout (blocks s) (head h) (hend h) xs" and e: "unat (hend h) \<le> 0xD0000000"
    and mx: "hmax h = 0xD0000000" and pa: "page_aligned (hend h)" and he: "heap_end s = hend h"
    and hm: "heap_max_addr s = 0xD0000000" by (simp_all add: heap_at_def)
  obtain us v where xs: "xs = us @ [v]" using L by (cases xs rule: rev_cases) (auto simp: layout_def shape_def)
  have req: "add_or_panic needed 12 = Inr (needed + 12)" and ur: "unat (needed + 12) = unat needed + 12"
    using n by (simp_all add: add_or_panic_ok unat_add_small)
  show ?thesis
  proof (cases "unat (hend h) + unat needed + 12 \<le> 0xD0000000")
    case False
    then have "case checked_add (hend h) (needed + 12) of None \<Rightarrow> True | Some e \<Rightarrow> e > hmax h"
      by (simp add: checked_add_def ur mx word_less_nat_alt unat_add_small)
    with False show ?thesis by (simp add: grow_and_attach_def req)
  next
    case True
    then have ok: "\<not> (case checked_add (hend h) (needed + 12) of None \<Rightarrow> True | Some e \<Rightarrow> e > hmax h)"
      by (simp add: checked_add_def ur mx word_less_nat_alt unat_add_small)
    define k where "k = (unat (needed + 12) + 4095) div 4096"
    from pa obtain q where q: "unat (hend h) = 4096 * q" by (auto simp: page_aligned_def elim: dvdE)
    have "q + k \<le> 0xD0000" using True q ur unfolding k_def by simp
    then have fit: "unat (hend h) + k * 4096 \<le> 0xD0000000" using q by simp
    have kb: "unat needed + 12 \<le> k * 4096" unfolding k_def ur by simp
    then have k0: "0 < k" by (cases k) auto
    have b: "unat (needed + 12) + 4095 < 4294967296" using True ur by simp
    have fit': "unat (heap_end s) + k * 4096 \<le> unat (heap_max_addr s)" using fit he hm by simp
    obtain s1 where g: "munux_c_heap_grow (needed + 12) s = Some (heap_end s + word_of_nat k * 4096, s1)"
      "heap_end s1 = heap_end s + word_of_nat k * 4096" "heap_max_addr s1 = heap_max_addr s"
      "eflags s1 = eflags s" "kheap.more s1 = kheap.more s"
      "unat (heap_end s1) = unat (heap_end s) + k * 4096" "page_aligned (heap_end s1)"
      by (rule munux_c_heap_grow_ok [OF _ k_def fit' b]) (use pa he in simp)
    note mc = rheap_more_cong [OF g(5)]
    let ?ne = "hend h + word_of_nat k * 4096"
    have une: "unat ?ne = unat (hend h) + k * 4096" using g(2,6) he by simp
    have chk: "\<not> (?ne = 0 \<or> ?ne \<le> hend h \<or> ?ne > hmax h)"
      using une k0 fit mx by (auto simp: word_le_nat_alt word_less_nat_alt u32_eq_iff_unat)
    define bs1 where "bs1 = (blocks s)(hend h := \<lparr>bsize = needed, is_free = 0, bnext = 0\<rparr>)"
    define bs2 where "bs2 = bs1(v := (bs1 v)\<lparr>bnext := hend h\<rparr>)"
    have a4: "aligned4 (hend h)" using q by (simp add: aligned4_def)
    have "unat (hend h) + 12 + unat needed \<le> unat ?ne" using une kb by simp
    note gl = grow_layout [OF L [unfolded xs] a4 this, folded bs1_def, folded bs2_def]
    let ?s' = "s1\<lparr>blocks := bs2\<rparr>" and ?h' = "h\<lparr>hend := ?ne\<rparr>"
    have r: "grow_and_attach h (last xs) needed s = Inr (payload_of (hend h), ?h', ?s')"
      using ok g(1) chk he mc(1) xs by (simp add: grow_and_attach_def req bs2_def bs1_def Let_def)
    have "unat (hend h + 12) = unat (hend h) + 12" using e by (simp add: unat_add_small)
    then have p0: "payload_of (hend h) \<noteq> 0" by (auto simp: payload_of_def)
    have "heap_at ?h' ?s' (xs @ [hend h])"
      using gl(1) fit une mx g(2,3,7) he hm xs by (simp add: heap_at_def)
    then show ?thesis using r p0 gl(2,3) xs True mc g(4) by auto
  qed
qed

definition no_room :: "heap \<Rightarrow> 'a rheap_scheme \<Rightarrow> u32 list \<Rightarrow> nat \<Rightarrow> bool" where
  "no_room h s xs n \<longleftrightarrow>
     (\<forall>a \<in> set xs. is_free (blocks s a) = 1 \<longrightarrow> unat (bsize (blocks s a)) < round4 n) \<and>
     0xD0000000 < unat (hend h) + round4 n + 12"

lemma allocate_spec:
  assumes H: "heap_at h s xs" and n: "unat n \<le> 0xFFFFFFF0" "n \<noteq> 0"
  obtains p h' s' xs' where "allocate h n s = Inr (p, h', s')" and "heap_at h' s' xs'"
    and "words s' = words s" and "eflags s' = eflags s" and "heap_locked s' = heap_locked s"
    and "p = 0 \<and> payloads (blocks s') xs' = payloads (blocks s) xs \<and> no_room h s xs (unat n) \<or>
      p \<noteq> 0 \<and> payloads (blocks s) xs p = None \<and>
        (\<exists>m \<ge> unat n. payloads (blocks s') xs' = (payloads (blocks s) xs)(p \<mapsto> m))"
proof -
  obtain needed where nd: "align_up n DEFAULT_ALIGN = Inr needed" "unat needed = round4 (unat n)"
    using align_up_4 [of n] n by auto
  have "(unat n + 3) div 4 \<le> 0x3FFFFFFC" using n by simp
  then have nb: "unat needed < 0xFFFFFFF4" and al: "4 dvd unat needed" and ge: "unat n \<le> unat needed"
    unfolding nd(2) using round4_bounds [of "unat n"] by (simp_all add: round4_def)
  from H have sg: "seg (blocks s) (head h) xs 0" "xs \<noteq> []" by (auto simp: heap_at_def layout_def shape_def)
  from find_fit_spec [OF sg, of needed] show thesis
  proof (elim disjE exE conjE)
    fix us v vs assume xs: "xs = us @ v # vs" and ff: "find_fit (blocks s) needed (head h) = Some (True, v)"
      and fit: "fits (blocks s) needed v"
    obtain bs bs' xs' m where a: "split_if_worthwhile v needed (blocks s) = Inr bs"
      "bs' = bs(v := (bs v)\<lparr>is_free := 0\<rparr>)" "layout bs' (head h) (hend h) xs'" "unat needed \<le> m"
      "payloads bs' xs' = (payloads (blocks s) (us @ v # vs))(payload_of v \<mapsto> m)"
      "payloads (blocks s) (us @ v # vs) (payload_of v) = None" "payload_of v \<noteq> 0"
      by (rule allocate_hit [OF H [unfolded xs] fit al])
    have al: "allocate h n s = Inr (payload_of v, h, s\<lparr>blocks := bs'\<rparr>)"
      using n(2) nd(1) ff a(1,2) by (simp add: allocate_def)
    have at: "heap_at h (s\<lparr>blocks := bs'\<rparr>) xs'" using H a(3) by (simp add: heap_at_def)
    have "\<exists>m \<ge> unat n. payloads bs' xs' = (payloads (blocks s) xs)(payload_of v \<mapsto> m)"
      using a(4,5) ge xs by (intro exI [of _ m]) simp
    then show thesis using a(6,7) xs by (intro that [OF al at]) simp_all
  next
    assume ff: "find_fit (blocks s) needed (head h) = Some (False, last xs)"
      and nf: "\<forall>u \<in> set xs. \<not> fits (blocks s) needed u"
    have al': "allocate h n s = grow_and_attach h (last xs) needed s"
      using n(2) nd(1) ff by (simp add: allocate_def)
    note g = allocate_grow [OF H nb al]
    show thesis
    proof (cases "unat (hend h) + unat needed + 12 \<le> 0xD0000000")
      case True
      from g [unfolded if_P [OF True]] obtain h' s' where g':
        "grow_and_attach h (last xs) needed s = Inr (payload_of (hend h), h', s')"
        "heap_at h' s' (xs @ [hend h])" "payload_of (hend h) \<noteq> 0"
        "payloads (blocks s') (xs @ [hend h]) = (payloads (blocks s) xs)(payload_of (hend h) \<mapsto> unat needed)"
        "payloads (blocks s) xs (payload_of (hend h)) = None"
        "words s' = words s" "eflags s' = eflags s" "heap_locked s' = heap_locked s" by blast
      show thesis by (rule that [OF _ g'(2) g'(6-8)]) (use al' g' ge in auto)
    next
      case False
      then have "no_room h s xs (unat n)"
        using nf nd(2) by (auto simp: no_room_def fits_def word_le_nat_alt)
      then show thesis using that [of 0 h s xs] g [unfolded if_not_P [OF False]] al' H by simp
    qed
  qed
qed

lemma allocate_overflow:
  assumes H: "heap_at h s xs" and n: "0xFFFFFFF0 < unat n"
  shows "allocate h n s = Inl Overflow"
proof (cases "unat n < 0xFFFFFFFC")
  case True
  then obtain needed where nd: "align_up n DEFAULT_ALIGN = Inr needed" "unat needed = round4 (unat n)"
    by (rule align_up_4)
  have "0x3FFFFFFD \<le> (unat n + 3) div 4" using n by simp
  then have nb: "0xFFFFFFF4 \<le> unat needed" unfolding nd(2) round4_def by simp
  from H have sg: "seg (blocks s) (head h) xs 0" "xs \<noteq> []" and l: "laid (blocks s) 0xC0000000 xs"
    and e: "limit (blocks s) 0xC0000000 xs \<le> 0xD0000000"
    by (auto simp: heap_at_def layout_def shape_def)
  have "\<not> fits (blocks s) needed a" if "a \<in> set xs" for a
    using laid_bounds(2) [OF l that] e nb by (auto simp: fits_def block_end_def word_le_nat_alt)
  with find_fit_spec [OF sg, of needed]
  have "find_fit (blocks s) needed (head h) = Some (False, last xs)" by auto
  moreover have "add_or_panic needed 12 = Inl Overflow"
    using nb by (simp add: add_or_panic_def checked_add_def)
  ultimately show ?thesis using n nd(1) by (auto simp: allocate_def grow_and_attach_def)
next
  case False
  then have "align_up n DEFAULT_ALIGN = Inl Overflow"
    by (simp add: align_up_def add_or_panic_def checked_add_def)
  then show ?thesis using n by (auto simp: allocate_def)
qed

section \<open>Live payloads\<close>

lemma payload_bounds:
  assumes H: "heap_at h s xs" and p: "payloads (blocks s) xs p = Some m"
  shows "0xC000000C \<le> unat p" and "unat p + m \<le> unat (hend h)" and "aligned4 p"
    and "unat p = unat (p - 12) + 12" and "m = unat (bsize (blocks s (p - 12)))" and "p - 12 \<in> set xs"
proof -
  from p show in_xs: "p - 12 \<in> set xs" and m: "m = unat (bsize (blocks s (p - 12)))"
    by (auto simp: payloads_def split: if_splits)
  from H have l: "laid (blocks s) 0xC0000000 xs" and e: "limit (blocks s) 0xC0000000 xs \<le> unat (hend h)"
    "unat (hend h) \<le> 0xD0000000"
    by (auto simp: heap_at_def layout_def shape_def)
  note b = laid_bounds(2) [OF l in_xs]
  have "unat (p - 12 + 12) = unat (p - 12) + 12" using b e by (intro trans [OF unat_add_small]) (auto simp: block_end_def)
  then show up: "unat p = unat (p - 12) + 12" by simp
  with b show "0xC000000C \<le> unat p" by simp
  show "unat p + m \<le> unat (hend h)" using b e up m by (simp add: block_end_def)
  show "aligned4 p" using b unfolding aligned4_def up by (intro dvd_add) simp_all
qed

lemma payloads_disjoint:
  assumes H: "heap_at h s xs" and p: "payloads (blocks s) xs p = Some m" and q: "payloads (blocks s) xs q = Some k"
    and "p \<noteq> q"
  shows "unat p + m + 12 \<le> unat q \<or> unat q + k + 12 \<le> unat p"
proof -
  from H have l: "laid (blocks s) 0xC0000000 xs" by (auto simp: heap_at_def layout_def shape_def)
  note bp = payload_bounds [OF H p] and bq = payload_bounds [OF H q]
  from assms(4) have "p - 12 \<noteq> q - 12" by simp
  from laid_disjoint [OF l bp(6) bq(6) this] show ?thesis
    using bp(4,5) bq(4,5) by (auto simp: block_end_def)
qed

section \<open>Aligned allocation\<close>

lemma power_of_two_pow: "k < 32 \<Longrightarrow> is_power_of_two (2 ^ k)"
proof -
  assume k: "k < 32"
  have "(2 ^ k :: u32) \<noteq> 0" using unat_two_power [OF k] by (metis power_not_zero unat_0 zero_neq_numeral)
  moreover have "(2 ^ k :: u32) AND mask k = 0" by (rule bit_word_eqI) (auto simp: bit_simps)
  ultimately show ?thesis by (simp add: is_power_of_two_def mask_eq_exp_minus_1)
qed

lemma align_up_pow:
  assumes "unat b + 2 ^ k < 4294967296" and "k < 32"
  obtains a where "align_up b (2 ^ k) = Inr a" and "2 ^ k dvd unat a" and "unat b \<le> unat a" and "unat a < unat b + 2 ^ k"
proof -
  have u: "unat (2 ^ k :: u32) = 2 ^ k" using assms(2) by (rule unat_two_power)
  have x: "add_or_panic b (2 ^ k) = Inr (b + 2 ^ k)" using assms u by (intro add_or_panic_ok) simp
  have "unat (b + 2 ^ k) = unat b + 2 ^ k" using assms u by (simp add: unat_add_small)
  then have y: "sub_or_panic (b + 2 ^ k) 1 = Inr (b + 2 ^ k - 1)" by (intro sub_or_panic_ok) (simp add: Suc_le_eq)
  have z: "sub_or_panic (2 ^ k) 1 = Inr (2 ^ k - 1 :: u32)" using u by (intro sub_or_panic_ok) simp
  have a: "align_up b (2 ^ k) = Inr ((b + 2 ^ k - 1) AND NOT (2 ^ k - 1))" by (simp add: align_up_def x y z)
  have v: "unat ((b + 2 ^ k - 1) AND NOT (2 ^ k - 1)) = (unat b + (2 ^ k - 1)) div 2 ^ k * 2 ^ k"
    using unat_align_up [of b k] assms by simp
  have "(unat b + (2 ^ k - 1)) mod 2 ^ k < 2 ^ k" "(unat b + (2 ^ k - 1)) div 2 ^ k * 2 ^ k + (unat b + (2 ^ k - 1)) mod 2 ^ k = unat b + (2 ^ k - 1)"
    by (simp_all only: mod_less_divisor zero_less_power zero_less_numeral div_mult_mod_eq)
  then have "unat b \<le> (unat b + (2 ^ k - 1)) div 2 ^ k * 2 ^ k" "(unat b + (2 ^ k - 1)) div 2 ^ k * 2 ^ k < unat b + 2 ^ k" by linarith+
  then show thesis by (intro that [OF a]) (simp_all only: v dvd_triv_right)
qed

lemma max_two_power:
  assumes "k < 32"
  shows "max (2 ^ k) DEFAULT_ALIGN = (2 ^ max k 2 :: u32)"
proof (cases "k \<le> 2")
  case True
  then have "k \<in> {0, 1, 2}" by auto
  then show ?thesis by (auto simp: max_def)
next
  case False
  then have "(2 :: nat) ^ 2 \<le> 2 ^ k" by (intro power_increasing) simp_all
  then have "\<not> (2 ^ k :: u32) \<le> 4 \<or> 2 ^ k = (4 :: u32)"
    using unat_two_power [OF assms] by (simp add: word_le_nat_alt word_unat_eq_iff)
  then show ?thesis using False by (auto simp: max_def)
qed

text \<open>The aligned address inside a block leaves a word for the base in front of it.\<close>

lemma aligned_place:
  assumes b: "unat base \<le> 0xD0000000" and K: "K \<le> 28"
  obtains p where "add_or_panic base 4 = Inr (base + 4)" and "align_up (base + 4) (2 ^ K) = Inr p" and "sub_or_panic p 4 = Inr (p - 4)"
    and "2 ^ K dvd unat p" and "unat base + 4 \<le> unat p" and "unat p < unat base + 4 + 2 ^ K"
proof -
  have "(2 :: nat) ^ K \<le> 2 ^ 28" using K by (intro power_increasing) simp_all
  then have A28: "2 ^ K \<le> (268435456 :: nat)" by simp
  have b4: "add_or_panic base 4 = Inr (base + 4)" "unat (base + 4) = unat base + 4"
    using b by (simp_all add: add_or_panic_ok unat_add_small)
  have bl: "unat (base + 4) + 2 ^ K < 4294967296" "K < 32" using b4(2) b A28 K by simp_all
  obtain p where p0: "align_up (base + 4) (2 ^ K) = Inr p" "2 ^ K dvd unat p" "unat (base + 4) \<le> unat p"
    "unat p < unat (base + 4) + 2 ^ K"
    by (rule align_up_pow [OF bl])
  then have p: "2 ^ K dvd unat p" "unat base + 4 \<le> unat p" "unat p < unat base + 4 + 2 ^ K" unfolding b4(2) by simp_all
  have "sub_or_panic p 4 = Inr (p - 4)" using p(2) by (intro sub_or_panic_ok) simp
  then show thesis using that [of p] p p0(1) b4(1) by simp
qed

lemma allocate_aligned_spec:
  assumes H: "heap_at h s xs" and k: "K = max k 2" "k \<le> 28" and n: "unat n + 2 ^ K + 4 \<le> 0xFFFFFFF0" "n \<noteq> 0"
  obtains p h' s' xs' where "allocate_aligned h n (2 ^ k) s = Inr (p, h', s')" and "heap_at h' s' xs'"
    and "eflags s' = eflags s" and "heap_locked s' = heap_locked s"
    and "p = 0 \<and> payloads (blocks s') xs' = payloads (blocks s) xs \<or>
      p \<noteq> 0 \<and> 2 ^ K dvd unat p \<and> (\<exists>base m. words s' (p - 4) = base \<and> payloads (blocks s) xs base = None \<and>
        payloads (blocks s') xs' = (payloads (blocks s) xs)(base \<mapsto> m) \<and>
        unat base + 4 \<le> unat p \<and> unat p + unat n \<le> unat base + m)"
proof -
  let ?A = "2 ^ K :: u32" and ?t = "n + 2 ^ K + 4"
  have K: "K < 32" "K \<le> 28" "k < 32" using k by auto
  have uA: "unat ?A = 2 ^ K" using K(1) by (rule unat_two_power)
  have "unat (n + ?A) = unat n + 2 ^ K" using n uA by (simp add: unat_add_small)
  then have ut: "unat ?t = unat n + 2 ^ K + 4" and ct: "Option.bind (checked_add n ?A) (\<lambda>v. checked_add v 4) = Some ?t"
    using n uA by (simp_all add: unat_add_small checked_add_def)
  have t0: "?t \<noteq> 0" and tb: "unat ?t \<le> 0xFFFFFFF0" using ut n by auto
  have mx: "max (2 ^ k) DEFAULT_ALIGN = ?A" unfolding k(1) by (rule max_two_power [OF K(3)])
  obtain base h' s' xs' where a: "allocate h ?t s = Inr (base, h', s')" "heap_at h' s' xs'"
    "words s' = words s" "eflags s' = eflags s" "heap_locked s' = heap_locked s"
    "base = 0 \<and> payloads (blocks s') xs' = payloads (blocks s) xs \<and> no_room h s xs (unat ?t) \<or>
      base \<noteq> 0 \<and> payloads (blocks s) xs base = None \<and>
        (\<exists>m \<ge> unat ?t. payloads (blocks s') xs' = (payloads (blocks s) xs)(base \<mapsto> m))"
    by (rule allocate_spec [OF H tb t0])
  have al: "allocate_aligned h n (2 ^ k) s = (if base = 0 then Inr (0, h', s')
      else and_then (add_or_panic base 4) (\<lambda>b. and_then (align_up b ?A) (\<lambda>aligned.
        and_then (sub_or_panic aligned 4) (\<lambda>slot. Inr (aligned, h', s'\<lparr>words := (words s')(slot := base)\<rparr>)))))"
    using n(2) power_of_two_pow [OF K(3)] ct a(1) unfolding allocate_aligned_def Let_def mx by simp
  show thesis
  proof (cases "base = 0")
    case True
    then show thesis using al a that [of 0 h' s' xs'] by simp
  next
    case False
    with a(6) obtain m where m: "unat ?t \<le> m" "payloads (blocks s') xs' = (payloads (blocks s) xs)(base \<mapsto> m)"
      and none: "payloads (blocks s) xs base = None" by blast
    have pb: "payloads (blocks s') xs' base = Some m" by (simp add: m(2))
    note b = payload_bounds [OF a(2) pb]
    have "unat (hend h') \<le> 0xD0000000" using a(2) by (simp add: heap_at_def)
    with b(2) have b3: "unat base \<le> 0xD0000000" by simp
    obtain p where q: "add_or_panic base 4 = Inr (base + 4)" "align_up (base + 4) ?A = Inr p" "sub_or_panic p 4 = Inr (p - 4)"
      and p:
      "2 ^ K dvd unat p" "unat base + 4 \<le> unat p" "unat p < unat base + 4 + 2 ^ K"
      by (rule aligned_place [OF b3 K(2)])
    let ?s = "s'\<lparr>words := (words s')(p - 4 := base)\<rparr>"
    have r: "allocate_aligned h n (2 ^ k) s = Inr (p, h', ?s)" using al False q by simp
    have at: "heap_at h' ?s xs'" using a(2) by (simp add: heap_at_def)
    have "p \<noteq> 0" using p(2) by auto
    moreover have "unat p + unat n \<le> unat base + m" using p(3) m(1) ut by simp
    moreover have "words ?s (p - 4) = base" "payloads (blocks ?s) xs' = (payloads (blocks s) xs)(base \<mapsto> m)"
      "eflags ?s = eflags s" "heap_locked ?s = heap_locked s"
      using m(2) a(4,5) by simp_all
    ultimately show thesis using p(1,2) none by (intro that [OF r at]) blast+
  qed
qed

end
