(* ===== verification/Heap.thy ===== *)
theory Heap
  imports RustHeap
begin

text \<open>
  The public heap interface of \<^verbatim>\<open>memory/heap.c\<close> (\<^verbatim>\<open>kmalloc\<close> and friends, forwarded to the
  Rust allocator) and its correctness: the state is abstracted to the partial map \<open>live\<close> from
  payload addresses to sizes. The locale \<open>allocator\<close> states what every client of the heap relies
  on; its interpretation on \<open>kmalloc\<close> and \<open>kfree\<close> discharges the laws for the code.
\<close>

section \<open>Operations\<close>

definition heap_init :: "'a rheap_scheme \<Rightarrow> rust_stop + 'a rheap_scheme" where
  "heap_init s =
     (let s1 = s\<lparr>heap_end := HEAP_START + HEAP_INITIAL_SIZE, heap_max_addr := HEAP_START + HEAP_MAX_SIZE\<rparr> in
      and_then (or_stuck (map_heap_range HEAP_START (heap_end s1) s1)) (\<lambda>s2.
        munux_rs_heap_init HEAP_START HEAP_INITIAL_SIZE HEAP_MAX_SIZE s2))"

definition kmalloc :: "u32 \<Rightarrow> 'a rheap_scheme \<Rightarrow> rust_stop + (u32 \<times> 'a rheap_scheme)" where
  "kmalloc nbytes s = munux_rs_alloc nbytes s"

definition kfree :: "u32 \<Rightarrow> 'a rheap_scheme \<Rightarrow> rust_stop + 'a rheap_scheme" where
  "kfree ptr s = munux_rs_free ptr s"

text \<open>The global allocator of the Rust collections (\<^verbatim>\<open>munux-rs-ffi\<close>): \<open>align\<close> is the alignment of the layout.\<close>

definition KernelAllocator_alloc :: "u32 \<Rightarrow> u32 \<Rightarrow> 'a rheap_scheme \<Rightarrow> rust_stop + (u32 \<times> 'a rheap_scheme)" where
  "KernelAllocator_alloc nbytes align s = munux_rs_alloc_aligned nbytes align s"

definition KernelAllocator_dealloc :: "u32 \<Rightarrow> 'a rheap_scheme \<Rightarrow> rust_stop + 'a rheap_scheme" where
  "KernelAllocator_dealloc ptr s = munux_rs_free_aligned ptr s"

definition kmalloc_aligned :: "u32 \<Rightarrow> 'a rheap_scheme \<Rightarrow> rust_stop + (u32 \<times> 'a rheap_scheme)" where
  "kmalloc_aligned nbytes s = munux_rs_alloc_aligned nbytes PAGE_SIZE s"

definition kfree_aligned :: "u32 \<Rightarrow> 'a rheap_scheme \<Rightarrow> rust_stop + 'a rheap_scheme" where
  "kfree_aligned ptr s = munux_rs_free_aligned ptr s"

text \<open>The second result is the value stored through \<^verbatim>\<open>phys_addr\<close>, when it is stored.\<close>

definition kmalloc_physical ::
    "u32 \<Rightarrow> bool \<Rightarrow> 'a rheap_scheme \<Rightarrow> rust_stop + (u32 \<times> u32 option \<times> 'a rheap_scheme)" where
  "kmalloc_physical nbytes phys_addr s =
     and_then (kmalloc nbytes s) (\<lambda>(virt, s1).
       Inr (virt, if virt \<noteq> 0 \<and> phys_addr then Some (vmm_get_physical_address virt s1) else None, s1))"

section \<open>Abstraction\<close>

text \<open>The list of blocks, and the live payloads with their sizes.\<close>

partial_function (option) block_list :: "(u32 \<Rightarrow> block) \<Rightarrow> u32 \<Rightarrow> u32 list option" where
  "block_list bs p =
     (if p = 0 then Some [] else do { as \<leftarrow> block_list bs (bnext (bs p)); Some (p # as) })"

definition live :: "'a rheap_scheme \<Rightarrow> u32 \<Rightarrow> nat option" where
  "live s = (case HEAP s of
       None \<Rightarrow> (\<lambda>_. None)
     | Some h \<Rightarrow> (case block_list (blocks s) (head h) of None \<Rightarrow> (\<lambda>_. None) | Some xs \<Rightarrow> payloads (blocks s) xs))"

definition heap_inv :: "'a rheap_scheme \<Rightarrow> bool" where
  "heap_inv s \<longleftrightarrow> \<not> heap_locked s \<and> (\<exists>h xs. HEAP s = Some h \<and> heap_at h s xs)"

text \<open>No free block is large enough for \<open>n\<close> bytes and the heap cannot grow by a block of that size.\<close>

definition heap_full :: "'a rheap_scheme \<Rightarrow> nat \<Rightarrow> bool" where
  "heap_full s n \<longleftrightarrow> (\<exists>h xs. HEAP s = Some h \<and> heap_at h s xs \<and> no_room h s xs n)"

lemma block_list_seg: "seg bs p xs 0 \<Longrightarrow> block_list bs p = Some xs"
proof (induction xs arbitrary: p)
  case Nil
  then show ?case by (subst block_list.simps) simp
next
  case (Cons a xs)
  then show ?case by (subst block_list.simps) simp
qed

lemma live_eq: "HEAP s = Some h \<Longrightarrow> heap_at h s xs \<Longrightarrow> live s = payloads (blocks s) xs"
  by (auto simp: live_def heap_at_def layout_def shape_def dest: block_list_seg)

text \<open>Entering and leaving the critical section does not touch the heap.\<close>

lemma heap_lock_ok:
  "\<not> heap_locked s \<Longrightarrow> heap_lock s = Inr (eflags s, s\<lparr>eflags := eflags s AND NOT 0x200, heap_locked := True\<rparr>)"
  by (simp add: heap_lock_def munux_c_irq_save_def)

lemma heap_at_flags [simp]:
  "heap_at h (s\<lparr>eflags := x\<rparr>) xs = heap_at h s xs"
  "heap_at h (s\<lparr>heap_locked := b\<rparr>) xs = heap_at h s xs"
  "heap_at h (s\<lparr>HEAP := r\<rparr>) xs = heap_at h s xs"
  by (simp_all add: heap_at_def)

lemma heap_unlock_fields [simp]:
  "heap_at h (heap_unlock fl s) xs = heap_at h s xs" "HEAP (heap_unlock fl s) = HEAP s"
  "blocks (heap_unlock fl s) = blocks s" "words (heap_unlock fl s) = words s"
  "heap_locked (heap_unlock fl s) = False" "eflags (heap_unlock fl s) = fl"
  "heap_end (heap_unlock fl s) = heap_end s" "heap_max_addr (heap_unlock fl s) = heap_max_addr s"
  by (simp_all add: heap_unlock_def munux_c_irq_restore_def heap_at_def)

lemma kmalloc_spec:
  assumes inv: "heap_inv s" and n: "unat n \<le> 0xFFFFFFF0"
  obtains p s' where "kmalloc n s = Inr (p, s')" and "heap_inv s'" and "eflags s' = eflags s"
    and "p = 0 \<and> live s' = live s \<and> (n = 0 \<or> heap_full s (unat n)) \<or> p \<noteq> 0 \<and> live s p = None \<and> (\<exists>m \<ge> unat n. live s' = (live s)(p \<mapsto> m))"
proof -
  from inv obtain h xs where h: "HEAP s = Some h" "heap_at h s xs" and l: "\<not> heap_locked s"
    by (auto simp: heap_inv_def)
  let ?s1 = "s\<lparr>eflags := eflags s AND NOT 0x200, heap_locked := True\<rparr>"
  have at: "heap_at h ?s1 xs" and b: "blocks ?s1 = blocks s" using h(2) by simp_all
  note lv = live_eq [OF h]
  show thesis
  proof (cases "n = 0")
    case True
    let ?s' = "heap_unlock (eflags s) (?s1\<lparr>HEAP := Some h\<rparr>)"
    have k: "kmalloc n s = Inr (0, ?s')"
      using True h(1) by (simp add: kmalloc_def munux_rs_alloc_def heap_lock_ok [OF l] allocate_def)
    have at': "heap_at h ?s' xs" using at by simp
    have "live ?s' = live s" using live_eq [OF _ at'] lv by simp
    then show thesis using at' True by (intro that [OF k]) (auto simp: heap_inv_def)
  next
    case False
    obtain p h' s2 xs' where a: "allocate h n ?s1 = Inr (p, h', s2)" "heap_at h' s2 xs'"
      "p = 0 \<and> payloads (blocks s2) xs' = payloads (blocks ?s1) xs \<and> no_room h ?s1 xs (unat n) \<or>
       p \<noteq> 0 \<and> payloads (blocks ?s1) xs p = None \<and>
        (\<exists>m \<ge> unat n. payloads (blocks s2) xs' = (payloads (blocks ?s1) xs)(p \<mapsto> m))"
      by (rule allocate_spec [OF at n False])
    let ?s' = "heap_unlock (eflags s) (s2\<lparr>HEAP := Some h'\<rparr>)"
    have k: "kmalloc n s = Inr (p, ?s')"
      using h(1) a(1) by (simp add: kmalloc_def munux_rs_alloc_def heap_lock_ok [OF l])
    have at': "heap_at h' ?s' xs'" using a(2) by simp
    have lv': "live ?s' = payloads (blocks s2) xs'" using live_eq [OF _ at'] by simp
    have "no_room h ?s1 xs (unat n) \<Longrightarrow> heap_full s (unat n)"
      using h by (auto simp: heap_full_def no_room_def)
    then show thesis
      by (intro that [OF k]) (use at' a(3) lv lv' b in \<open>auto simp: heap_inv_def\<close>)
  qed
qed

lemma kfree_spec:
  assumes inv: "heap_inv s" and p: "live s p = Some m"
  obtains s' where "kfree p s = Inr s'" and "heap_inv s'" and "eflags s' = eflags s" and "live s' = (live s)(p := None)"
proof -
  from inv obtain h xs where h: "HEAP s = Some h" "heap_at h s xs" and l: "\<not> heap_locked s"
    by (auto simp: heap_inv_def)
  note lv = live_eq [OF h]
  let ?s1 = "s\<lparr>eflags := eflags s AND NOT 0x200, heap_locked := True\<rparr>"
  have pl: "payloads (blocks s) xs p = Some m" using p lv by simp
  then have v: "p - 12 \<in> set xs" "is_free (blocks s (p - 12)) \<noteq> 1" by (auto simp: payloads_def split: if_splits)
  then obtain us vs where xs: "xs = us @ (p - 12) # vs" by (auto simp: in_set_conv_decomp)
  have L: "layout (blocks ?s1) (head h) (hend h) (us @ (p - 12) # vs)" using h(2) xs by (simp add: heap_at_def)
  have po: "payload_of (p - 12) = p" by (simp add: payload_of_def)
  have u1: "is_free (blocks ?s1 (p - 12)) \<noteq> 1" using v(2) by simp
  obtain bs' xs' where d: "deallocate h p ?s1 = Inr (?s1\<lparr>blocks := bs'\<rparr>)" "layout bs' (head h) (hend h) xs'"
    "payloads bs' xs' = (payloads (blocks ?s1) (us @ (p - 12) # vs))(p := None)"
    using deallocate_spec [OF L u1] unfolding po by blast
  have p0: "p \<noteq> 0" using payload_bounds(1) [OF h(2) pl] by auto
  let ?s' = "heap_unlock (eflags s) (?s1\<lparr>blocks := bs'\<rparr>)"
  have k: "kfree p s = Inr ?s'"
    using p0 h(1) d(1) by (simp add: kfree_def munux_rs_free_def heap_lock_ok [OF l])
  have at: "heap_at h ?s' xs'" using h(2) d(2) by (simp add: heap_at_def)
  have "live ?s' = (live s)(p := None)" using live_eq [OF _ at] h(1) d(3) lv xs by simp
  then show thesis using at h(1) by (intro that [OF k]) (auto simp: heap_inv_def)
qed

lemma live_disjoint:
  assumes "heap_inv s" and "live s p = Some m" and "live s q = Some k" and "p \<noteq> q"
  shows "unat p + m + 12 \<le> unat q \<or> unat q + k + 12 \<le> unat p"
proof -
  from assms(1) obtain h xs where h: "HEAP s = Some h" "heap_at h s xs" by (auto simp: heap_inv_def)
  show ?thesis using payloads_disjoint [OF h(2)] assms(2-4) live_eq [OF h] by simp
qed

lemma live_bounds:
  assumes "heap_inv s" and "live s p = Some m"
  shows "0xC000000C \<le> unat p" and "unat p + m \<le> unat (heap_end s)" and "unat (heap_end s) \<le> 0xD0000000" and "aligned4 p"
proof -
  from assms(1) obtain h xs where h: "HEAP s = Some h" "heap_at h s xs" by (auto simp: heap_inv_def)
  have e: "heap_end s = hend h" "unat (hend h) \<le> 0xD0000000" using h(2) by (simp_all add: heap_at_def)
  show "0xC000000C \<le> unat p" "unat p + m \<le> unat (heap_end s)" "unat (heap_end s) \<le> 0xD0000000" "aligned4 p"
    using payload_bounds [OF h(2), of p m] assms(2) live_eq [OF h] e by simp_all
qed

section \<open>The allocator as an interface\<close>

locale allocator =
  fixes alloc :: "u32 \<Rightarrow> 's \<Rightarrow> 'e + (u32 \<times> 's)" and free :: "u32 \<Rightarrow> 's \<Rightarrow> 'e + 's"
    and lives :: "'s \<Rightarrow> u32 \<Rightarrow> nat option" and inv :: "'s \<Rightarrow> bool" and max_request :: nat
  assumes alloc_returns: "inv s \<Longrightarrow> unat n \<le> max_request \<Longrightarrow> \<exists>p s'. alloc n s = Inr (p, s') \<and> inv s' \<and>
      (p = 0 \<and> lives s' = lives s \<or> p \<noteq> 0 \<and> lives s p = None \<and> (\<exists>m \<ge> unat n. lives s' = (lives s)(p \<mapsto> m)))"
    and free_returns: "inv s \<Longrightarrow> lives s p \<noteq> None \<Longrightarrow> \<exists>s'. free p s = Inr s' \<and> inv s' \<and> lives s' = (lives s)(p := None)"
    and lives_disjoint: "inv s \<Longrightarrow> lives s p = Some m \<Longrightarrow> lives s q = Some k \<Longrightarrow> p \<noteq> q \<Longrightarrow>
      unat p + m \<le> unat q \<or> unat q + k \<le> unat p"
begin

text \<open>What a client may do: request memory, or release a live payload.\<close>

inductive step :: "'s \<Rightarrow> 's \<Rightarrow> bool" where
  step_alloc: "unat n \<le> max_request \<Longrightarrow> alloc n s = Inr (p, s') \<Longrightarrow> step s s'"
| step_free: "lives s p \<noteq> None \<Longrightarrow> free p s = Inr s' \<Longrightarrow> step s s'"

lemma step_inv: "step s s' \<Longrightarrow> inv s \<Longrightarrow> inv s'"
proof (induction rule: step.induct)
  case (step_alloc n s p s')
  then show ?case using alloc_returns [of s n] by auto
next
  case (step_free s p s')
  then show ?case using free_returns [of s p] by auto
qed

lemma steps_inv: "step\<^sup>*\<^sup>* s s' \<Longrightarrow> inv s \<Longrightarrow> inv s'"
  by (induction rule: rtranclp_induct) (auto intro: step_inv)

lemma alloc_free_lives:
  assumes "inv s" and "unat n \<le> max_request" and "alloc n s = Inr (p, s')" and "p \<noteq> 0"
  shows "\<exists>s''. free p s' = Inr s'' \<and> inv s'' \<and> lives s'' = lives s"
proof -
  from alloc_returns [OF assms(1,2)] assms(3,4) obtain m where
    i: "inv s'" "lives s p = None" "lives s' = (lives s)(p \<mapsto> m)" by auto
  then obtain s'' where "free p s' = Inr s''" "inv s''" "lives s'' = (lives s')(p := None)"
    using free_returns [of s' p] by auto
  with i show ?thesis by (auto simp: fun_upd_idem)
qed

end

interpretation kernel_heap: allocator kmalloc kfree live heap_inv "0xFFFFFFF0"
proof
  fix s :: "'a rheap_scheme" and n :: u32 assume "heap_inv s" "unat n \<le> 0xFFFFFFF0"
  then show "\<exists>p s'. kmalloc n s = Inr (p, s') \<and> heap_inv s' \<and> (p = 0 \<and> live s' = live s \<or>
      p \<noteq> 0 \<and> live s p = None \<and> (\<exists>m \<ge> unat n. live s' = (live s)(p \<mapsto> m)))"
    by (rule kmalloc_spec) blast
next
  fix s :: "'a rheap_scheme" and p assume "heap_inv s" "live s p \<noteq> None"
  then show "\<exists>s'. kfree p s = Inr s' \<and> heap_inv s' \<and> live s' = (live s)(p := None)"
    using kfree_spec [of s p] by (metis not_None_eq)
next
  fix s :: "'a rheap_scheme" and p q m k
  assume "heap_inv s" "live s p = Some m" "live s q = Some k" "p \<noteq> q"
  then show "unat p + m \<le> unat q \<or> unat q + k \<le> unat p" using live_disjoint [of s p m q k] by auto
qed

section \<open>Initialisation\<close>

lemma heap_init_spec:
  assumes wf: "vmm_wf s" and us: "used_set s = {..<n}" and pd: "\<not> pd_present s (pd_index 0xC0000000)"
    and lim: "n + 257 \<le> frame_limit s" and l: "\<not> heap_locked s"
  obtains s' where "heap_init s = Inr s'" and "heap_inv s'" and "live s' = (\<lambda>_. None)" and "eflags s' = eflags s"
    and "heap_end s' = 0xC0100000" and "vmm_wf s'" and "used_set s' = {..<n + 257}"
    and "\<And>v. pte s' v = (if 0xC0000000 \<le> unat v \<and> unat v < 0xC0100000
       then word_of_nat (fresh_frame n ((unat v - 0xC0000000) div 4096)) * 4096 OR 3 else pte s v)"
proof -
  let ?s1 = "s\<lparr>heap_end := 0xC0100000, heap_max_addr := 0xD0000000\<rparr>"
  let ?t = "fold (\<lambda>i. map_fresh_page (0xC0000000 + word_of_nat i * 4096)) [0..<Suc 255] ?s1"
  note c1 = vmm_view_cong [of ?s1 s, simplified]
  have va: "4194304 dvd unat (0xC0000000 :: u32)" by simp
  have lim1: "n + 255 + 2 \<le> frame_limit ?s1" using lim c1(5) by simp
  have wf1: "vmm_wf ?s1" and us1: "used_set ?s1 = {..<n}" and pd1: "\<not> pd_present ?s1 (pd_index 0xC0000000)"
    using wf us pd c1 by simp_all
  have k: "(255 :: nat) \<le> 1023" by simp
  note run = map_fresh_pages_run [OF wf1 us1 pd1 va k lim1]
  have m: "map_heap_range 0xC0000000 0xC0100000 ?s1 = Some ?t"
    using map_heap_range_pages [of "0xC0000000" "Suc 255" ?s1] by simp
  have more: "vmm.more ?t = vmm.more ?s1" by (rule map_fresh_pages_more)
  note kc = kheap_more_cong [OF more]
  note rc = rheap_more_cong [OF kc(4)]
  define t where "t = ?t"
  have tf: "heap_end t = 0xC0100000" "heap_max_addr t = 0xD0000000" "eflags t = eflags s" "\<not> heap_locked t"
    using kc(1-3) rc(3) l unfolding t_def by simp_all
  let ?bs = "(blocks t)(0xC0000000 := \<lparr>bsize = 0xFFFF4, is_free = 1, bnext = 0\<rparr>)"
  let ?h = "\<lparr>head = 0xC0000000, hend = 0xC0100000, hmax = 0xD0000000\<rparr>"
  have hn: "Heap_new HEAP_START HEAP_INITIAL_SIZE HEAP_MAX_SIZE (blocks t) = Inr (?h, ?bs)"
    by (simp add: Heap_new_def sub_or_panic_def add_or_panic_def checked_add_def)
  let ?s' = "heap_unlock (eflags t) (t\<lparr>blocks := ?bs, eflags := eflags t AND NOT 0x200, heap_locked := True, HEAP := Some ?h\<rparr>)"
  have hi: "heap_init s = Inr ?s'"
    using m [folded t_def] hn tf(4) by (simp add: heap_init_def munux_rs_heap_init_def heap_lock_ok Let_def)
  have at: "heap_at ?h ?s' [0xC0000000]"
    using tf(1,2) by (simp add: heap_at_def layout_def shape_def aligned4_def block_end_def page_aligned_def)
  have inv: "heap_inv ?s'" using at by (auto simp: heap_inv_def)
  have lv: "live ?s' = (\<lambda>_. None)"
    using live_eq [OF _ at] by (auto simp: payloads_def fun_eq_iff)
  note c2 = vmm_view_cong [of ?s' t, simplified heap_unlock_def munux_c_irq_restore_def, simplified]
  show thesis
  proof (rule that [OF hi inv lv])
    show "eflags ?s' = eflags s" "heap_end ?s' = 0xC0100000" using tf(1,3) by simp_all
    show "vmm_wf ?s'" "used_set ?s' = {..<n + 257}"
      using run c2 unfolding t_def heap_unlock_def munux_c_irq_restore_def by simp_all
    fix v
    have "pte ?s' v = pte t v" using c2(2) unfolding heap_unlock_def munux_c_irq_restore_def by simp
    also have "\<dots> = (let P = unat v div 4096; a = unat (0xC0000000 :: u32) div 4096 in
        if a \<le> P \<and> P \<le> a + 255 then word_of_nat (fresh_frame n (P - a)) * 4096 OR 3 else pte ?s1 v)"
      using run unfolding t_def by blast
    also have "\<dots> = (if 0xC0000000 \<le> unat v \<and> unat v < 0xC0100000
       then word_of_nat (fresh_frame n (unat v div 4096 - 786432)) * 4096 OR 3 else pte s v)"
      using c1(2) by (auto simp: Let_def)
    also have "unat v div 4096 - 786432 = (unat v - 0xC0000000) div 4096" by simp
    finally show "pte ?s' v = (if 0xC0000000 \<le> unat v \<and> unat v < 0xC0100000
       then word_of_nat (fresh_frame n ((unat v - 0xC0000000) div 4096)) * 4096 OR 3 else pte s v)" .
  qed
qed

section \<open>Aligned requests\<close>

lemma munux_rs_alloc_aligned_spec:
  assumes inv: "heap_inv s" and k: "K = max k 2" "k \<le> 28" and n: "unat n + 2 ^ K + 4 \<le> 0xFFFFFFF0" "n \<noteq> 0"
  obtains p s' where "munux_rs_alloc_aligned n (2 ^ k) s = Inr (p, s')" and "heap_inv s'" and "eflags s' = eflags s"
    and "p = 0 \<and> live s' = live s \<or>
      p \<noteq> 0 \<and> 2 ^ K dvd unat p \<and> (\<exists>base m. words s' (p - 4) = base \<and> live s base = None \<and>
        live s' = (live s)(base \<mapsto> m) \<and> unat base + 4 \<le> unat p \<and> unat p + unat n \<le> unat base + m)"
proof -
  from inv obtain h xs where h: "HEAP s = Some h" "heap_at h s xs" and l: "\<not> heap_locked s"
    by (auto simp: heap_inv_def)
  let ?s1 = "s\<lparr>eflags := eflags s AND NOT 0x200, heap_locked := True\<rparr>"
  have at: "heap_at h ?s1 xs" and b: "blocks ?s1 = blocks s" using h(2) by simp_all
  obtain p h' s2 xs' where a: "allocate_aligned h n (2 ^ k) ?s1 = Inr (p, h', s2)" "heap_at h' s2 xs'"
    "p = 0 \<and> payloads (blocks s2) xs' = payloads (blocks ?s1) xs \<or>
      p \<noteq> 0 \<and> 2 ^ K dvd unat p \<and> (\<exists>base m. words s2 (p - 4) = base \<and> payloads (blocks ?s1) xs base = None \<and>
        payloads (blocks s2) xs' = (payloads (blocks ?s1) xs)(base \<mapsto> m) \<and>
        unat base + 4 \<le> unat p \<and> unat p + unat n \<le> unat base + m)"
    by (rule allocate_aligned_spec [OF at k n])
  let ?s' = "heap_unlock (eflags s) (s2\<lparr>HEAP := Some h'\<rparr>)"
  have r: "munux_rs_alloc_aligned n (2 ^ k) s = Inr (p, ?s')"
    using h(1) a(1) by (simp add: munux_rs_alloc_aligned_def heap_lock_ok [OF l])
  have at': "heap_at h' ?s' xs'" using a(2) by simp
  have lv': "live ?s' = payloads (blocks s2) xs'" using live_eq [OF _ at'] by simp
  have inv': "heap_inv ?s'" using at' by (auto simp: heap_inv_def)
  show thesis by (rule that [OF r inv']) (use a(3) live_eq [OF h] lv' b in auto)
qed

text \<open>Releasing through the stored base pointer is releasing the base block.\<close>

lemma kfree_aligned_eq:
  assumes inv: "heap_inv s" and p: "4 \<le> unat p" and b: "words s (p - 4) = base" "base \<noteq> 0"
  shows "kfree_aligned p s = kfree base s"
proof -
  from inv have l: "\<not> heap_locked s" by (simp add: heap_inv_def)
  have s: "sub_or_panic p 4 = Inr (p - 4)" using p by (intro sub_or_panic_ok) simp
  have "p \<noteq> 0" using p by auto
  with b s show ?thesis
    by (simp add: kfree_aligned_def munux_rs_free_aligned_def kfree_def munux_rs_free_def heap_lock_ok [OF l]
        deallocate_aligned_def Let_def split: option.split)
qed

text \<open>The same for the global allocator of the Rust collections.\<close>

lemma KernelAllocator_spec:
  assumes inv: "heap_inv s" and k: "k \<le> 28" and n: "unat n + 2 ^ max k 2 + 4 \<le> 0xFFFFFFF0" "n \<noteq> 0"
  shows "\<exists>p s'. KernelAllocator_alloc n (2 ^ k) s = Inr (p, s') \<and> heap_inv s' \<and> eflags s' = eflags s \<and>
     (p = 0 \<and> live s' = live s \<or>
      p \<noteq> 0 \<and> 2 ^ k dvd unat p \<and> (\<exists>base m. live s base = None \<and> live s' = (live s)(base \<mapsto> m) \<and>
        unat base + 4 \<le> unat p \<and> unat p + unat n \<le> unat base + m \<and>
        (\<exists>s''. KernelAllocator_dealloc p s' = Inr s'' \<and> heap_inv s'' \<and> live s'' = live s)))"
proof -
  obtain p s' where a: "munux_rs_alloc_aligned n (2 ^ k) s = Inr (p, s')" "heap_inv s'" "eflags s' = eflags s"
    "p = 0 \<and> live s' = live s \<or> p \<noteq> 0 \<and> 2 ^ max k 2 dvd unat p \<and> (\<exists>base m. words s' (p - 4) = base \<and>
      live s base = None \<and> live s' = (live s)(base \<mapsto> m) \<and> unat base + 4 \<le> unat p \<and> unat p + unat n \<le> unat base + m)"
    by (rule munux_rs_alloc_aligned_spec [OF inv refl k n])
  show ?thesis
  proof (cases "p = 0")
    case True
    with a show ?thesis by (auto simp: KernelAllocator_alloc_def)
  next
    case False
    with a(4) obtain base m where b: "words s' (p - 4) = base" "live s base = None" "live s' = (live s)(base \<mapsto> m)"
      "unat base + 4 \<le> unat p" "unat p + unat n \<le> unat base + m" "2 ^ max k 2 dvd unat p" by blast
    have bm: "live s' base = Some m" by (simp add: b(3))
    have "base \<noteq> 0" using live_bounds(1) [OF a(2) bm] by auto
    then have fe: "kfree_aligned p s' = kfree base s'" using b(1,4) by (intro kfree_aligned_eq [OF a(2)]) auto
    obtain s'' where "kfree base s' = Inr s''" "heap_inv s''" "live s'' = (live s')(base := None)"
      by (rule kfree_spec [OF a(2) bm])
    then have "\<exists>s''. KernelAllocator_dealloc p s' = Inr s'' \<and> heap_inv s'' \<and> live s'' = live s"
      using fe b(2,3) by (auto simp: fun_upd_idem KernelAllocator_dealloc_def kfree_aligned_def)
    moreover have "2 ^ k dvd unat p" using b(6) by (meson dvd_trans le_imp_power_dvd max.cobounded1)
    ultimately show ?thesis using False a(1-3) b by (simp add: KernelAllocator_alloc_def) blast
  qed
qed

section \<open>Frame\<close>

text \<open>The heap operations leave the fields above the heap alone.\<close>

lemma map_heap_range_more:
  fixes s :: "'a vmm_scheme"
  assumes r: "map_heap_range va to s = Some s'"
  shows "vmm.more s' = vmm.more s"
proof (rule map_heap_range.raw_induct [OF _ r, of "\<lambda>va to s s'. vmm.more s' = vmm.more s"])
  fix mhr and va to and s s' :: "'a vmm_scheme"
  assume IH: "\<And>va to (s :: 'a vmm_scheme) s'. mhr va to s = Some s' \<Longrightarrow> vmm.more s' = vmm.more s"
    and b: "(if va < to then (let (frame, s1) = pmm_alloc_frame s in
         mhr (va + PAGE_SIZE) to (vmm_map_page va frame (PAGE_PRESENT OR PAGE_WRITE) s1)) else Some s) = Some s'"
  show "vmm.more s' = vmm.more s"
  proof (cases "va < to")
    case True
    then have "mhr (va + PAGE_SIZE) to (vmm_map_page va (fst (pmm_alloc_frame s)) (PAGE_PRESENT OR PAGE_WRITE)
        (snd (pmm_alloc_frame s))) = Some s'"
      using b by (simp add: split_def Let_def)
    from IH [OF this] show ?thesis by simp
  next
    case False
    then show ?thesis using b by simp
  qed
qed

lemma munux_c_heap_grow_more: "munux_c_heap_grow n s = Some (e, s') \<Longrightarrow> kheap.more s' = kheap.more s"
  by (auto simp: munux_c_heap_grow_def Let_def bind_eq_Some_conv split: if_splits
      dest!: map_heap_range_more kheap_more_cong(4))

lemma rheap_more_more: "kheap.more s' = kheap.more (s :: 'a rheap_scheme) \<Longrightarrow> rheap.more s' = rheap.more s"
  by (cases s; cases s'; simp)

lemma and_then_Inr: "and_then r f = Inr y \<longleftrightarrow> (\<exists>x. r = Inr x \<and> f x = Inr y)"
  by (cases r) auto

lemma or_stuck_Inr: "or_stuck r = Inr y \<longleftrightarrow> r = Some y"
  by (cases r) (auto simp: or_stuck_def)

lemma grow_and_attach_more:
  assumes "grow_and_attach h l n s = Inr (p, h', s')"
  shows "rheap.more s' = rheap.more s"
proof (cases "s' = s")
  case False
  with assms obtain required e s1 where g: "munux_c_heap_grow required s = Some (e, s1)"
    and s': "s' = s1 \<or> (\<exists>bs. s' = s1\<lparr>blocks := bs\<rparr>)"
    by (simp add: grow_and_attach_def and_then_Inr or_stuck_Inr Let_def split: if_splits) blast+
  from s' have "rheap.more s' = rheap.more s1" by auto
  with rheap_more_more [OF munux_c_heap_grow_more [OF g]] show ?thesis by simp
qed simp

lemma allocate_more: "allocate h n s = Inr (p, h', s') \<Longrightarrow> rheap.more s' = rheap.more s"
  by (auto simp: allocate_def and_then_Inr or_stuck_Inr split: if_splits dest: grow_and_attach_more)

lemma heap_lock_more: "heap_lock s = Inr (fl, s') \<Longrightarrow> rheap.more s' = rheap.more s \<and> HEAP s' = HEAP s"
  by (auto simp: heap_lock_def munux_c_irq_save_def split: if_splits)

lemma heap_unlock_more [simp]: "rheap.more (heap_unlock fl s) = rheap.more s"
  by (simp add: heap_unlock_def munux_c_irq_restore_def)

lemma kmalloc_more:
  assumes "kmalloc n s = Inr (p, s')"
  shows "rheap.more s' = rheap.more s"
proof -
  from assms obtain fl s1 where l: "heap_lock s = Inr (fl, s1)"
    and r: "(case HEAP s1 of None \<Rightarrow> Inr (0, heap_unlock fl s1)
       | Some h \<Rightarrow> and_then (allocate h n s1) (\<lambda>(p, h1, s2). Inr (p, heap_unlock fl (s2\<lparr>HEAP := Some h1\<rparr>)))) = Inr (p, s')"
    by (auto simp: kmalloc_def munux_rs_alloc_def and_then_Inr)
  from r have "rheap.more s' = rheap.more s1"
    by (auto simp: and_then_Inr split: option.splits dest: allocate_more)
  with heap_lock_more [OF l] show ?thesis by simp
qed

lemma deallocate_more: "deallocate h p s = Inr s' \<Longrightarrow> rheap.more s' = rheap.more s"
  by (auto simp: deallocate_def and_then_Inr Let_def split: option.splits)

lemma kfree_more:
  assumes "kfree p s = Inr s'"
  shows "rheap.more s' = rheap.more s"
proof (cases "p = 0")
  case True
  with assms show ?thesis by (simp add: kfree_def munux_rs_free_def)
next
  case False
  with assms obtain fl s1 where l: "heap_lock s = Inr (fl, s1)"
    and r: "(case HEAP s1 of None \<Rightarrow> Inr (heap_unlock fl s1)
       | Some h \<Rightarrow> and_then (deallocate h p s1) (\<lambda>s2. Inr (heap_unlock fl s2))) = Inr s'"
    by (auto simp: kfree_def munux_rs_free_def and_then_Inr)
  from r have "rheap.more s' = rheap.more s1"
    by (auto simp: and_then_Inr split: option.splits dest: deallocate_more)
  with heap_lock_more [OF l] show ?thesis by simp
qed

section \<open>Properties\<close>

definition rheap_reset :: rheap where
  "rheap_reset = \<lparr>ram = (\<lambda>_. 7), total_frames = 0, used_frames = 0, current_directory = 0,
     kernel_directory = 0, cr3 = 0, paging_enabled = False, heap_end = 0, heap_max_addr = 0, eflags = 0x202,
     blocks = (\<lambda>_. \<lparr>bsize = 0, is_free = 0, bnext = 0\<rparr>), words = (\<lambda>_. 0), heap_locked = False, HEAP = None\<rparr>"

text \<open>The boot sequence \<^verbatim>\<open>pmm_init; vmm_init; heap_init\<close>.\<close>

definition memory_boot :: "u32 \<Rightarrow> 'a rheap_scheme \<Rightarrow> rust_stop + 'a rheap_scheme" where
  "memory_boot mem_size s = heap_init (vmm_init (pmm_init mem_size s))"

lemma pmm_init_vmm_more [simp]: "pmm.more (pmm_init m s) = pmm.more s"
proof -
  have "pmm.more (fold (\<lambda>w. set_frame_bitmap (word_of_nat w) v) ws s) = pmm.more s" for v ws and s :: "'a pmm_scheme"
    by (induction ws arbitrary: s) (simp_all add: set_frame_bitmap_def)
  then show ?thesis by (simp add: pmm_init_def Let_def set_frame_bitmap_def)
qed

lemma vmm_init_more: "vmm.more (vmm_init s) = vmm.more s"
proof -
  have "vmm.more (fold (\<lambda>i. vmm_map_page (a i) (b i) fl) is s) = vmm.more s"
    for a b fl and "is" :: "nat list" and s :: "'a vmm_scheme"
    by (induction "is" arbitrary: s) simp_all
  then show ?thesis by (simp add: vmm_init_def split_def Let_def enable_paging_def)
qed

lemma rheap_pmm_more_cong:
  assumes "pmm.more s' = pmm.more (s :: 'a vmm_scheme)"
  shows "vmm.more s' = vmm.more s"
  using assms by (cases s; cases s'; simp)

lemma memory_boot_spec:
  assumes m: "0x304000 \<le> m" and l: "\<not> heap_locked s"
  obtains s' where "memory_boot m s = Inr s'" and "heap_inv s'" and "live s' = (\<lambda>_. None)" and "eflags s' = eflags s"
    and "heap_end s' = 0xC0100000" and "vmm_wf s'" and "used_set s' = {..<772}"
    and "\<And>v. pte s' v = (if 0xC0000000 \<le> unat v \<and> unat v < 0xC0100000
       then word_of_nat (fresh_frame 515 ((unat v - 0xC0000000) div 4096)) * 4096 OR 3
       else if unat v < 0x800000 then (v AND 0xFFFFF000) OR 3 else 0)"
proof -
  let ?s = "vmm_init (pmm_init m s)"
  have m': "0x203000 \<le> m" using m by (simp add: word_le_nat_alt)
  note f = vmm_init_facts [OF pmm_init_boot [OF m', of s]]
  have more: "vmm.more ?s = vmm.more s"
    using vmm_init_more [of "pmm_init m s"] rheap_pmm_more_cong [OF pmm_init_vmm_more] by simp
  note kc = kheap_more_cong [OF more]
  note rc = rheap_more_cong [OF kc(4)]
  have np: "\<not> pd_present ?s (pd_index 0xC0000000)" using f(8) [of "pd_index 0xC0000000"] by (simp add: unat_pd_index)
  have "772 \<le> unat (total_frames (pmm_init m s))"
    using m div_le_mono [of "0x304000" "unat m" 4096] by (simp add: unat_div word_le_nat_alt)
  then have "772 \<le> frame_limit (pmm_init m s)"
    using frame_limit_bounds(1) [OF unat_total_frames_init] by (rule order_trans)
  then have lim: "515 + 257 \<le> frame_limit ?s"
    using frame_limit_cong [of ?s "pmm_init m s"] by (simp add: vmm_init_total_frames)
  have l': "\<not> heap_locked ?s" using rc(3) l by simp
  show thesis
    by (rule heap_init_spec [OF f(1,2) np lim l'])
      (rule that, auto simp: memory_boot_def f(3) kc(3))
qed

definition heap_32MiB :: rheap where
  "heap_32MiB = projr (memory_boot 0x2000000 rheap_reset)"

lemma heap_32MiB_facts:
  "memory_boot 0x2000000 rheap_reset = Inr heap_32MiB" "heap_inv heap_32MiB" "live heap_32MiB = (\<lambda>_. None)"
  "heap_end heap_32MiB = 0xC0100000"
proof -
  have l: "\<not> heap_locked rheap_reset" by (simp add: rheap_reset_def)
  obtain s' where "memory_boot 0x2000000 rheap_reset = Inr s'" "heap_inv s'" "live s' = (\<lambda>_. None)"
    "heap_end s' = 0xC0100000"
    by (rule memory_boot_spec [OF _ l, of "0x2000000"]) simp
  then show "memory_boot 0x2000000 rheap_reset = Inr heap_32MiB" "heap_inv heap_32MiB" "live heap_32MiB = (\<lambda>_. None)"
    "heap_end heap_32MiB = 0xC0100000"
    by (simp_all add: heap_32MiB_def)
qed

text \<open>The first request of 100 bytes succeeds.\<close>

lemma heap_32MiB_first:
  obtains p s' m where "kmalloc 100 heap_32MiB = Inr (p, s')" and "p \<noteq> 0" and "heap_inv s'"
    and "live s' = (live heap_32MiB)(p \<mapsto> m)"
proof -
  have nf: "\<not> heap_full heap_32MiB (unat (100 :: u32))"
    using heap_32MiB_facts(4) by (auto simp: heap_full_def no_room_def heap_at_def round4_def)
  have n: "unat (100 :: u32) \<le> 0xFFFFFFF0" by simp
  show thesis
    by (rule kmalloc_spec [OF heap_32MiB_facts(2) n]) (use nf that in auto)
qed



text \<open>C4: \<^verbatim>\<open>kfree\<close> of a live payload returns, with the interrupt flag as before, and removes
  exactly that payload; freeing what \<^verbatim>\<open>kmalloc\<close> has just returned restores the live payloads.
  The invariant it keeps includes that no two neighbouring blocks are free.\<close>

theorem kfree_correct:
  assumes "heap_inv s"
  shows "(live s p \<noteq> None \<longrightarrow> (\<exists>s'. kfree p s = Inr s' \<and> heap_inv s' \<and> eflags s' = eflags s \<and>
       live s' = (live s)(p := None))) \<and>
     (unat n \<le> 0xFFFFFFF0 \<and> kmalloc n s = Inr (q, s1) \<and> q \<noteq> 0 \<longrightarrow>
       (\<exists>s2. kfree q s1 = Inr s2 \<and> heap_inv s2 \<and> live s2 = live s))"
proof (intro conjI impI)
  assume "live s p \<noteq> None"
  then obtain m where "live s p = Some m" by auto
  then show "\<exists>s'. kfree p s = Inr s' \<and> heap_inv s' \<and> eflags s' = eflags s \<and> live s' = (live s)(p := None)"
    by (rule kfree_spec [OF assms]) blast
next
  assume "unat n \<le> 0xFFFFFFF0 \<and> kmalloc n s = Inr (q, s1) \<and> q \<noteq> 0"
  then show "\<exists>s2. kfree q s1 = Inr s2 \<and> heap_inv s2 \<and> live s2 = live s"
    using kernel_heap.alloc_free_lives [OF assms] by blast
qed

theorem kfree_correct_witness:
  "\<exists>p s1 s2. kmalloc 100 heap_32MiB = Inr (p, s1) \<and> p \<noteq> 0 \<and> kfree p s1 = Inr s2 \<and> live s2 = (\<lambda>_. None)"
proof -
  obtain p s1 m where k: "kmalloc 100 heap_32MiB = Inr (p, s1)" "p \<noteq> 0"
    by (rule heap_32MiB_first)
  show ?thesis
    using kfree_correct [OF heap_32MiB_facts(2), of p 100 p s1] k heap_32MiB_facts(3) by auto
qed

text \<open>whatever sequence of requests and releases of live payloads follows the boot sequence,
  all live payloads lie inside the heap's 256 MiB, are 4-byte aligned and pairwise disjoint.\<close>

theorem heap_client_steps_safe:
  assumes "0x304000 \<le> m" and "\<not> heap_locked s0" and "memory_boot m s0 = Inr s" and "kernel_heap.step\<^sup>*\<^sup>* s s'"
    and "live s' p = Some k"
  shows "aligned4 p \<and> 0xC000000C \<le> unat p \<and> unat p + k \<le> 0xD0000000 \<and>
     (\<forall>q j. live s' q = Some j \<and> q \<noteq> p \<longrightarrow> unat p + k \<le> unat q \<or> unat q + j \<le> unat p)"
proof -
  have "heap_inv s" by (rule memory_boot_spec [OF assms(1,2)]) (use assms(3) in auto)
  with assms(4) have inv: "heap_inv s'" by (rule kernel_heap.steps_inv)
  show ?thesis
    using live_bounds [OF inv assms(5)] kernel_heap.lives_disjoint [OF inv assms(5)] by auto
qed

theorem heap_client_steps_safe_witness:
  "\<exists>p s' k. kernel_heap.step\<^sup>*\<^sup>* heap_32MiB s' \<and> live s' p = Some k \<and> unat p + k \<le> 0xD0000000"
proof -
  obtain p s' m where k: "kmalloc 100 heap_32MiB = Inr (p, s')" "live s' = (live heap_32MiB)(p \<mapsto> m)"
    by (rule heap_32MiB_first)
  have st: "kernel_heap.step\<^sup>*\<^sup>* heap_32MiB s'"
    by (rule r_into_rtranclp, rule kernel_heap.step_alloc [of 100, OF _ k(1)]) simp
  have "unat p + m \<le> 0xD0000000"
    using heap_client_steps_safe [OF _ _ heap_32MiB_facts(1) st, of p m] k(2) by (simp add: rheap_reset_def)
  then show ?thesis using st k(2) by (intro exI [of _ p] exI [of _ s'] exI [of _ m]) simp
qed



text \<open>after the boot sequence every page of the initial 1 MiB heap is backed by a frame of its
  own: the heap addresses translate injectively, to frames at or above 0x203000 that are neither the
  page directory nor a page table of the identity map nor the heap's own page table.\<close>

theorem heap_pages_backed_by_fresh_frames:
  assumes "0x304000 \<le> m" and "\<not> heap_locked s0"
  shows "\<exists>s. memory_boot m s0 = Inr s \<and>
     (\<forall>v < 0x100000. vmm_get_physical_address (0xC0000000 + v) s =
        (if v < 0x1000 then 0x203000 + v else 0x204000 + v))"
proof -
  obtain s where s: "memory_boot m s0 = Inr s" "heap_inv s" "live s = (\<lambda>_. None)" "eflags s = eflags s0"
    "heap_end s = 0xC0100000" "vmm_wf s" "used_set s = {..<772}"
    "\<And>v. pte s v = (if 0xC0000000 \<le> unat v \<and> unat v < 0xC0100000
       then word_of_nat (fresh_frame 515 ((unat v - 0xC0000000) div 4096)) * 4096 OR 3
       else if unat v < 0x800000 then (v AND 0xFFFFF000) OR 3 else 0)"
    by (rule memory_boot_spec [OF assms]) (rule that)
  have "vmm_get_physical_address (0xC0000000 + v) s = (if v < 0x1000 then 0x203000 + v else 0x204000 + v)"
    if "v < 0x100000" for v
  proof -
    let ?w = "0xC0000000 + v" and ?f = "fresh_frame 515 (unat v div 4096)"
    have uv: "unat v < 0x100000" using that by (simp add: word_less_nat_alt)
    then have uw: "unat ?w = 0xC0000000 + unat v" by (simp add: unat_add_small)
    have p: "pte s ?w = word_of_nat ?f * 4096 OR 3" unfolding s(8) uw using uv by simp
    have e: "(word_of_nat ?f * 4096 OR 3 :: u32) AND 0xFFFFF000 = word_of_nat ?f * 4096"
      by (rule frame_of_entry) simp_all
    have g: "vmm_get_physical_address ?w s = word_of_nat ?f * 4096 + (?w AND 0xFFF)"
      unfolding vmm_get_physical_address_pte p e by (simp add: bit.conj_disj_distrib2)
    have "?w AND 0xFFF = take_bit 12 ?w" by (simp add: take_bit_eq_mask mask_numeral)
    then have o: "unat (?w AND 0xFFF) = unat v mod 4096" by (simp add: take_bit_eq_mod unat_mod uw mod_add_left_eq [symmetric])
    have "unat v div 4096 < 256" using uv by simp
    then have fb: "?f < 1048576" by (simp add: fresh_frame_def)
    have "unat (vmm_get_physical_address ?w s) = ?f * 4096 + unat v mod 4096"
      unfolding g using o fb uv by (subst unat_add_small) (simp_all add: frame_addr_unat fresh_frame_def)
    moreover have "v < 0x1000 \<longleftrightarrow> unat v div 4096 = 0" by (simp add: word_less_nat_alt div_eq_0_iff)
    ultimately show ?thesis using uv by (simp add: u32_eq_iff_unat unat_add_small fresh_frame_def)
  qed
  with s(1) show ?thesis by blast
qed

theorem heap_pages_backed_by_fresh_frames_witness:
  "vmm_get_physical_address 0xC0001234 heap_32MiB = 0x205234"
proof -
  have l: "\<not> heap_locked rheap_reset" by (simp add: rheap_reset_def)
  obtain s where s: "memory_boot 0x2000000 rheap_reset = Inr s"
    "\<forall>v < 0x100000. vmm_get_physical_address (0xC0000000 + v) s = (if v < 0x1000 then 0x203000 + v else 0x204000 + v)"
    using heap_pages_backed_by_fresh_frames [OF _ l, of "0x2000000"] by auto
  from s(1) have "s = heap_32MiB" using heap_32MiB_facts(1) by simp
  with s(2) [rule_format, of "0x1234"] show ?thesis by simp
qed

text \<open>a request of more than 0xFFFFFFF0 bytes stops the kernel. Rounding the size up or adding
  the header overflows, and with overflow checks on that is a panic, while the interface promises a
  null pointer on failure.\<close>

theorem kmalloc_huge_request_panics:
  assumes "heap_inv s" and "0xFFFFFFF0 < unat n"
  shows "kmalloc n s = Inl Overflow"
proof -
  from assms(1) obtain h xs where h: "HEAP s = Some h" "heap_at h s xs" and l: "\<not> heap_locked s"
    by (auto simp: heap_inv_def)
  let ?s1 = "s\<lparr>eflags := eflags s AND NOT 0x200, heap_locked := True\<rparr>"
  have "heap_at h ?s1 xs" using h(2) by simp
  from allocate_overflow [OF this assms(2)] show ?thesis
    using h(1) by (simp add: kmalloc_def munux_rs_alloc_def heap_lock_ok [OF l])
qed

theorem kmalloc_huge_request_panics_witness: "kmalloc 0xFFFFFFFF heap_32MiB = Inl Overflow"
  by (rule kmalloc_huge_request_panics [OF heap_32MiB_facts(2)]) simp

end
