(* ===== verification/Disk.thy ===== *)
theory Disk
  imports PortIO
begin

text \<open>
  The ATA disk driver (\<^verbatim>\<open>drivers/disk.c\<close>): polled transfers of single sectors over the ports of the
  primary master. The lemmas give the exact port traffic of a successful read or write and of the
  failures, for every device; what a disk answers to that traffic is a parameter.
\<close>

section \<open>Operations\<close>

definition ATA_PRIMARY_DATA :: u16 where [simp]: "ATA_PRIMARY_DATA = 0x1F0"
definition ATA_PRIMARY_SECCOUNT :: u16 where [simp]: "ATA_PRIMARY_SECCOUNT = 0x1F2"
definition ATA_PRIMARY_LBA_LOW :: u16 where [simp]: "ATA_PRIMARY_LBA_LOW = 0x1F3"
definition ATA_PRIMARY_LBA_MID :: u16 where [simp]: "ATA_PRIMARY_LBA_MID = 0x1F4"
definition ATA_PRIMARY_LBA_HIGH :: u16 where [simp]: "ATA_PRIMARY_LBA_HIGH = 0x1F5"
definition ATA_PRIMARY_DRIVE :: u16 where [simp]: "ATA_PRIMARY_DRIVE = 0x1F6"
definition ATA_PRIMARY_STATUS :: u16 where [simp]: "ATA_PRIMARY_STATUS = 0x1F7"
definition ATA_PRIMARY_COMMAND :: u16 where [simp]: "ATA_PRIMARY_COMMAND = 0x1F7"
definition ATA_SR_BSY :: u8 where [simp]: "ATA_SR_BSY = 0x80"
definition ATA_SR_DRQ :: u8 where [simp]: "ATA_SR_DRQ = 0x08"
definition ATA_SR_ERR :: u8 where [simp]: "ATA_SR_ERR = 0x01"
definition ATA_CMD_READ_SECTORS :: u8 where [simp]: "ATA_CMD_READ_SECTORS = 0x20"
definition ATA_CMD_WRITE_SECTORS :: u8 where [simp]: "ATA_CMD_WRITE_SECTORS = 0x30"
definition ATA_CMD_IDENTIFY :: u8 where [simp]: "ATA_CMD_IDENTIFY = 0xEC"
definition ATA_TIMEOUT :: nat where "ATA_TIMEOUT = 1000000"

text \<open>The polling loops with the number of polls left; \<^const>\<open>True\<close> is the return value 0.\<close>

fun poll_bsy :: "nat \<Rightarrow> device \<Rightarrow> history \<Rightarrow> bool \<times> history" where
  "poll_bsy 0 d h = (False, h)"
| "poll_bsy (Suc n) d h =
     (let (v, h1) = inb d ATA_PRIMARY_STATUS h in if v AND ATA_SR_BSY = 0 then (True, h1) else poll_bsy n d h1)"

definition ata_wait_bsy :: "device \<Rightarrow> history \<Rightarrow> bool \<times> history" where
  "ata_wait_bsy d h = poll_bsy ATA_TIMEOUT d h"

fun poll_drq :: "nat \<Rightarrow> device \<Rightarrow> history \<Rightarrow> bool \<times> history" where
  "poll_drq 0 d h = (False, h)"
| "poll_drq (Suc n) d h =
     (let (status, h1) = inb d ATA_PRIMARY_STATUS h
      in if status AND ATA_SR_ERR \<noteq> 0 then (False, h1)
         else if status AND ATA_SR_DRQ \<noteq> 0 then (True, h1)
         else poll_drq n d h1)"

definition ata_wait_drq :: "device \<Rightarrow> history \<Rightarrow> bool \<times> history" where
  "ata_wait_drq d h = poll_drq ATA_TIMEOUT d h"

definition disk_init :: "history \<Rightarrow> history" where
  "disk_init h =
     (let h = outb ATA_PRIMARY_DRIVE 0xA0 h; h = io_wait h;
          h = outb ATA_PRIMARY_SECCOUNT 0 h; h = outb ATA_PRIMARY_LBA_LOW 0 h; h = outb ATA_PRIMARY_LBA_MID 0 h
      in outb ATA_PRIMARY_LBA_HIGH 0 h)"

text \<open>The commands of both transfers: drive and address registers, then the command.\<close>

definition send_command :: "u32 \<Rightarrow> u8 \<Rightarrow> history \<Rightarrow> history" where
  "send_command lba cmd h =
     (let h = outb ATA_PRIMARY_DRIVE (0xE0 OR ucast (drop_bit 24 lba AND 0x0F)) h;
          h = outb ATA_PRIMARY_SECCOUNT 1 h;
          h = outb ATA_PRIMARY_LBA_LOW (ucast lba) h;
          h = outb ATA_PRIMARY_LBA_MID (ucast (drop_bit 8 lba)) h;
          h = outb ATA_PRIMARY_LBA_HIGH (ucast (drop_bit 16 lba)) h
      in outb ATA_PRIMARY_COMMAND cmd h)"

text \<open>The data loops with the index \<open>i\<close> of the next word and the number of words left.\<close>

fun read_words :: "nat \<Rightarrow> nat \<Rightarrow> device \<Rightarrow> u8 list \<Rightarrow> history \<Rightarrow> (u8 list \<times> history) option" where
  "read_words i 0 d buffer h = Some (buffer, h)"
| "read_words i (Suc n) d buffer h =
     (let (data, h1) = inw d ATA_PRIMARY_DATA h
      in do { b \<leftarrow> wr buffer (i * 2) (ucast data);
              b \<leftarrow> wr b (i * 2 + 1) (ucast (drop_bit 8 data));
              read_words (i + 1) n d b h1 })"

definition disk_read_sector :: "device \<Rightarrow> u32 \<Rightarrow> u8 list \<Rightarrow> history \<Rightarrow> (int \<times> u8 list \<times> history) option" where
  "disk_read_sector d lba buffer h0 =
     (let (ok1, h) = ata_wait_bsy d h0
      in if \<not> ok1 then Some (- 1, buffer, h)
         else let h = send_command lba ATA_CMD_READ_SECTORS h;
                  (ok2, h) = ata_wait_bsy d h
              in if \<not> ok2 then Some (- 1, buffer, h)
                 else let (ok3, h) = ata_wait_drq d h
                      in if \<not> ok3 then Some (- 1, buffer, h)
                         else do { (b, h) \<leftarrow> read_words 0 256 d buffer h; Some (0, b, h) })"

fun write_words :: "nat \<Rightarrow> nat \<Rightarrow> u8 list \<Rightarrow> history \<Rightarrow> history option" where
  "write_words i 0 buffer h = Some h"
| "write_words i (Suc n) buffer h =
     do { lo \<leftarrow> rd buffer (i * 2);
          hi \<leftarrow> rd buffer (i * 2 + 1);
          write_words (i + 1) n buffer (outw ATA_PRIMARY_DATA (ucast lo OR push_bit 8 (ucast hi)) h) }"

definition disk_write_sector :: "device \<Rightarrow> u32 \<Rightarrow> u8 list \<Rightarrow> history \<Rightarrow> (int \<times> history) option" where
  "disk_write_sector d lba buffer h0 =
     (let (ok1, h) = ata_wait_bsy d h0;
          h = send_command lba ATA_CMD_WRITE_SECTORS h;
          (ok2, h) = ata_wait_bsy d h;
          (ok3, h) = ata_wait_drq d h
      in do { h \<leftarrow> write_words 0 256 buffer h;
              let (ok4, h) = ata_wait_bsy d h;
              Some (0, h) })"

fun drain_words :: "nat \<Rightarrow> device \<Rightarrow> history \<Rightarrow> history" where
  "drain_words 0 d h = h"
| "drain_words (Suc n) d h = drain_words n d (snd (inw d ATA_PRIMARY_DATA h))"

definition disk_identify :: "device \<Rightarrow> history \<Rightarrow> history" where
  "disk_identify d h =
     (let h = outb ATA_PRIMARY_DRIVE 0xA0 h; h = outb ATA_PRIMARY_SECCOUNT 0 h; h = outb ATA_PRIMARY_LBA_LOW 0 h;
          h = outb ATA_PRIMARY_LBA_MID 0 h; h = outb ATA_PRIMARY_LBA_HIGH 0 h;
          h = outb ATA_PRIMARY_COMMAND ATA_CMD_IDENTIFY h;
          (v, h) = inb d ATA_PRIMARY_STATUS h
      in if v = 0 then h else drain_words 256 d (snd (ata_wait_bsy d h)))"

definition disk_present :: "device \<Rightarrow> history \<Rightarrow> int \<times> history" where
  "disk_present d h =
     (let h = outb ATA_PRIMARY_DRIVE 0xA0 h; h = io_wait h; (status, h) = inb d ATA_PRIMARY_STATUS h
      in (if status \<noteq> 0xFF \<and> status \<noteq> 0x00 then 1 else 0, h))"

section \<open>Polling\<close>

abbreviation status_reads :: "history \<Rightarrow> bool" where
  "status_reads k \<equiv> \<forall>e \<in> set k. \<exists>v. e = Inb 0x1F7 v"

lemma poll_bsy_spec: "\<exists>k. snd (poll_bsy n d h) = h @ k \<and> status_reads k"
proof (induction n arbitrary: h)
  case (Suc n)
  let ?e = "Inb 0x1F7 (dev_inb d h 0x1F7)"
  from Suc [of "h @ [?e]"] obtain k where "snd (poll_bsy n d (h @ [?e])) = h @ ?e # k" "status_reads k" by auto
  then show ?case by (auto simp: inb_def Let_def intro: exI [of _ "?e # k"] exI [of _ "[?e]"])
qed simp

lemma poll_drq_spec: "\<exists>k. snd (poll_drq n d h) = h @ k \<and> status_reads k"
proof (induction n arbitrary: h)
  case (Suc n)
  let ?e = "Inb 0x1F7 (dev_inb d h 0x1F7)"
  from Suc [of "h @ [?e]"] obtain k where "snd (poll_drq n d (h @ [?e])) = h @ ?e # k" "status_reads k" by auto
  then show ?case by (auto simp: inb_def Let_def intro: exI [of _ "?e # k"] exI [of _ "[?e]"])
qed simp

lemma wait_bsy_spec: obtains k where "snd (ata_wait_bsy d h) = h @ k" and "status_reads k"
  using poll_bsy_spec [of ATA_TIMEOUT d h] by (metis ata_wait_bsy_def)

lemma wait_drq_spec: obtains k where "snd (ata_wait_drq d h) = h @ k" and "status_reads k"
  using poll_drq_spec [of ATA_TIMEOUT d h] by (metis ata_wait_drq_def)

section \<open>Data\<close>

definition word_bytes :: "u16 \<Rightarrow> u8 list" where
  "word_bytes w = [ucast w, ucast (drop_bit 8 w)]"

definition word_of_bytes :: "u8 \<Rightarrow> u8 \<Rightarrow> u16" where
  "word_of_bytes lo hi = ucast lo OR push_bit 8 (ucast hi)"

lemma word_bytes_of_bytes [simp]: "word_bytes (word_of_bytes lo hi) = [lo, hi]"
proof -
  have "ucast (word_of_bytes lo hi) = lo" unfolding word_of_bytes_def by (rule bit_word_eqI) (simp add: bit_simps)
  moreover have "ucast (drop_bit 8 (word_of_bytes lo hi)) = hi"
    unfolding word_of_bytes_def by (rule bit_word_eqI) (auto simp: bit_simps dest: bit_imp_le_length)
  ultimately show ?thesis by (simp add: word_bytes_def)
qed

text \<open>The words of a sector, and the address the command bytes select.\<close>

definition sector_words :: "u8 list \<Rightarrow> u16 list" where
  "sector_words b = map (\<lambda>i. word_of_bytes (b ! (2 * i)) (b ! (2 * i + 1))) [0..<256]"

lemma read_words_spec:
  assumes "2 * (i + n) \<le> length b"
  shows "\<exists>ws. length ws = n \<and> read_words i n d b h =
    Some (take (2 * i) b @ concat (map word_bytes ws) @ drop (2 * (i + n)) b, h @ map (Inw 0x1F0) ws)"
  using assms
proof (induction n arbitrary: i b h)
  case (Suc n)
  let ?w = "dev_inw d h 0x1F0"
  let ?b = "b[2 * i := ucast ?w, 2 * i + 1 := ucast (drop_bit 8 ?w)]"
  have "2 * (Suc i + n) \<le> length ?b" using Suc.prems by simp
  from Suc.IH [OF this, of "h @ [Inw 0x1F0 ?w]"] obtain ws where ws: "length ws = n"
    "read_words (Suc i) n d ?b (h @ [Inw 0x1F0 ?w]) =
      Some (take (2 * Suc i) ?b @ concat (map word_bytes ws) @ drop (2 * (Suc i + n)) ?b, h @ map (Inw 0x1F0) (?w # ws))" by auto
  have t: "take (2 * Suc i) ?b = take (2 * i) b @ word_bytes ?w"
    using Suc.prems by (simp add: word_bytes_def take_Suc_conv_app_nth)
  have s: "read_words i (Suc n) d b h = read_words (Suc i) n d ?b (h @ [Inw 0x1F0 ?w])"
    using Suc.prems by (simp add: inw_def Let_def mult.commute)
  show ?case unfolding s ws(2) t using ws(1) Suc.prems by (intro exI [of _ "?w # ws"]) simp
qed simp

lemma write_words_spec:
  assumes "2 * (i + n) \<le> length b"
  shows "write_words i n b h = Some (h @ map (\<lambda>j. Outw 0x1F0 (word_of_bytes (b ! (2 * j)) (b ! (2 * j + 1)))) [i..<i + n])"
  using assms
proof (induction n arbitrary: i h)
  case (Suc n)
  have u: "[i..<i + Suc n] = i # [Suc i..<Suc i + n]" by (simp add: upt_conv_Cons)
  have "write_words i (Suc n) b h = write_words (Suc i) n b (h @ [Outw 0x1F0 (word_of_bytes (b ! (2 * i)) (b ! (2 * i + 1)))])"
    using Suc.prems by (simp add: outw_def word_of_bytes_def mult.commute)
  also have "\<dots> = Some ((h @ [Outw 0x1F0 (word_of_bytes (b ! (2 * i)) (b ! (2 * i + 1)))]) @
      map (\<lambda>j. Outw 0x1F0 (word_of_bytes (b ! (2 * j)) (b ! (2 * j + 1)))) [Suc i..<Suc i + n])"
    using Suc.prems by (intro Suc.IH) simp
  finally show ?case unfolding u by simp
qed simp

lemma concat_pairs: "2 * n \<le> length b \<Longrightarrow> concat (map (\<lambda>i. [b ! (2 * i), b ! (2 * i + 1)]) [0..<n]) = take (2 * n) b"
  by (induction n) (simp_all add: take_Suc_conv_app_nth)

lemma sector_bytes: "512 \<le> length b \<Longrightarrow> concat (map word_bytes (sector_words b)) = take 512 b"
  using concat_pairs [of 256 b] by (simp add: sector_words_def o_def)

section \<open>Port traffic\<close>

definition command_events :: "u32 \<Rightarrow> u8 \<Rightarrow> history" where
  "command_events lba cmd = [Outb 0x1F6 (0xE0 OR ucast (drop_bit 24 lba AND 0x0F)), Outb 0x1F2 1, Outb 0x1F3 (ucast lba),
     Outb 0x1F4 (ucast (drop_bit 8 lba)), Outb 0x1F5 (ucast (drop_bit 16 lba)), Outb 0x1F7 cmd]"

text \<open>The sector address that the registers written by a command select.\<close>

definition selected_lba :: "history \<Rightarrow> u32" where
  "selected_lba h = ucast (last (writes_to 0x1F3 h)) OR push_bit 8 (ucast (last (writes_to 0x1F4 h))) OR
     push_bit 16 (ucast (last (writes_to 0x1F5 h))) OR push_bit 24 (ucast (last (writes_to 0x1F6 h) AND 0x0F))"

definition data_in :: "history \<Rightarrow> u16 list" where
  "data_in h = concat (map (\<lambda>e. case e of Inw p w \<Rightarrow> if p = 0x1F0 then [w] else [] | _ \<Rightarrow> []) h)"

definition data_out :: "history \<Rightarrow> u16 list" where
  "data_out h = concat (map (\<lambda>e. case e of Outw p w \<Rightarrow> if p = 0x1F0 then [w] else [] | _ \<Rightarrow> []) h)"

lemma data_append [simp]: "data_in (h @ k) = data_in h @ data_in k" "data_out (h @ k) = data_out h @ data_out k"
  by (simp_all add: data_in_def data_out_def)

lemma data_polls: "status_reads k \<Longrightarrow> data_in k = []" "status_reads k \<Longrightarrow> data_out k = []"
  by (induction k) (auto simp: data_in_def data_out_def)

lemma data_words [simp]: "data_in (map (Inw 0x1F0) ws) = ws" "data_in (command_events lba cmd) = []"
  "data_out (command_events lba cmd) = []" "data_out (map (\<lambda>j. Outw 0x1F0 (f j)) js) = map f js"
  by (induction ws) (auto simp: data_in_def data_out_def command_events_def o_def)

lemma send_command_events: "send_command lba cmd h = h @ command_events lba cmd"
  by (simp add: send_command_def command_events_def outb_def)

lemma writes_command: "writes_to 0x1F7 (command_events lba cmd) = [cmd]"
  by (simp add: command_events_def)

lemma selected_lba_command: "selected_lba (command_events lba cmd) = take_bit 28 lba"
proof (rule bit_word_eqI)
  fix n assume "n < LENGTH(32)"
  have f: "(0x0F :: u32) = mask 4" "(0x0F :: u8) = mask 4" "(0xE0 :: u8) = push_bit 5 (mask 3)"
    by (simp_all add: mask_eq_exp_minus_1)
  show "bit (selected_lba (command_events lba cmd)) n \<longleftrightarrow> bit (take_bit 28 lba) n"
    unfolding selected_lba_def command_events_def f
    by (cases "n < 8"; cases "n < 16"; cases "n < 24"; cases "n < 28") (simp_all add: bit_simps, auto)
qed

lemma disk_read_spec:
  assumes "512 \<le> length buffer"
  shows "\<exists>r b k. disk_read_sector d lba buffer h = Some (r, b, h @ k) \<and>
    (r = - 1 \<and> b = buffer \<and> data_in k = [] \<or>
     r = 0 \<and> (\<exists>p q ws. status_reads p \<and> status_reads q \<and> length ws = 256 \<and>
       k = p @ command_events lba 0x20 @ q @ map (Inw 0x1F0) ws \<and>
       b = concat (map word_bytes ws) @ drop 512 buffer))"
proof -
  obtain p where p: "snd (ata_wait_bsy d h) = h @ p" "status_reads p" by (rule wait_bsy_spec)
  let ?h1 = "h @ p @ command_events lba 0x20"
  obtain q1 where q1: "snd (ata_wait_bsy d ?h1) = ?h1 @ q1" "status_reads q1" by (rule wait_bsy_spec)
  obtain q2 where q2: "snd (ata_wait_drq d (?h1 @ q1)) = (?h1 @ q1) @ q2" "status_reads q2"
    by (rule wait_drq_spec)
  obtain ws where ws: "length ws = 256" "read_words 0 256 d buffer (?h1 @ q1 @ q2) =
      Some (concat (map word_bytes ws) @ drop 512 buffer, (?h1 @ q1 @ q2) @ map (Inw 0x1F0) ws)"
    using read_words_spec [of 0 256 buffer d "?h1 @ q1 @ q2"] assms by auto
  note data = data_polls(1) [OF p(2)] data_polls(1) [OF q1(2)] data_polls(1) [OF q2(2)]
  show ?thesis
  proof (cases "fst (ata_wait_bsy d h)")
    case False
    with p data(1) show ?thesis by (simp add: disk_read_sector_def case_prod_unfold Let_def)
  next
    case t1: True
    show ?thesis
    proof (cases "fst (ata_wait_bsy d ?h1)")
      case False
      then have "disk_read_sector d lba buffer h = Some (- 1, buffer, ?h1 @ q1)"
        using t1 p(1) q1(1) by (simp add: disk_read_sector_def send_command_events case_prod_unfold Let_def)
      with data show ?thesis by (intro exI [of _ "- 1"] exI [of _ buffer] exI [of _ "p @ command_events lba 0x20 @ q1"]) simp
    next
      case t2: True
      show ?thesis
      proof (cases "fst (ata_wait_drq d (?h1 @ q1))")
        case False
        then have "disk_read_sector d lba buffer h = Some (- 1, buffer, ?h1 @ q1 @ q2)"
          using t1 t2 p(1) q1(1) q2(1) by (simp add: disk_read_sector_def send_command_events case_prod_unfold Let_def)
        with data show ?thesis
          by (intro exI [of _ "- 1"] exI [of _ buffer] exI [of _ "p @ command_events lba 0x20 @ q1 @ q2"]) simp
      next
        case t3: True
        have "disk_read_sector d lba buffer h = Some (0, concat (map word_bytes ws) @ drop 512 buffer,
            h @ p @ command_events lba 0x20 @ (q1 @ q2) @ map (Inw 0x1F0) ws)"
          using t1 t2 t3 p(1) q1(1) q2(1) ws(2) by (simp add: disk_read_sector_def send_command_events case_prod_unfold Let_def)
        moreover have "status_reads (q1 @ q2)" using q1(2) q2(2) by auto
        ultimately show ?thesis using p(2) ws(1) by blast
      qed
    qed
  qed
qed

lemma disk_write_spec:
  assumes "512 \<le> length buffer"
  shows "\<exists>p q r. disk_write_sector d lba buffer h =
      Some (0, h @ p @ command_events lba 0x30 @ q @ map (Outw 0x1F0) (sector_words buffer) @ r) \<and>
    status_reads p \<and> status_reads q \<and> status_reads r"
proof -
  obtain p where p: "snd (ata_wait_bsy d h) = h @ p" "status_reads p" by (rule wait_bsy_spec)
  let ?h1 = "h @ p @ command_events lba 0x30"
  obtain q1 where q1: "snd (ata_wait_bsy d ?h1) = ?h1 @ q1" "status_reads q1" by (rule wait_bsy_spec)
  obtain q2 where q2: "snd (ata_wait_drq d (?h1 @ q1)) = (?h1 @ q1) @ q2" "status_reads q2"
    by (rule wait_drq_spec)
  let ?h2 = "?h1 @ q1 @ q2 @ map (Outw 0x1F0) (sector_words buffer)"
  have w: "write_words 0 256 buffer (?h1 @ q1 @ q2) = Some ?h2"
    using write_words_spec [of 0 256 buffer "?h1 @ q1 @ q2"] assms by (simp add: sector_words_def o_def)
  obtain r where r: "snd (ata_wait_bsy d ?h2) = ?h2 @ r" "status_reads r" by (rule wait_bsy_spec)
  have "disk_write_sector d lba buffer h =
      Some (0, h @ p @ command_events lba 0x30 @ (q1 @ q2) @ map (Outw 0x1F0) (sector_words buffer) @ r)"
    using p(1) q1(1) q2(1) w r(1) by (simp add: disk_write_sector_def send_command_events case_prod_unfold Let_def)
  moreover have "status_reads (q1 @ q2)" using q1(2) q2(2) by auto
  ultimately show ?thesis using p(2) r(2) by blast
qed

lemma writes_status_reads: "status_reads k \<Longrightarrow> writes_to port k = []"
  by (induction k) auto

lemma writes_words [simp]: "writes_to port (map (Inw q) ws) = []" "writes_to port (map (Outw q) ws) = []"
  by (induction ws) simp_all

lemma disk_read_sector_spec':
  assumes "512 \<le> length buffer"
  shows "\<exists>r b k. disk_read_sector d lba buffer h = Some (r, b, h @ k) \<and>
    (r = - 1 \<and> b = buffer \<and> data_in k = [] \<or>
     r = 0 \<and> selected_lba k = take_bit 28 lba \<and> last (writes_to 0x1F7 k) = 0x20 \<and> length (data_in k) = 256 \<and>
       b = concat (map word_bytes (data_in k)) @ drop 512 buffer)"
proof -
  obtain r b k where r: "disk_read_sector d lba buffer h = Some (r, b, h @ k)"
    "r = - 1 \<and> b = buffer \<and> data_in k = [] \<or>
     r = 0 \<and> (\<exists>p q ws. status_reads p \<and> status_reads q \<and> length ws = 256 \<and>
       k = p @ command_events lba 0x20 @ q @ map (Inw 0x1F0) ws \<and> b = concat (map word_bytes ws) @ drop 512 buffer)"
    using disk_read_spec [OF assms, of d lba h] by (elim exE conjE) (rule that)
  from r(2) show ?thesis
  proof
    assume "r = - 1 \<and> b = buffer \<and> data_in k = []"
    with r(1) show ?thesis by blast
  next
    assume e: "r = 0 \<and> (\<exists>p q ws. status_reads p \<and> status_reads q \<and> length ws = 256 \<and>
       k = p @ command_events lba 0x20 @ q @ map (Inw 0x1F0) ws \<and> b = concat (map word_bytes ws) @ drop 512 buffer)"
    then obtain p q ws where k: "status_reads p" "status_reads q" "length ws = 256"
      "k = p @ command_events lba 0x20 @ q @ map (Inw 0x1F0) ws" "b = concat (map word_bytes ws) @ drop 512 buffer" by blast
    have w: "writes_to port k = writes_to port (command_events lba 0x20)" for port
      by (simp add: k(4) writes_status_reads [OF k(1)] writes_status_reads [OF k(2)])
    have "selected_lba k = take_bit 28 lba" unfolding selected_lba_command [of lba "0x20", symmetric] by (simp add: selected_lba_def w)
    moreover have "last (writes_to 0x1F7 k) = 0x20" by (simp add: w command_events_def)
    moreover have "data_in k = ws" using k(1,2) by (simp add: k(4) data_polls)
    ultimately show ?thesis using r(1) e k(3,5) by blast
  qed
qed

section \<open>Properties\<close>

text \<open>\<^verbatim>\<open>disk_read_sector\<close> either fails with -1, leaving the buffer alone and transferring nothing, or
  returns 0 after selecting the low 28 bits of the address, issuing the read command and storing the
  256 words the device delivered, low byte first; the bytes after the sector are untouched.\<close>

theorem disk_read_sector_correct:
  assumes "512 \<le> length buffer"
  shows "\<exists>r b k. disk_read_sector d lba buffer h = Some (r, b, h @ k) \<and>
    (r = - 1 \<and> b = buffer \<and> data_in k = [] \<or>
     r = 0 \<and> selected_lba k = take_bit 28 lba \<and> last (writes_to 0x1F7 k) = 0x20 \<and> length (data_in k) = 256 \<and>
       b = concat (map word_bytes (data_in k)) @ drop 512 buffer)"
  by (rule disk_read_sector_spec' [OF assms])

definition idle_disk :: device where
  "idle_disk = \<lparr>dev_inb = (\<lambda>h port. 0x48), dev_inw = (\<lambda>h port. 0xABAB), dev_inl = (\<lambda>h port. 0)\<rparr>"

theorem disk_read_sector_correct_witness:
  "\<exists>r b k. disk_read_sector idle_disk 5 (replicate 600 0) [] = Some (r, b, k) \<and> drop 512 b = replicate 88 0"
proof -
  have "512 \<le> length (replicate 600 (0 :: u8))" by simp
  from disk_read_sector_correct [OF this, of idle_disk 5 "[]"] obtain r b k where
    k: "disk_read_sector idle_disk 5 (replicate 600 0) [] = Some (r, b, k)"
    and "r = - 1 \<and> b = replicate 600 0 \<or> length (data_in k) = 256 \<and> b = concat (map word_bytes (data_in k)) @ replicate 88 0"
    by auto
  moreover have "length (concat (map word_bytes ws)) = 2 * length ws" for ws by (induction ws) (auto simp: word_bytes_def)
  ultimately show ?thesis by (elim disjE) auto
qed

text \<open>a sector that is written and read back is unchanged, if the disk delivers for the read the words
  it was sent by the write; the words it is sent are those of the buffer, for the same sector.\<close>

theorem disk_write_read_roundtrip:
  assumes "512 \<le> length b" and "512 \<le> length c" and "disk_write_sector d lba b h = Some (r, h1)"
    and "disk_read_sector d lba c h2 = Some (0, c', h3)" and "data_in (added h2 h3) = data_out (added h h1)"
  shows "r = 0 \<and> selected_lba (added h h1) = selected_lba (added h2 h3) \<and> c' = take 512 b @ drop 512 c"
proof -
  obtain p q e where w: "disk_write_sector d lba b h =
      Some (0, h @ p @ command_events lba 0x30 @ q @ map (Outw 0x1F0) (sector_words b) @ e)"
    "status_reads p" "status_reads q" "status_reads e"
    using disk_write_spec [OF assms(1)] by blast
  let ?k = "p @ command_events lba 0x30 @ q @ map (Outw 0x1F0) (sector_words b) @ e"
  have h1: "added h h1 = ?k" "r = 0" using w(1) assms(3) by (simp_all add: added_def)
  have "data_out (map (Outw 0x1F0) (sector_words b)) = sector_words b"
    using data_words(4) [of "\<lambda>w. w" "sector_words b"] by simp
  then have d: "data_out (added h h1) = sector_words b" using w(2-4) by (simp add: h1 data_polls)
  obtain k where k: "h3 = h2 @ k" "selected_lba k = take_bit 28 lba" "c' = concat (map word_bytes (data_in k)) @ drop 512 c"
    using disk_read_sector_spec' [OF assms(2), of d lba h2] assms(4) by auto
  have "selected_lba (added h h1) = take_bit 28 lba"
    unfolding selected_lba_command [of lba "0x30", symmetric] h1
    by (simp add: selected_lba_def writes_status_reads [OF w(2)] writes_status_reads [OF w(3)] writes_status_reads [OF w(4)])
  with k h1(2) d assms(5) sector_bytes [OF assms(1)] show ?thesis by (simp add: added_def)
qed

lemma idle_disk_waits: "ata_wait_bsy idle_disk h = (True, h @ [Inb 0x1F7 0x48])"
  "ata_wait_drq idle_disk h = (True, h @ [Inb 0x1F7 0x48])"
proof -
  have n: "ATA_TIMEOUT = Suc 999999" by (simp add: ATA_TIMEOUT_def)
  have p: "poll_bsy (Suc n) idle_disk h = (True, h @ [Inb 0x1F7 0x48])"
    "poll_drq (Suc n) idle_disk h = (True, h @ [Inb 0x1F7 0x48])" for n by (simp_all add: inb_def idle_disk_def)
  show "ata_wait_bsy idle_disk h = (True, h @ [Inb 0x1F7 0x48])" "ata_wait_drq idle_disk h = (True, h @ [Inb 0x1F7 0x48])"
    unfolding ata_wait_bsy_def ata_wait_drq_def n by (rule p)+
qed

lemma idle_disk_read:
  assumes "2 * (i + n) \<le> length b"
  shows "\<exists>b'. read_words i n idle_disk b h = Some (b', h @ map (Inw 0x1F0) (replicate n 0xABAB))"
  using assms
proof (induction n arbitrary: i b h)
  case (Suc n)
  let ?b = "b[2 * i := ucast (0xABAB :: u16), 2 * i + 1 := ucast (drop_bit 8 (0xABAB :: u16))]"
  have "2 * (Suc i + n) \<le> length ?b" using Suc.prems by simp
  moreover have "read_words i (Suc n) idle_disk b h = read_words (Suc i) n idle_disk ?b (h @ [Inw 0x1F0 0xABAB])"
    using Suc.prems by (simp add: inw_def idle_disk_def mult.commute)
  ultimately show ?case using Suc.IH [of "Suc i" ?b "h @ [Inw 0x1F0 0xABAB]"] by simp
qed simp

theorem disk_write_read_roundtrip_witness:
  "\<exists>h1 h3. disk_write_sector idle_disk 9 (replicate 512 0xAB) [] = Some (0, h1) \<and>
     disk_read_sector idle_disk 9 (replicate 512 0) h1 = Some (0, replicate 512 0xAB, h3)"
proof -
  let ?b = "replicate 512 0xAB :: u8 list" and ?c = "replicate 512 0 :: u8 list"
  have lb: "512 \<le> length ?b" and lc: "512 \<le> length ?c" by simp_all
  obtain p q e where w: "disk_write_sector idle_disk 9 ?b [] =
      Some (0, [] @ p @ command_events 9 0x30 @ q @ map (Outw 0x1F0) (sector_words ?b) @ e)"
    "status_reads p" "status_reads q" "status_reads e"
    using disk_write_spec [OF lb] by blast
  define h1 where "h1 = p @ command_events 9 0x30 @ q @ map (Outw 0x1F0) (sector_words ?b) @ e"
  have "sector_words ?b = map (\<lambda>i. 0xABAB) [0..<256]"
    unfolding sector_words_def by (rule map_cong) (auto simp: word_of_bytes_def)
  then have sw: "sector_words ?b = replicate 256 0xABAB" by (simp add: map_replicate_const)
  have "data_out (map (Outw 0x1F0) (sector_words ?b)) = sector_words ?b"
    using data_words(4) [of "\<lambda>w. w" "sector_words ?b"] by simp
  then have d: "data_out (added [] h1) = replicate 256 0xABAB"
    using w(2-4) by (simp add: h1_def added_def data_polls sw)
  let ?k = "[Inb 0x1F7 0x48] @ command_events 9 0x20 @ [Inb 0x1F7 0x48] @ [Inb 0x1F7 0x48]"
  obtain c' where "read_words 0 256 idle_disk ?c (h1 @ ?k) = Some (c', (h1 @ ?k) @ map (Inw 0x1F0) (replicate 256 0xABAB))"
    using idle_disk_read [of 0 256 ?c "h1 @ ?k"] by auto
  then have r: "disk_read_sector idle_disk 9 ?c h1 = Some (0, c', h1 @ ?k @ map (Inw 0x1F0) (replicate 256 0xABAB))"
    by (simp add: disk_read_sector_def idle_disk_waits send_command_events Let_def)
  have "data_in (added h1 (h1 @ ?k @ map (Inw 0x1F0) (replicate 256 0xABAB))) = replicate 256 0xABAB"
    using data_words(1) [of "replicate 256 0xABAB"] by (simp add: data_in_def command_events_def)
  then have "c' = take 512 ?b @ drop 512 ?c"
    using disk_write_read_roundtrip [OF lb lc _ r, of "[]" 0 h1] w(1) d by (simp add: h1_def)
  then show ?thesis using w(1) r by (auto simp: h1_def)
qed

text \<open>a disk that stays busy makes \<^verbatim>\<open>disk_read_sector\<close> fail without issuing its command, but
  \<^verbatim>\<open>disk_write_sector\<close> ignores every timeout: it sends the command and the whole sector to the busy
  device and reports success.\<close>

theorem disk_write_ignores_timeouts:
  assumes "\<And>h. dev_inb d h 0x1F7 AND 0x80 \<noteq> 0" and "512 \<le> length b"
  shows "(\<exists>k. disk_read_sector d lba b h = Some (- 1, b, h @ k) \<and> writes_to 0x1F7 k = []) \<and>
    (\<exists>k. disk_write_sector d lba b h = Some (0, h @ k) \<and> writes_to 0x1F7 k = [0x30] \<and> data_out k = sector_words b)"
proof -
  have f: "fst (poll_bsy n d h) = False" for n h
    using assms(1) by (induction n arbitrary: h) (auto simp: inb_def Let_def)
  obtain k where k: "snd (ata_wait_bsy d h) = h @ k" "status_reads k" by (rule wait_bsy_spec)
  have "disk_read_sector d lba b h = Some (- 1, b, h @ k)"
    using k(1) f by (simp add: disk_read_sector_def case_prod_unfold ata_wait_bsy_def Let_def)
  moreover obtain p q e where w: "disk_write_sector d lba b h =
      Some (0, h @ p @ command_events lba 0x30 @ q @ map (Outw 0x1F0) (sector_words b) @ e)"
    "status_reads p" "status_reads q" "status_reads e"
    using disk_write_spec [OF assms(2)] by blast
  moreover have "data_out (map (Outw 0x1F0) (sector_words b)) = sector_words b"
    using data_words(4) [of "\<lambda>w. w" "sector_words b"] by simp
  ultimately show ?thesis
    using writes_status_reads [OF k(2)] writes_status_reads [OF w(2)] writes_status_reads [OF w(3)]
      writes_status_reads [OF w(4)] data_polls(2) [OF w(2)] data_polls(2) [OF w(3)] data_polls(2) [OF w(4)]
    by (auto simp: writes_command)
qed

definition busy_disk :: device where
  "busy_disk = \<lparr>dev_inb = (\<lambda>h port. 0x80), dev_inw = (\<lambda>h port. 0), dev_inl = (\<lambda>h port. 0)\<rparr>"

theorem disk_write_ignores_timeouts_witness:
  "\<exists>k. disk_write_sector busy_disk 1 (replicate 512 7) [] = Some (0, k) \<and> writes_to 0x1F7 k = [0x30]"
proof -
  have "dev_inb busy_disk h 0x1F7 AND 0x80 \<noteq> 0" for h by (simp add: busy_disk_def)
  moreover have "512 \<le> length (replicate 512 (7 :: u8))" by simp
  ultimately show ?thesis using disk_write_ignores_timeouts [of busy_disk "replicate 512 7" 1 "[]"] by auto
qed

end
