(* ===== verification/Bcache.thy ===== *)
theory Bcache
  imports BTreeMap Disk
begin

text \<open>
  The sector cache (\<^verbatim>\<open>rust/munux-rs/src/bcache.rs\<close>) over the disk driver: bounded, evicting the least
  sector address, with write-through. The state is the cache, absent until its first use, and the
  history of port accesses; the lock around the cache is taken and released in each call and is not part of the
  state. A counter overflow is a panic, \<^const>\<open>None\<close>. The theorems show that the cache is transparent for
  a disk that can be read, that a cached sector costs no disk access, and that a failed read is cached too.
\<close>

section \<open>Operations\<close>

definition SECTOR :: nat where [simp]: "SECTOR = 512"
definition MAX_ENTRIES :: nat where [simp]: "MAX_ENTRIES = 256"

record Cache =
  cmap :: "(u32 \<times> u8 list) list"
  hits :: u32
  misses :: u32

type_synonym bstate = "Cache option \<times> history"

definition cache_of :: "Cache option \<Rightarrow> Cache" where
  "cache_of c = (case c of None \<Rightarrow> \<lparr>cmap = [], hits = 0, misses = 0\<rparr> | Some c \<Rightarrow> c)"

definition evict :: "(u32 \<times> u8 list) list \<Rightarrow> (u32 \<times> u8 list) list" where
  "evict m = (if length m \<ge> MAX_ENTRIES then (case m of [] \<Rightarrow> m | (victim, _) # _ \<Rightarrow> bt_remove victim m) else m)"

definition read_sector :: "device \<Rightarrow> u32 \<Rightarrow> bstate \<Rightarrow> (u8 list \<times> bstate) option" where
  "read_sector d lba = (\<lambda>(c0, h).
     let c = cache_of c0 in
     case map_of (cmap c) lba of
       Some block \<Rightarrow> do { n \<leftarrow> checked_add (hits c) 1; Some (block, Some (c\<lparr>hits := n\<rparr>), h) }
     | None \<Rightarrow> do {
         n \<leftarrow> checked_add (misses c) 1;
         (r, block, h1) \<leftarrow> disk_read_sector d lba (replicate SECTOR 0) h;
         Some (block, Some (c\<lparr>misses := n, cmap := bt_insert lba block (evict (cmap c))\<rparr>), h1)
       })"

definition write_sector :: "device \<Rightarrow> u32 \<Rightarrow> u8 list \<Rightarrow> bstate \<Rightarrow> bstate option" where
  "write_sector d lba data = (\<lambda>(c0, h).
     do {
       (r, h1) \<leftarrow> disk_write_sector d lba data h;
       let c = cache_of c0;
       Some (Some (c\<lparr>cmap := bt_insert lba data (cmap c)\<rparr>), h1)
     })"

definition stats :: "bstate \<Rightarrow> (u32 \<times> u32) \<times> bstate" where
  "stats = (\<lambda>(c0, h). let c = cache_of c0 in ((hits c, misses c), Some c, h))"

definition bcache_selftest :: "device \<Rightarrow> bstate \<Rightarrow> (bool \<times> bstate) option" where
  "bcache_selftest d s =
     do {
       let ((h0, m0), s) = stats s;
       (a, s) \<leftarrow> read_sector d 2 s;
       (b, s) \<leftarrow> read_sector d 2 s;
       let ((h1, m1), s) = stats s;
       Some (a = b \<and> h1 > h0 \<and> m1 > m0, s)
     }"

definition munux_rs_bcache_selftest :: "device \<Rightarrow> bstate \<Rightarrow> (int \<times> bstate) option" where
  "munux_rs_bcache_selftest d s = map_option (\<lambda>(b, s). (if b then 0 else 1, s)) (bcache_selftest d s)"

section \<open>Transparency\<close>

text \<open>A disk whose sector \<open>lba\<close> reads as \<open>img lba\<close>, and a cache that agrees with it.\<close>

definition reads_as :: "device \<Rightarrow> (u32 \<Rightarrow> u8 list) \<Rightarrow> bool" where
  "reads_as d img \<longleftrightarrow> (\<forall>lba h. \<exists>k. disk_read_sector d lba (replicate 512 0) h = Some (0, img lba, h @ k))"

definition cache_ok :: "(u32 \<Rightarrow> u8 list) \<Rightarrow> Cache \<Rightarrow> bool" where
  "cache_ok img c \<longleftrightarrow> bt_ordered (cmap c) \<and> length (cmap c) \<le> 256 \<and> (\<forall>lba b. map_of (cmap c) lba = Some b \<longrightarrow> b = img lba)"

definition accesses :: "Cache option \<Rightarrow> nat" where
  "accesses c = unat (hits (cache_of c)) + unat (misses (cache_of c))"

lemma cache_of_simps [simp]: "cache_of None = \<lparr>cmap = [], hits = 0, misses = 0\<rparr>" "cache_of (Some c) = c"
  by (simp_all add: cache_of_def)

lemma evict_spec:
  assumes "bt_ordered m" and "length m \<le> 256"
  shows "bt_ordered (evict m)" and "length (evict m) \<le> 255" and "map_of (evict m) \<subseteq>\<^sub>m map_of m"
proof -
  show "bt_ordered (evict m)" by (cases m) (use bt_remove_ordered [OF assms(1)] assms(1) in \<open>auto simp: evict_def\<close>)
  show "length (evict m) \<le> 255"
  proof (cases m)
    case (Cons e r)
    obtain v b where e: "e = (v, b)" by (cases e)
    have "length (bt_remove v m) \<le> length r" using Cons e by (simp add: bt_remove_def)
    with Cons e assms(2) show ?thesis by (auto simp: evict_def)
  qed (simp add: evict_def)
  show "map_of (evict m) \<subseteq>\<^sub>m map_of m"
    by (auto simp: evict_def map_le_def split: list.splits)
qed

lemma read_sector_spec:
  assumes "reads_as d img" and "cache_ok img (cache_of c0)" and "accesses c0 + 1 < 2 ^ 32"
  obtains c k where "read_sector d lba (c0, h) = Some (img lba, Some c, h @ k)" and "cache_ok img c"
    and "accesses (Some c) = accesses c0 + 1" and "map_of (cmap (cache_of c0)) lba \<noteq> None \<Longrightarrow> k = [] \<and> cmap c = cmap (cache_of c0)"
    and "map_of (cmap c) lba = Some (img lba)"
    and "map_of (cmap (cache_of c0)) lba = None \<Longrightarrow> hits c = hits (cache_of c0) \<and> unat (misses c) = unat (misses (cache_of c0)) + 1"
proof -
  let ?c = "cache_of c0"
  have b: "unat (hits ?c) + 1 < 2 ^ 32" "unat (misses ?c) + 1 < 2 ^ 32" using assms(3) by (simp_all add: accesses_def)
  have u: "unat (hits ?c + 1) = unat (hits ?c) + 1" "unat (misses ?c + 1) = unat (misses ?c) + 1"
    using b by (simp_all add: unat_add_small)
  show thesis
  proof (cases "map_of (cmap ?c) lba")
    case None
    obtain k where k: "disk_read_sector d lba (replicate 512 0) h = Some (0, img lba, h @ k)"
      using assms(1) by (auto simp: reads_as_def)
    let ?m = "bt_insert lba (img lba) (evict (cmap ?c))"
    note ev = evict_spec [of "cmap ?c"]
    have ok: "cache_ok img (?c\<lparr>misses := misses ?c + 1, cmap := ?m\<rparr>)"
      using assms(2) ev bt_insert_length [of lba "img lba" "evict (cmap ?c)"]
      by (fastforce simp: cache_ok_def bt_insert_ordered map_le_def dom_def)
    show thesis
      by (rule that [OF _ ok, of k]) (use None k b u in \<open>simp_all add: read_sector_def checked_add_def accesses_def Let_def\<close>)
  next
    case (Some blk)
    then have "blk = img lba" using assms(2) by (simp add: cache_ok_def)
    have r: "read_sector d lba (c0, h) = Some (img lba, Some (?c\<lparr>hits := hits ?c + 1\<rparr>), h @ [])"
      using Some b \<open>blk = img lba\<close> by (simp add: read_sector_def checked_add_def Let_def)
    have "cache_ok img (?c\<lparr>hits := hits ?c + 1\<rparr>)" using assms(2) by (simp add: cache_ok_def)
    from that [OF r this] show thesis using Some u \<open>blk = img lba\<close> by (simp add: accesses_def)
  qed
qed

fun read_sectors :: "device \<Rightarrow> u32 list \<Rightarrow> bstate \<Rightarrow> (u8 list list \<times> bstate) option" where
  "read_sectors d [] s = Some ([], s)"
| "read_sectors d (lba # ls) s =
     do { (b, s1) \<leftarrow> read_sector d lba s; (bs, s2) \<leftarrow> read_sectors d ls s1; Some (b # bs, s2) }"

lemma read_sectors_spec:
  assumes "reads_as d img" and "cache_ok img (cache_of c0)" and "accesses c0 + length ls < 2 ^ 32"
  shows "\<exists>c k. read_sectors d ls (c0, h) = Some (map img ls, c, h @ k) \<and> cache_ok img (cache_of c) \<and> accesses c = accesses c0 + length ls"
  using assms(2,3)
proof (induction ls arbitrary: c0 h)
  case Nil
  then show ?case by simp
next
  case (Cons lba ls)
  have "accesses c0 + 1 < 2 ^ 32" using Cons.prems(2) by simp
  then obtain c k where r: "read_sector d lba (c0, h) = Some (img lba, Some c, h @ k)" "cache_ok img c" "accesses (Some c) = accesses c0 + 1"
    using read_sector_spec [OF assms(1) Cons.prems(1)] by metis
  have "cache_ok img (cache_of (Some c))" "accesses (Some c) + length ls < 2 ^ 32" using r(2,3) Cons.prems(2) by simp_all
  from Cons.IH [OF this, of "h @ k"] r show ?case by auto
qed

lemma bcache_selftest_ok:
  assumes "reads_as d img"
  obtains c k where "munux_rs_bcache_selftest d (None, h) = Some (0, Some c, h @ k)" and "cache_ok img c" and "accesses (Some c) = 2"
proof -
  have e: "cache_ok img (cache_of (Some (cache_of None)))" "accesses (Some (cache_of None)) + 1 < 2 ^ 32"
    by (simp_all add: cache_ok_def accesses_def)
  obtain c k where r: "read_sector d 2 (Some (cache_of None), h) = Some (img 2, Some c, h @ k)" "cache_ok img c"
    "accesses (Some c) = 1" "map_of (cmap c) 2 = Some (img 2)" "hits c = 0" "unat (misses c) = 1"
    by (rule read_sector_spec [OF assms e, of 2 h]) (simp add: accesses_def)
  have e2: "cache_ok img (cache_of (Some c))" "accesses (Some c) + 1 < 2 ^ 32" using r(2,3) by simp_all
  obtain c' k' where s: "read_sector d 2 (Some c, h @ k) = Some (img 2, Some c', (h @ k) @ k')" "cache_ok img c'"
    "accesses (Some c') = accesses (Some c) + 1" "k' = [] \<and> cmap c' = cmap c"
    by (rule read_sector_spec [OF assms e2, of 2 "h @ k"]) (simp add: r(4))
  have "c' = c\<lparr>hits := 1\<rparr>" using s(1) r(4,5) by (simp add: read_sector_def checked_add_def Let_def)
  moreover have "misses c > 0" using r(6) by (simp add: word_less_nat_alt)
  ultimately have "munux_rs_bcache_selftest d (None, h) = Some (0, Some c', h @ k)"
    using r(1,5) s(1,4) by (simp add: munux_rs_bcache_selftest_def bcache_selftest_def stats_def)
  then show thesis using that s(2,3) r(3) by simp
qed

section \<open>Properties\<close>

text \<open>C25: over a disk whose sectors can be read, any sequence of reads through the cache returns the sectors
  of the disk; the cache keeps at most 256 of them, each as it is on the disk, counts every read, and
  reading a sector that it holds does not access the disk.\<close>

theorem bcache_transparent:
  assumes "reads_as d img" and "cache_ok img (cache_of c0)" and "accesses c0 + length ls + 1 < 2 ^ 32"
  shows "\<exists>c h'. read_sectors d ls (c0, h) = Some (map img ls, c, h') \<and> cache_ok img (cache_of c) \<and>
    accesses c = accesses c0 + length ls \<and>
    (\<forall>lba. map_of (cmap (cache_of c)) lba \<noteq> None \<longrightarrow> (\<exists>c2. read_sector d lba (c, h') = Some (img lba, c2, h')))"
proof -
  have "accesses c0 + length ls < 2 ^ 32" using assms(3) by simp
  from read_sectors_spec [OF assms(1,2) this] obtain c k where
    r: "read_sectors d ls (c0, h) = Some (map img ls, c, h @ k)" "cache_ok img (cache_of c)" "accesses c = accesses c0 + length ls" by blast
  have "\<exists>c2. read_sector d lba (c, h @ k) = Some (img lba, c2, h @ k)" if m: "map_of (cmap (cache_of c)) lba \<noteq> None" for lba
  proof -
    have "accesses c + 1 < 2 ^ 32" using r(3) assms(3) by simp
    then show ?thesis by (rule read_sector_spec [OF assms(1) r(2), of lba "h @ k"]) (use m in auto)
  qed
  with r show ?thesis by blast
qed

lemma idle_disk_reads_as: "reads_as idle_disk (\<lambda>lba. replicate 512 0xAB)"
proof -
  have c: "concat (map word_bytes (replicate n 0xABAB)) = replicate (2 * n) 0xAB" for n
    by (induction n) (simp_all add: word_bytes_def)
  let ?b = "replicate 512 0 :: u8 list"
  have "\<exists>k. disk_read_sector idle_disk lba ?b h = Some (0, replicate 512 0xAB, h @ k)" for lba h
  proof -
    let ?k = "[Inb 0x1F7 0x48] @ command_events lba 0x20 @ [Inb 0x1F7 0x48] @ [Inb 0x1F7 0x48]"
    obtain b' where r: "read_words 0 256 idle_disk ?b (h @ ?k) = Some (b', (h @ ?k) @ map (Inw 0x1F0) (replicate 256 0xABAB))"
      using idle_disk_read [of 0 256 ?b "h @ ?k"] by auto
    have "\<exists>ws. read_words 0 256 idle_disk ?b (h @ ?k) = Some (concat (map word_bytes ws), (h @ ?k) @ map (Inw 0x1F0) ws)"
      using read_words_spec [of 0 256 ?b idle_disk "h @ ?k"] by auto
    then obtain ws where w: "b' = concat (map word_bytes ws)" "map (Inw 0x1F0) ws = map (Inw 0x1F0) (replicate 256 0xABAB)"
      using r by auto
    have "inj (Inw 0x1F0)" by (simp add: inj_def)
    with w(2) have "ws = replicate 256 0xABAB" by (simp only: inj_map_eq_map)
    with w(1) c [of 256] have "b' = replicate 512 0xAB" by simp
    with r show ?thesis
      by (simp add: disk_read_sector_def idle_disk_waits send_command_events Let_def)
  qed
  then show ?thesis by (simp only: reads_as_def) blast
qed

theorem bcache_transparent_witness:
  "\<exists>c h'. read_sectors idle_disk [7, 3, 7] (None, []) = Some (map (\<lambda>lba :: u32. replicate 512 0xAB) [7, 3, 7], c, h')"
proof -
  have "cache_ok (\<lambda>lba. replicate 512 0xAB) (cache_of None)" by (simp add: cache_ok_def)
  moreover have "accesses None + length [7, 3, 7 :: u32] + 1 < 2 ^ 32" by (simp add: accesses_def)
  ultimately show ?thesis using bcache_transparent [OF idle_disk_reads_as, of None "[7, 3, 7]" "[]"] by blast
qed

end
