(* ===== verification/Ext2.thy ===== *)
theory Ext2
  imports Bcache Vfs
begin

text \<open>
  The read-only ext2 reader (\<^verbatim>\<open>rust/munux-rs/src/ext2.rs\<close>) over the sector cache. A panic of the Rust
  code (index out of bounds, arithmetic overflow, division by zero) is \<^const>\<open>None\<close>, and so is a call
  that never returns. Values of type \<^verbatim>\<open>usize\<close> that are indices into a buffer are natural numbers; sums and
  products that can leave 32 bits are checked. The lemmas show that \<open>read_range\<close> is a slice of the disk
  image and how file blocks are looked up in it.
\<close>

section \<open>Operations\<close>

definition EXT2_MAGIC :: u16 where [simp]: "EXT2_MAGIC = 0xEF53"
definition ROOT_INO :: u32 where [simp]: "ROOT_INO = 2"

definition rd_u16 :: "u8 list \<Rightarrow> nat \<Rightarrow> u16 option" where
  "rd_u16 b off = do { x \<leftarrow> rd b off; y \<leftarrow> rd b (off + 1); Some (ucast x OR push_bit 8 (ucast y)) }"

definition rd_u32 :: "u8 list \<Rightarrow> nat \<Rightarrow> u32 option" where
  "rd_u32 b off =
     do { x \<leftarrow> rd b off; y \<leftarrow> rd b (off + 1); z \<leftarrow> rd b (off + 2); w \<leftarrow> rd b (off + 3);
          Some (ucast x OR push_bit 8 (ucast y) OR push_bit 16 (ucast z) OR push_bit 24 (ucast w)) }"

definition read_range :: "device \<Rightarrow> u32 \<Rightarrow> nat \<Rightarrow> bstate \<Rightarrow> (u8 list \<times> bstate) option" where
  "read_range d byte_off len s =
     (let start = unat byte_off div SECTOR
      in if unat byte_off + len \<ge> 2 ^ 32 then None
         else let stop = (unat byte_off + len + (SECTOR - 1)) div SECTOR in
         do {
           (secs, s1) \<leftarrow> read_sectors d (map word_of_nat [start..<stop]) s;
           let raw = concat secs;
           let skip = unat byte_off mod SECTOR;
           if skip + len \<le> length raw then Some (take len (drop skip raw), s1) else None
         })"

record Inode =
  i_size :: u32
  i_blocks :: "u32 list"
  indirect :: u32
  double_indirect :: u32

record Fs =
  block_size :: u32
  inodes_per_group :: u32
  inode_size :: u32
  bgdt_off :: u32

text \<open>A shift by 32 or more is a panic; the bits that leave the word are lost silently.\<close>

definition read_super :: "device \<Rightarrow> bstate \<Rightarrow> (Fs option \<times> bstate) option" where
  "read_super d s =
     do {
       (sb, s) \<leftarrow> read_range d 1024 1024 s;
       magic \<leftarrow> rd_u16 sb 56;
       if magic \<noteq> EXT2_MAGIC then Some (None, s)
       else do {
         sh \<leftarrow> rd_u32 sb 24;
         bs \<leftarrow> (if unat sh < 32 then Some (push_bit (unat sh) 1024) else None);
         ipg \<leftarrow> rd_u32 sb 40;
         rev \<leftarrow> rd_u32 sb 76;
         isz \<leftarrow> (if rev \<ge> 1 then map_option ucast (rd_u16 sb 88) else Some 128);
         off \<leftarrow> checked_mul (if bs = 1024 then 2 else 1) bs;
         Some (Some \<lparr>block_size = bs, inodes_per_group = ipg, inode_size = isz, bgdt_off = off\<rparr>, s)
       }
     }"

fun rd_blocks :: "u8 list \<Rightarrow> nat \<Rightarrow> nat \<Rightarrow> u32 list option" where
  "rd_blocks raw k 0 = Some []"
| "rd_blocks raw k (Suc n) = do { b \<leftarrow> rd_u32 raw (40 + 4 * k); bs \<leftarrow> rd_blocks raw (Suc k) n; Some (b # bs) }"

definition read_inode :: "device \<Rightarrow> Fs \<Rightarrow> u32 \<Rightarrow> bstate \<Rightarrow> (Inode \<times> bstate) option" where
  "read_inode d fs ino s =
     do {
       i \<leftarrow> checked_sub ino 1;
       if inodes_per_group fs = 0 then None
       else do {
         let group = i div inodes_per_group fs;
         let index = i mod inodes_per_group fs;
         g \<leftarrow> checked_mul group 32;
         goff \<leftarrow> checked_add (bgdt_off fs) g;
         (desc, s) \<leftarrow> read_range d goff 32 s;
         inode_table \<leftarrow> rd_u32 desc 8;
         toff \<leftarrow> checked_mul inode_table (block_size fs);
         ioff \<leftarrow> checked_mul index (inode_size fs);
         off \<leftarrow> checked_add toff ioff;
         (raw, s) \<leftarrow> read_range d off (unat (inode_size fs)) s;
         bs \<leftarrow> rd_blocks raw 0 12;
         sz \<leftarrow> rd_u32 raw 4;
         ind \<leftarrow> rd_u32 raw 88;
         dbl \<leftarrow> rd_u32 raw 92;
         Some (\<lparr>i_size = sz, i_blocks = bs, indirect = ind, double_indirect = dbl\<rparr>, s)
       }
     }"

definition read_block :: "device \<Rightarrow> Fs \<Rightarrow> u32 \<Rightarrow> nat \<Rightarrow> bstate \<Rightarrow> (u8 list \<times> bstate) option" where
  "read_block d fs blk len s = do { off \<leftarrow> checked_mul blk (block_size fs); read_range d off len s }"

definition block_at :: "device \<Rightarrow> Fs \<Rightarrow> Inode \<Rightarrow> nat \<Rightarrow> bstate \<Rightarrow> (u32 \<times> bstate) option" where
  "block_at d fs inode n s =
     (let bs = unat (block_size fs); ppb = bs div 4 in
      if n < 12 then do { b \<leftarrow> rd (i_blocks inode) n; Some (b, s) }
      else let n = n - 12 in
      if n < ppb then
        if indirect inode = 0 then Some (0, s)
        else do { (tbl, s) \<leftarrow> read_block d fs (indirect inode) bs s; b \<leftarrow> rd_u32 tbl (n * 4); Some (b, s) }
      else let n = n - ppb in
      if double_indirect inode = 0 then Some (0, s)
      else do {
        (dbl, s) \<leftarrow> read_block d fs (double_indirect inode) bs s;
        if ppb = 0 then None
        else do {
          outer \<leftarrow> rd_u32 dbl ((n div ppb) * 4);
          if outer = 0 then Some (0, s)
          else do { (inner, s) \<leftarrow> read_block d fs outer bs s; b \<leftarrow> rd_u32 inner ((n mod ppb) * 4); Some (b, s) }
        }
      })"

text \<open>The walk over the entries of a directory block.\<close>

function dir_entries :: "u8 list \<Rightarrow> nat \<Rightarrow> (u8 list \<times> u32) list option" where
  "dir_entries data pos =
     (if pos + 8 \<le> length data then
        case rd_u32 data pos of
          None \<Rightarrow> None
        | Some inode_num \<Rightarrow>
        (case rd_u16 data (pos + 4) of
           None \<Rightarrow> None
         | Some rec_len \<Rightarrow>
           (if rec_len = 0 then Some []
            else
              let name_len = unat (data ! (pos + 6));
                  name = take name_len (drop (pos + 8) data);
                  rest = dir_entries data (pos + unat rec_len)
              in if inode_num \<noteq> 0 \<and> name_len > 0 \<and> pos + 8 + name_len \<le> length data \<and> valid_utf8 name
                 then map_option (Cons (name, inode_num)) rest else rest))
      else Some [])"
  by pat_completeness auto
termination
  by (relation "measure (\<lambda>(data, pos). length data - pos)") (auto dest!: unat_gt_0 [THEN iffD2] intro: diff_less_mono2)

declare dir_entries.simps [simp del]

fun read_dir_blocks :: "device \<Rightarrow> Fs \<Rightarrow> u32 list \<Rightarrow> bstate \<Rightarrow> ((u8 list \<times> u32) list \<times> bstate) option" where
  "read_dir_blocks d fs [] s = Some ([], s)"
| "read_dir_blocks d fs (blk # bs) s =
     (if blk = 0 then read_dir_blocks d fs bs s
      else do {
        (data, s) \<leftarrow> read_block d fs blk (unat (block_size fs)) s;
        es \<leftarrow> dir_entries data 0;
        (fs', s) \<leftarrow> read_dir_blocks d fs bs s;
        Some (es @ fs', s)
      })"

definition read_dir :: "device \<Rightarrow> Fs \<Rightarrow> Inode \<Rightarrow> bstate \<Rightarrow> ((u8 list \<times> u32) list \<times> bstate) option" where
  "read_dir d fs inode s = read_dir_blocks d fs (i_blocks inode) s"

text \<open>The loop over the blocks \<open>n\<close> of a file, \<open>k\<close> of them left.\<close>

fun read_file_loop :: "device \<Rightarrow> Fs \<Rightarrow> Inode \<Rightarrow> nat \<Rightarrow> nat \<Rightarrow> nat \<Rightarrow> bstate \<Rightarrow> (u8 list \<times> bstate) option" where
  "read_file_loop d fs inode n 0 remaining s = Some ([], s)"
| "read_file_loop d fs inode n (Suc k) remaining s =
     (if remaining = 0 then Some ([], s)
      else do {
        (blk, s) \<leftarrow> block_at d fs inode n s;
        if blk = 0 then Some ([], s)
        else do {
          let len = min remaining (unat (block_size fs));
          (piece, s) \<leftarrow> read_block d fs blk len s;
          (rest, s) \<leftarrow> read_file_loop d fs inode (Suc n) k (remaining - len) s;
          Some (piece @ rest, s)
        }
      })"

definition read_file :: "device \<Rightarrow> Fs \<Rightarrow> Inode \<Rightarrow> bstate \<Rightarrow> (u8 list \<times> bstate) option" where
  "read_file d fs inode s =
     (let sz = unat (i_size inode); bs = unat (block_size fs) in
      if bs = 0 then None else read_file_loop d fs inode 0 ((sz + (bs - 1)) div bs) sz s)"

definition find_entry :: "u8 list \<Rightarrow> (u8 list \<times> u32) list \<Rightarrow> u32 option" where
  "find_entry name es = map_option snd (find (\<lambda>(n, i). n = name) es)"

definition ext2_selftest :: "device \<Rightarrow> bstate \<Rightarrow> (bool \<times> bstate) option" where
  "ext2_selftest d s =
     do {
       (sup, s) \<leftarrow> read_super d s;
       case sup of
         None \<Rightarrow> Some (False, s)
       | Some fs \<Rightarrow> do {
           (root, s) \<leftarrow> read_inode d fs ROOT_INO s;
           (entries, s) \<leftarrow> read_dir d fs root s;
           case find_entry (bytes ''hello.txt'') entries of
             None \<Rightarrow> Some (False, s)
           | Some ino \<Rightarrow> do {
               (inode, s) \<leftarrow> read_inode d fs ino s;
               (data, s) \<leftarrow> read_file d fs inode s;
               if data \<noteq> bytes ''Hello from Munux ext2!'' @ [10] then Some (False, s)
               else case find_entry (bytes ''big.bin'') entries of
                 None \<Rightarrow> Some (True, s)
               | Some big \<Rightarrow> do {
                   (inode, s) \<leftarrow> read_inode d fs big s;
                   (data, s) \<leftarrow> read_file d fs inode s;
                   Some (length data = 20480 \<and> list_all (\<lambda>(i, b). b = word_of_nat i) (enumerate 0 data), s)
                 }
             }
         }
     }"

definition munux_rs_ext2_selftest :: "device \<Rightarrow> bstate \<Rightarrow> (int \<times> bstate) option" where
  "munux_rs_ext2_selftest d s = map_option (\<lambda>(b, s). (if b then 0 else 1, s)) (ext2_selftest d s)"

section \<open>Reading from a disk image\<close>

text \<open>The byte at an offset of a disk made of sectors of 512 bytes.\<close>

definition byte_at :: "(u32 \<Rightarrow> u8 list) \<Rightarrow> nat \<Rightarrow> u8" where
  "byte_at img i = img (word_of_nat (i div 512)) ! (i mod 512)"

definition disk_slice :: "(u32 \<Rightarrow> u8 list) \<Rightarrow> nat \<Rightarrow> nat \<Rightarrow> u8 list" where
  "disk_slice img off len = map (byte_at img) [off..<off + len]"

lemma length_slice [simp]: "length (disk_slice img off len) = len"
  by (simp add: disk_slice_def)

definition sectors_ok :: "(u32 \<Rightarrow> u8 list) \<Rightarrow> bool" where
  "sectors_ok img \<longleftrightarrow> (\<forall>lba. length (img lba) = 512)"

lemma sector_slice:
  assumes "sectors_ok img"
  shows "img (word_of_nat s) = disk_slice img (s * 512) 512"
proof (rule nth_equalityI)
  show "length (img (word_of_nat s)) = length (disk_slice img (s * 512) 512)" using assms by (simp add: sectors_ok_def)
  fix i assume "i < length (img (word_of_nat s))"
  then have "i < 512" using assms by (simp add: sectors_ok_def)
  moreover from this have "(s * 512 + i) div 512 = s" "(s * 512 + i) mod 512 = i" by simp_all
  ultimately show "img (word_of_nat s) ! i = disk_slice img (s * 512) 512 ! i" by (simp add: disk_slice_def byte_at_def)
qed

lemma slice_append: "disk_slice img a n @ disk_slice img (a + n) m = disk_slice img a (n + m)"
proof -
  have "[a..<a + (n + m)] = [a..<a + n] @ [a + n..<a + n + m]" by (metis add.assoc le_add1 upt_add_eq_append)
  then show ?thesis by (simp add: disk_slice_def)
qed

lemma sectors_slice:
  assumes "sectors_ok img"
  shows "concat (map (\<lambda>s. img (word_of_nat s)) [a..<a + n]) = disk_slice img (a * 512) (n * 512)"
proof (induction n)
  case 0
  show ?case by (simp add: disk_slice_def)
next
  case (Suc n)
  have "concat (map (\<lambda>s. img (word_of_nat s)) [a..<a + Suc n]) = disk_slice img (a * 512) (n * 512) @ disk_slice img ((a + n) * 512) 512"
    using Suc sector_slice [OF assms, of "a + n"] by simp
  also have "\<dots> = disk_slice img (a * 512) (Suc n * 512)"
    using slice_append [of img "a * 512" "n * 512" 512] by (simp add: algebra_simps)
  finally show ?case .
qed

lemma sub_slice: "i + n \<le> m \<Longrightarrow> take n (drop i (disk_slice img a m)) = disk_slice img (a + i) n"
  by (intro nth_equalityI) (simp_all add: disk_slice_def add.assoc)

text \<open>The number of sectors that a read touches.\<close>

definition span :: "nat \<Rightarrow> nat \<Rightarrow> nat" where
  "span off len = (off + len + 511) div 512 - off div 512"

lemma span_covers: "off mod 512 + len \<le> span off len * 512" "off div 512 + span off len = (off + len + 511) div 512"
proof -
  define q where "q = off + len"
  have m: "off div 512 \<le> (off + len + 511) div 512" by (rule div_le_mono) simp
  then show e: "off div 512 + span off len = (off + len + 511) div 512" by (simp add: span_def)
  have "(q + 511) div 512 * 512 + (q + 511) mod 512 = q + 511" "(q + 511) mod 512 < 512" by simp_all
  then have "q \<le> (off div 512 + span off len) * 512" unfolding e q_def by linarith
  moreover have "off div 512 * 512 + off mod 512 = off" by simp
  ultimately show "off mod 512 + len \<le> span off len * 512" unfolding q_def add_mult_distrib by linarith
qed

lemma read_range_spec:
  assumes "reads_as d img" and "sectors_ok img" and "cache_ok img (cache_of c)" and "unat off + len < 2 ^ 32"
    and "accesses c + span (unat off) len < 2 ^ 32"
  obtains c' k where "read_range d off len (c, h) = Some (disk_slice img (unat off) len, c', h @ k)" and "cache_ok img (cache_of c')"
    and "accesses c' = accesses c + span (unat off) len"
proof -
  let ?o = "unat off"
  let ?a = "?o div 512" and ?n = "span ?o len"
  let ?ls = "map word_of_nat [?a..<(?o + len + 511) div 512] :: u32 list"
  note sp = span_covers [of ?o len]
  have l: "length ?ls = ?n" unfolding span_def by simp
  have "accesses c + length ?ls < 2 ^ 32" using assms(5) l by simp
  from read_sectors_spec [OF assms(1,3) this] obtain c' k where
    r: "read_sectors d ?ls (c, h) = Some (map img ?ls, c', h @ k)" "cache_ok img (cache_of c')" "accesses c' = accesses c + length ?ls" by blast
  have raw: "concat (map img ?ls) = disk_slice img (?a * 512) (?n * 512)"
    using sectors_slice [OF assms(2), of ?a ?n] unfolding sp(2) by (simp add: comp_def)
  have t: "take len (drop (?o mod 512) (disk_slice img (?a * 512) (?n * 512))) = disk_slice img ?o len"
    using sub_slice [OF sp(1), of img "?a * 512"] by simp
  have "read_range d off len (c, h) = Some (disk_slice img ?o len, c', h @ k)"
    using r(1) sp(1) assms(4) unfolding read_range_def Let_def SECTOR_def
    by (simp add: raw t del: map_map)
  then show thesis using that r(2,3) l by simp
qed

section \<open>Blocks of a file\<close>

definition le32 :: "(u32 \<Rightarrow> u8 list) \<Rightarrow> nat \<Rightarrow> u32" where
  "le32 img off = ucast (byte_at img off) OR push_bit 8 (ucast (byte_at img (off + 1))) OR
     push_bit 16 (ucast (byte_at img (off + 2))) OR push_bit 24 (ucast (byte_at img (off + 3)))"

lemma rd_u32_slice: "i + 4 \<le> n \<Longrightarrow> rd_u32 (disk_slice img a n) i = Some (le32 img (a + i))"
  by (simp add: rd_u32_def disk_slice_def le32_def add.assoc)

text \<open>The number of the block \<open>n\<close> of a file in the tables on the disk: the first 12 are in the inode, the
  next ones in the indirect block, the others in the blocks that the double indirect block lists.\<close>

definition ptrs :: "Fs \<Rightarrow> nat" where
  "ptrs fs = unat (block_size fs) div 4"

definition table_entry :: "(u32 \<Rightarrow> u8 list) \<Rightarrow> Fs \<Rightarrow> u32 \<Rightarrow> nat \<Rightarrow> u32" where
  "table_entry img fs blk i = (if blk = 0 then 0 else le32 img (unat blk * unat (block_size fs) + i * 4))"

definition outer_table :: "(u32 \<Rightarrow> u8 list) \<Rightarrow> Fs \<Rightarrow> Inode \<Rightarrow> nat \<Rightarrow> u32" where
  "outer_table img fs inode n = table_entry img fs (double_indirect inode) ((n - 12 - ptrs fs) div ptrs fs)"

definition block_no :: "(u32 \<Rightarrow> u8 list) \<Rightarrow> Fs \<Rightarrow> Inode \<Rightarrow> nat \<Rightarrow> u32" where
  "block_no img fs inode n =
     (if n < 12 then i_blocks inode ! n
      else if n - 12 < ptrs fs then table_entry img fs (indirect inode) (n - 12)
      else table_entry img fs (outer_table img fs inode n) ((n - 12 - ptrs fs) mod ptrs fs))"

text \<open>A block lies in the part of the disk that 32-bit byte offsets reach.\<close>

definition block_fits :: "Fs \<Rightarrow> u32 \<Rightarrow> bool" where
  "block_fits fs b \<longleftrightarrow> (unat b + 1) * unat (block_size fs) < 2 ^ 32"

definition tables_fit :: "(u32 \<Rightarrow> u8 list) \<Rightarrow> Fs \<Rightarrow> Inode \<Rightarrow> nat \<Rightarrow> bool" where
  "tables_fit img fs inode n \<longleftrightarrow> block_fits fs (indirect inode) \<and> block_fits fs (double_indirect inode) \<and>
     block_fits fs (outer_table img fs inode n)"

text \<open>How many cache accesses reading one block may take.\<close>

definition reads_per_block :: "Fs \<Rightarrow> nat" where
  "reads_per_block fs = unat (block_size fs) div 512 + 2"

lemma span_bound: "span off len \<le> len div 512 + 2"
proof -
  have "off div 512 * 512 + off mod 512 = off" "len div 512 * 512 + len mod 512 = len" "off mod 512 < 512" "len mod 512 < 512" by simp_all
  then have "off + len + 511 < (off div 512 + len div 512 + 3) * 512" unfolding add_mult_distrib by linarith
  then have "(off + len + 511) div 512 < off div 512 + len div 512 + 3" by (rule less_mult_imp_div_less)
  then show ?thesis by (simp add: span_def)
qed

lemma read_block_spec:
  assumes "reads_as d img" and "sectors_ok img" and "cache_ok img (cache_of c)" and "block_fits fs b" and "len \<le> unat (block_size fs)"
    and "accesses c + reads_per_block fs < 2 ^ 32"
  obtains c' k where "read_block d fs b len (c, h) = Some (disk_slice img (unat b * unat (block_size fs)) len, c', h @ k)"
    and "cache_ok img (cache_of c')" and "accesses c' \<le> accesses c + reads_per_block fs"
proof -
  let ?bs = "unat (block_size fs)"
  have "unat b * ?bs + ?bs < 2 ^ 32" using assms(4) by (simp add: block_fits_def)
  then have m: "unat b * ?bs < 2 ^ 32" "unat (b * block_size fs) = unat b * ?bs" and r: "unat (b * block_size fs) + len < 2 ^ 32"
    using assms(5) by (simp_all add: unat_mult_small)
  have "span (unat (b * block_size fs)) len \<le> reads_per_block fs"
    using span_bound [of "unat (b * block_size fs)" len] div_le_mono [OF assms(5), of 512] by (simp add: reads_per_block_def)
  moreover from this have "accesses c + span (unat (b * block_size fs)) len < 2 ^ 32" using assms(6) by simp
  ultimately show thesis
    using that m by (auto simp: read_block_def checked_mul_def intro: read_range_spec [OF assms(1-3) r, of h])
qed

lemma read_table_spec:
  assumes "reads_as d img" and "sectors_ok img" and "cache_ok img (cache_of c)" and "block_fits fs b" and "b \<noteq> 0" and "i < ptrs fs"
    and "accesses c + reads_per_block fs < 2 ^ 32"
  obtains tbl c' k where "read_block d fs b (unat (block_size fs)) (c, h) = Some (tbl, c', h @ k)"
    and "rd_u32 tbl (i * 4) = Some (table_entry img fs b i)"
    and "cache_ok img (cache_of c')" and "accesses c' \<le> accesses c + reads_per_block fs"
proof -
  let ?bs = "unat (block_size fs)"
  have "i * 4 + 4 \<le> ?bs" using assms(6) unfolding ptrs_def by linarith
  then have "rd_u32 (disk_slice img (unat b * ?bs) ?bs) (i * 4) = Some (table_entry img fs b i)"
    using assms(5) by (simp add: rd_u32_slice table_entry_def)
  then show thesis using read_block_spec [OF assms(1-4) order_refl assms(7), of h] that by metis
qed

lemma block_at_single:
  assumes d: "reads_as d img" "sectors_ok img" and c: "cache_ok img (cache_of c)"
    and n: "\<not> n < 12" "n - 12 < ptrs fs" and fit: "tables_fit img fs inode n"
    and a: "accesses c + reads_per_block fs < 2 ^ 32"
  obtains c' k where "block_at d fs inode n (c, h) = Some (block_no img fs inode n, c', h @ k)"
    and "cache_ok img (cache_of c')" and "accesses c' \<le> accesses c + reads_per_block fs"
proof (cases "indirect inode = 0")
  case True
  then show thesis using that [of c "[]"] n c
    by (simp add: block_at_def Let_def ptrs_def [symmetric] block_no_def table_entry_def)
next
  case False
  note f = conjunct1 [OF fit [unfolded tables_fit_def]]
  obtain tbl c' k where r: "read_block d fs (indirect inode) (unat (block_size fs)) (c, h) = Some (tbl, c', h @ k)"
    "rd_u32 tbl ((n - 12) * 4) = Some (table_entry img fs (indirect inode) (n - 12))" "cache_ok img (cache_of c')"
    "accesses c' \<le> accesses c + reads_per_block fs"
    using read_table_spec [OF d c f False n(2) a] by metis
  show thesis using that [of c' k] n False r by (simp add: block_at_def Let_def ptrs_def [symmetric] block_no_def)
qed

lemma block_at_double:
  assumes d: "reads_as d img" "sectors_ok img" and c: "cache_ok img (cache_of c)"
    and n: "\<not> n < 12" "\<not> n - 12 < ptrs fs" "n < 12 + ptrs fs + ptrs fs * ptrs fs" and fit: "tables_fit img fs inode n"
    and a: "accesses c + 2 * reads_per_block fs < 2 ^ 32"
  obtains c' k where "block_at d fs inode n (c, h) = Some (block_no img fs inode n, c', h @ k)"
    and "cache_ok img (cache_of c')" and "accesses c' \<le> accesses c + 2 * reads_per_block fs"
proof (cases "double_indirect inode = 0")
  case True
  then show thesis using that [of c "[]"] n c
    by (simp add: block_at_def Let_def ptrs_def [symmetric] block_no_def table_entry_def outer_table_def)
next
  case False
  let ?p = "ptrs fs" and ?q = "n - 12 - ptrs fs" and ?o = "outer_table img fs inode n"
  note f = conjunct2 [OF fit [unfolded tables_fit_def]]
  note bd = block_at_def Let_def ptrs_def [symmetric] block_no_def
  have p: "0 < ?p" using n by (cases "?p = 0") simp_all
  have q: "?q div ?p < ?p" "?q mod ?p < ?p" using n p by (simp_all add: less_mult_imp_div_less)
  have "accesses c + reads_per_block fs < 2 ^ 32" using a by simp
  then obtain tbl c1 k1 where r: "read_block d fs (double_indirect inode) (unat (block_size fs)) (c, h) = Some (tbl, c1, h @ k1)"
    "rd_u32 tbl (?q div ?p * 4) = Some ?o" "cache_ok img (cache_of c1)" "accesses c1 \<le> accesses c + reads_per_block fs"
    unfolding outer_table_def using read_table_spec [OF d c conjunct1 [OF f] False q(1)] by metis
  show thesis
  proof (cases "?o = 0")
    case True
    show thesis using that [of c1 k1] n False True r p by (simp add: bd table_entry_def)
  next
    case o: False
    have "accesses c1 + reads_per_block fs < 2 ^ 32" using a r(4) by simp
    then obtain inner c2 k2 where s: "read_block d fs ?o (unat (block_size fs)) (c1, h @ k1) = Some (inner, c2, (h @ k1) @ k2)"
      "rd_u32 inner (?q mod ?p * 4) = Some (table_entry img fs ?o (?q mod ?p))" "cache_ok img (cache_of c2)"
      "accesses c2 \<le> accesses c1 + reads_per_block fs"
      using read_table_spec [OF d r(3) conjunct2 [OF f] o q(2)] by metis
    show thesis using that [of c2 "k1 @ k2"] n False o r s p by (simp add: bd)
  qed
qed

lemma block_at_spec:
  assumes d: "reads_as d img" "sectors_ok img" and c: "cache_ok img (cache_of c)"
    and n: "length (i_blocks inode) = 12" "n < 12 + ptrs fs + ptrs fs * ptrs fs" and fit: "tables_fit img fs inode n"
    and a: "accesses c + 2 * reads_per_block fs < 2 ^ 32"
  obtains c' k where "block_at d fs inode n (c, h) = Some (block_no img fs inode n, c', h @ k)"
    and "cache_ok img (cache_of c')" and "accesses c' \<le> accesses c + 2 * reads_per_block fs"
proof -
  consider (direct) "n < 12" | (single) "\<not> n < 12" "n - 12 < ptrs fs" | (double) "\<not> n < 12" "\<not> n - 12 < ptrs fs" by blast
  then show thesis
  proof cases
    case direct
    then show thesis using that [of c "[]"] n(1) c by (simp add: block_at_def block_no_def)
  next
    case single
    have "accesses c + reads_per_block fs < 2 ^ 32" using a by simp
    then obtain c' k where "block_at d fs inode n (c, h) = Some (block_no img fs inode n, c', h @ k)"
      "cache_ok img (cache_of c')" "accesses c' \<le> accesses c + reads_per_block fs"
      by (rule block_at_single [OF d c single fit])
    then show thesis using that [of c' k] by simp
  next
    case double
    show thesis by (rule block_at_double [OF d c double n(2) fit a, of h]) (rule that)
  qed
qed

text \<open>The content of the block \<open>n\<close> of a file, and the blocks that can be read.\<close>

definition file_block :: "(u32 \<Rightarrow> u8 list) \<Rightarrow> Fs \<Rightarrow> Inode \<Rightarrow> nat \<Rightarrow> u8 list" where
  "file_block img fs inode n = disk_slice img (unat (block_no img fs inode n) * unat (block_size fs)) (unat (block_size fs))"

definition readable :: "(u32 \<Rightarrow> u8 list) \<Rightarrow> Fs \<Rightarrow> Inode \<Rightarrow> nat \<Rightarrow> bool" where
  "readable img fs inode n \<longleftrightarrow> n < 12 + ptrs fs + ptrs fs * ptrs fs \<and> tables_fit img fs inode n \<and>
     block_no img fs inode n \<noteq> 0 \<and> block_fits fs (block_no img fs inode n)"

lemma read_file_loop_spec:
  assumes d: "reads_as d img" "sectors_ok img" and "length (i_blocks inode) = 12"
    and "cache_ok img (cache_of c)" and "\<And>m. n \<le> m \<Longrightarrow> m < n + k \<Longrightarrow> readable img fs inode m"
    and "accesses c + k * (3 * reads_per_block fs) < 2 ^ 32"
  shows "\<exists>c' e. read_file_loop d fs inode n k rem (c, h) =
    Some (take rem (concat (map (file_block img fs inode) [n..<n + k])), c', h @ e) \<and>
    cache_ok img (cache_of c') \<and> accesses c' \<le> accesses c + k * (3 * reads_per_block fs)"
  using assms(4-6)
proof (induction k arbitrary: n rem c h)
  case 0
  then show ?case by simp
next
  case (Suc k)
  let ?bs = "unat (block_size fs)" and ?r = "reads_per_block fs" and ?b = "block_no img fs inode n"
  have u: "[n..<n + Suc k] = n # [Suc n..<Suc n + k]" by (simp add: upt_conv_Cons)
  show ?case
  proof (cases "rem = 0")
    case False
    have rn: "readable img fs inode n" using Suc.prems(2) [of n] by simp
    have a: "accesses c + 2 * ?r < 2 ^ 32" "accesses c + 3 * ?r + k * (3 * ?r) < 2 ^ 32"
      using Suc.prems(3) by (simp_all add: algebra_simps)
    obtain c1 k1 where b: "block_at d fs inode n (c, h) = Some (?b, c1, h @ k1)" "cache_ok img (cache_of c1)"
      "accesses c1 \<le> accesses c + 2 * ?r"
      using block_at_spec [OF d Suc.prems(1) assms(3), of n fs h] rn a(1) unfolding readable_def by metis
    let ?l = "min rem ?bs"
    have a2: "accesses c1 + ?r < 2 ^ 32" using b(3) a(2) by simp
    obtain c2 k2 where s: "read_block d fs ?b ?l (c1, h @ k1) = Some (disk_slice img (unat ?b * ?bs) ?l, c2, (h @ k1) @ k2)"
      "cache_ok img (cache_of c2)" "accesses c2 \<le> accesses c1 + ?r"
      using read_block_spec [OF d b(2) _ _ a2, of ?b ?l "h @ k1"] rn unfolding readable_def by (metis min.cobounded2)
    have "accesses c2 + k * (3 * ?r) < 2 ^ 32" using a(2) b(3) s(3) by simp
    from Suc.IH [OF s(2) _ this, of "Suc n" "rem - ?l" "h @ k1 @ k2"] Suc.prems(2)
    obtain c' e where i: "read_file_loop d fs inode (Suc n) k (rem - ?l) (c2, h @ k1 @ k2) =
      Some (take (rem - ?l) (concat (map (file_block img fs inode) [Suc n..<Suc n + k])), c', (h @ k1 @ k2) @ e)"
      "cache_ok img (cache_of c')" "accesses c' \<le> accesses c2 + k * (3 * ?r)" by auto
    have "disk_slice img (unat ?b * ?bs) ?l = take rem (file_block img fs inode n)"
      using sub_slice [of 0 ?l ?bs img "unat ?b * ?bs"] by (cases "rem \<le> ?bs") (simp_all add: file_block_def min_def)
    moreover have "rem - ?l = rem - length (file_block img fs inode n)" by (simp add: file_block_def)
    ultimately have "read_file_loop d fs inode n (Suc k) rem (c, h) =
      Some (take rem (concat (map (file_block img fs inode) [n..<n + Suc k])), c', h @ (k1 @ k2 @ e))"
      unfolding u using False b(1) s(1) i(1) rn by (simp add: readable_def)
    moreover have "accesses c' \<le> accesses c + Suc k * (3 * ?r)" using b(3) s(3) i(3) by simp
    ultimately show ?thesis using i(2) by blast
  qed (use Suc.prems(1) in simp)
qed

section \<open>Properties\<close>

text \<open>over a disk that can be read, \<^verbatim>\<open>read_file\<close> returns the content of the file: its blocks in order, each
  looked up in the inode, the indirect or the double indirect table, cut at the size of the file, for
  every file whose blocks exist and lie below 4 GiB.\<close>

theorem ext2_read_file_content:
  assumes "reads_as d img" and "sectors_ok img" and "cache_ok img (cache_of c)" and "length (i_blocks inode) = 12"
    and "nblocks = (unat (i_size inode) + (unat (block_size fs) - 1)) div unat (block_size fs)" and "block_size fs \<noteq> 0"
    and "\<And>n. n < nblocks \<Longrightarrow> readable img fs inode n"
    and "accesses c + nblocks * (3 * reads_per_block fs) < 2 ^ 32"
  shows "\<exists>c' h'. read_file d fs inode (c, h) =
    Some (take (unat (i_size inode)) (concat (map (file_block img fs inode) [0..<nblocks])), c', h')"
proof -
  have "unat (block_size fs) \<noteq> 0" using assms(6) by (simp add: unat_eq_0)
  then show ?thesis
    using read_file_loop_spec [OF assms(1,2,4,3), where n = 0 and k = nblocks] assms(5,7,8) by (fastforce simp: read_file_def Let_def)
qed

definition sample_fs :: Fs where
  "sample_fs = \<lparr>block_size = 1024, inodes_per_group = 32, inode_size = 128, bgdt_off = 2048\<rparr>"

definition sample_inode :: Inode where
  "sample_inode = \<lparr>i_size = 1500, i_blocks = replicate 12 5, indirect = 0, double_indirect = 0\<rparr>"

theorem ext2_read_file_content_witness:
  "\<exists>data c' h'. read_file idle_disk sample_fs sample_inode (None, []) = Some (data, c', h') \<and> length data = 1500"
proof -
  let ?img = "\<lambda>lba :: u32. replicate 512 0xAB :: u8 list"
  have s: "sectors_ok ?img" by (simp add: sectors_ok_def)
  have c: "cache_ok ?img (cache_of None)" by (simp add: cache_ok_def)
  have b: "block_no ?img sample_fs sample_inode n = 5" if "n < 2" for n
    using that by (simp add: block_no_def sample_inode_def nth_replicate [of n 12])
  have r: "readable ?img sample_fs sample_inode n" if "n < 2" for n
    using that b [OF that]
    by (simp add: readable_def tables_fit_def block_fits_def outer_table_def table_entry_def sample_fs_def sample_inode_def)
  have l: "length (concat (map (file_block ?img sample_fs sample_inode) [0..<2])) = 2048"
    by (simp add: file_block_def sample_fs_def upt_rec)
  from ext2_read_file_content [OF idle_disk_reads_as s c, of sample_inode 2 sample_fs "[]"] r
  obtain c' h' where "read_file idle_disk sample_fs sample_inode (None, []) =
      Some (take 1500 (concat (map (file_block ?img sample_fs sample_inode) [0..<2])), c', h')"
    by (auto simp: sample_inode_def sample_fs_def accesses_def reads_per_block_def)
  then show ?thesis using l by (intro exI conjI) (assumption, simp)
qed

end
