(* ===== verification/Kernel.thy ===== *)
theory Kernel
  imports Shell Heap Ext2
begin

text \<open>
  Start-up (\<^verbatim>\<open>kernel.c\<close>): memory detection, the self tests and \<^verbatim>\<open>kernel_main\<close>, over all the components. A
  step either leads on, stops in \<^verbatim>\<open>kernel_panic\<close> with the screen it leaves, or never returns (\<^const>\<open>None\<close>,
  which also stands for undefined behaviour). \<open>memory\<close> is what the C code
  sees of its own objects and of heap payloads; frame bitmap, page tables and heap headers are in \<open>mm\<close>,
  which follows the requests of the C code: the collections of the Rust code (files, cached sectors) also take
  their memory from this heap, and the model lets those requests succeed without recording them.
  What the hardware and the linker fix is the record \<open>boot_env\<close>.
\<close>

section \<open>State\<close>

record kernel = shell_sys +
  mm :: rheap
  idt_table :: idt
  irq_handlers :: handlers
  sector_cache :: "Cache option"

text \<open>The device, the addresses of the interrupt stubs and of the table, which passes of the waiting loop
  an interrupt of the timer falls into, the registers of the caller of a system call, the addresses of
  the objects that \<^verbatim>\<open>syscall_selfcheck\<close> passes by pointer, the scancodes to come and the
  uninitialised line buffer of the shell.\<close>

record boot_env =
  dev :: device
  stubs :: "nat \<Rightarrow> u32"
  idt_addr :: u32
  irq0 :: "nat \<Rightarrow> bool"
  caller :: registers_t
  msg_addr :: u32
  path_addr :: u32
  rbuf_addr :: u32
  keys :: "u8 list"
  line_buffer :: "u8 list"

type_synonym 'a boot = "(terminal + 'a) option"

definition run_then :: "'a boot \<Rightarrow> ('a \<Rightarrow> 'b boot) \<Rightarrow> 'b boot" where
  "run_then r f = (case r of None \<Rightarrow> None | Some (Inl t) \<Rightarrow> Some (Inl t) | Some (Inr x) \<Rightarrow> f x)"

definition go :: "'a option \<Rightarrow> 'a boot" where
  "go r = map_option Inr r"

definition panic :: "string \<Rightarrow> kernel \<Rightarrow> 'b boot" where
  "panic msg s = map_option Inl (kernel_panic (Some (cstr msg)) (vga s))"

text \<open>A panic of the Rust code (\<^verbatim>\<open>panic.rs\<close>) reports on the serial port and ends in \<^verbatim>\<open>kernel_panic\<close>.\<close>

definition rust_panic :: "device \<Rightarrow> kernel \<Rightarrow> 'b boot" where
  "rust_panic d s =
     run_then (go (serial_writestring d COM1 (bytes ''[RUST PANIC] entering kernel_panic'' @ [10, 0]) (ports s))) (\<lambda>h.
       panic ''Rust panic'' (s\<lparr>ports := h\<rparr>))"

definition go_rust :: "device \<Rightarrow> kernel \<Rightarrow> rust_stop + 'a \<Rightarrow> 'a boot" where
  "go_rust d s r = (case r of Inl Overflow \<Rightarrow> rust_panic d s | Inl Stuck \<Rightarrow> None | Inr x \<Rightarrow> Some (Inr x))"

text \<open>\<^verbatim>\<open>if (!ok) kernel_panic(msg);\<close>\<close>

definition ensure :: "bool option \<Rightarrow> string \<Rightarrow> kernel \<Rightarrow> kernel boot" where
  "ensure ok msg s = (case ok of None \<Rightarrow> None | Some b \<Rightarrow> if b then Some (Inr s) else panic msg s)"

lemma run_then_simps [simp]: "run_then None f = None" "run_then (Some (Inl t)) f = Some (Inl t)" "run_then (Some (Inr x)) f = f x"
  "go None = None" "go (Some x) = Some (Inr x)" "go_rust d s (Inr x) = Some (Inr x)"
  "ensure (Some True) msg s = Some (Inr s)"
  by (simp_all add: run_then_def go_def go_rust_def ensure_def)

text \<open>Text on the screen only.\<close>

definition tprint :: "u8 list \<Rightarrow> kernel \<Rightarrow> kernel option" where
  "tprint str s = do { t \<leftarrow> terminal_writestring str (vga s); Some (s\<lparr>vga := t\<rparr>) }"

datatype screen_op = Color u8 | Text string

fun screen_ops :: "screen_op list \<Rightarrow> kernel \<Rightarrow> kernel option" where
  "screen_ops [] s = Some s"
| "screen_ops (Color fg # ops) s = screen_ops ops (set_color fg COLOR_BLACK s)"
| "screen_ops (Text str # ops) s = do { s1 \<leftarrow> tprint (cstr str) s; screen_ops ops s1 }"

section \<open>Memory detection\<close>

definition MULTIBOOT_BOOTLOADER_MAGIC :: u32 where [simp]: "MULTIBOOT_BOOTLOADER_MAGIC = 0x2BADB002"
definition MEM_FALLBACK_BYTES :: u32 where [simp]: "MEM_FALLBACK_BYTES = 32 * 1024 * 1024"

definition detect_memory :: "device \<Rightarrow> u32 \<Rightarrow> u32 \<Rightarrow> 'a sys_scheme \<Rightarrow> (u32 \<times> 'a sys_scheme) option" where
  "detect_memory d magic mb_info_addr s =
     (if magic \<noteq> MULTIBOOT_BOOTLOADER_MAGIC \<or> mb_info_addr = 0 then
        do { s \<leftarrow> klog d (bytes ''[mem] Sem multiboot valido '' @ [0xE2, 0x80, 0x94] @ bytes '' fallback de 32 MiB'' @ [10, 0]) s;
             Some (MEM_FALLBACK_BYTES, s) }
      else if load32 (memory s) mb_info_addr AND 1 = 0 then
        do { s \<leftarrow> klog d (bytes ''[mem] multiboot sem meminfo '' @ [0xE2, 0x80, 0x94] @ bytes '' fallback de 32 MiB'' @ [10, 0]) s;
             Some (MEM_FALLBACK_BYTES, s) }
      else
        let tot = 0x100000 + load32 (memory s) (mb_info_addr + 8) * 1024;
            tot = (if tot < MEM_FALLBACK_BYTES then MEM_FALLBACK_BYTES else tot)
        in do { s \<leftarrow> klog d (cstr ''[mem] Detectado via multiboot: '') s;
                s \<leftarrow> klog_uint d (tot div (1024 * 1024)) s;
                s \<leftarrow> klog d (bytes '' MiB'' @ [10, 0]) s;
                Some (tot, s) })"

section \<open>Self tests\<close>

definition byte :: "u32 \<Rightarrow> kernel \<Rightarrow> u8" where
  "byte a s = memory s a"

definition fill :: "u32 \<Rightarrow> int \<Rightarrow> u32 \<Rightarrow> kernel \<Rightarrow> kernel" where
  "fill a v n s = s\<lparr>memory := memset (memory s) a v n\<rparr>"

definition alloc :: "device \<Rightarrow> u32 \<Rightarrow> kernel \<Rightarrow> (u32 \<times> kernel) boot" where
  "alloc d n s = run_then (go_rust d s (kmalloc n (mm s))) (\<lambda>(p, m). Some (Inr (p, s\<lparr>mm := m\<rparr>)))"

definition free :: "device \<Rightarrow> u32 \<Rightarrow> kernel \<Rightarrow> kernel boot" where
  "free d p s = run_then (go_rust d s (kfree p (mm s))) (\<lambda>m. Some (Inr (s\<lparr>mm := m\<rparr>)))"

definition rust_heap_smoke :: "device \<Rightarrow> kernel \<Rightarrow> kernel boot" where
  "rust_heap_smoke d s =
     run_then (go (screen_ops [Color COLOR_LIGHT_CYAN, Text (''[smoke] Testando heap Rust...'' @ [CHR 0x0A])] s)) (\<lambda>s.
     run_then (alloc d 128 s) (\<lambda>(a, s).
     run_then (alloc d 256 s) (\<lambda>(b, s).
     run_then (ensure (Some (\<not> (a = 0 \<or> b = 0 \<or> a = b))) ''[smoke] kmalloc devolveu NULL ou ponteiros duplicados'' s) (\<lambda>s.
     let s = fill b 0x55 256 (fill a 0xAA 128 s) in
     run_then (ensure (Some (\<not> (byte a s \<noteq> 0xAA \<or> byte (a + 127) s \<noteq> 0xAA \<or> byte b s \<noteq> 0x55 \<or> byte (b + 255) s \<noteq> 0x55)))
       ''[smoke] memoria nao retem o que foi escrito'' s) (\<lambda>s.
     run_then (free d a s) (\<lambda>s.
     run_then (free d b s) (\<lambda>s.
     run_then (alloc d (128 + 256) s) (\<lambda>(c, s).
     run_then (ensure (Some (c \<noteq> 0)) ''[smoke] kmalloc apos coalesce falhou'' s) (\<lambda>s.
     let s = fill c 0xEE (128 + 256) s in
     run_then (ensure (Some (\<not> (byte c s \<noteq> 0xEE \<or> byte (c + 383) s \<noteq> 0xEE))) ''[smoke] bloco coalescido nao e gravavel'' s) (\<lambda>s.
     run_then (free d c s) (\<lambda>s.
     run_then (go_rust d s (kmalloc_aligned 100 (mm s))) (\<lambda>(pa, m).
     let s = s\<lparr>mm := m\<rparr> in
     run_then (ensure (Some (\<not> (pa = 0 \<or> pa mod PAGE_SIZE \<noteq> 0))) ''[smoke] kmalloc_aligned nao devolveu ponteiro alinhado'' s) (\<lambda>s.
     let s = fill pa 0xEE 100 s in
     run_then (ensure (Some (\<not> (byte pa s \<noteq> 0xEE \<or> byte (pa + 99) s \<noteq> 0xEE))) ''[smoke] memoria alinhada nao retem escrita'' s) (\<lambda>s.
     run_then (go_rust d s (kfree_aligned pa (mm s))) (\<lambda>m.
     go (screen_ops [Color COLOR_LIGHT_GREEN, Text (''[smoke] kmalloc/kfree/coalesce/aligned: OK (via munux_rs)'' @ [CHR 0x0A])]
           (s\<lparr>mm := m\<rparr>)))))))))))))))))"

text \<open>Each condition stops at the first comparison that fails, as \<^verbatim>\<open>||\<close> does.\<close>

definition libk_strcmp_ok :: "bool option" where
  "libk_strcmp_ok =
     do { a \<leftarrow> strcmp (cstr ''abc'') (cstr ''abc'');
          if a \<noteq> 0 then Some False else do { b \<leftarrow> strcmp (cstr ''abc'') (cstr ''abd''); Some (b \<noteq> 0) } }"

definition libk_strncmp_ok :: "bool option" where
  "libk_strncmp_ok = do { a \<leftarrow> strncmp (cstr ''echo x'') (cstr ''echo '') 5; Some (a = 0) }"

definition libk_utoa_ok :: "bool option" where
  "libk_utoa_ok =
     do { buf \<leftarrow> utoa 0 (replicate 12 0) 0 10;
          a \<leftarrow> strcmp buf (cstr ''0'');
          if a \<noteq> 0 then Some False
          else do { buf \<leftarrow> utoa 305419896 buf 0 16;
                    b \<leftarrow> strcmp buf (cstr ''12345678'');
                    if b \<noteq> 0 then Some False
                    else do { buf \<leftarrow> itoa (- 42) buf 0 10; c \<leftarrow> strcmp buf (cstr ''-42''); Some (c = 0) } } }"

definition libk_ctype_ok :: "bool option" where
  "libk_ctype_ok =
     do { a \<leftarrow> atoi (cstr ''  -123'');
          Some (\<not> (a \<noteq> - 123 \<or> \<not> isdigit 0x37 \<or> isdigit 0x78 \<or> toupper 0x61 \<noteq> 0x41 \<or> tolower 0x5A \<noteq> 0x7A)) }"

definition libk_format_ok :: "bool option" where
  "libk_format_ok =
     do { (sb, n) \<leftarrow> ksnprintf (replicate 64 0) 64 (cstr ''%d %u %x %s %c %%'')
            [VInt (- 5), VInt 7, VInt 255, VStr (Some (cstr ''ok'')), VInt 0x41];
          a \<leftarrow> strcmp sb (cstr ''-5 7 ff ok A %'');
          Some (a = 0) }"

definition libk_pad_ok :: "bool option" where
  "libk_pad_ok =
     do { (sb, n) \<leftarrow> ksnprintf (replicate 64 0) 64 (cstr ''[%08x]'') [VInt 0x1234];
          a \<leftarrow> strcmp sb (cstr ''[00001234]'');
          Some (a = 0) }"

definition libk_bounds_ok :: "bool option" where
  "libk_bounds_ok =
     do { (tiny, n) \<leftarrow> ksnprintf (replicate 4 0) 4 (cstr ''abcdef'') [];
          if n \<noteq> 6 then Some False else do { a \<leftarrow> strcmp tiny (cstr ''abc''); Some (a = 0) } }"

definition libk_selfcheck :: "device \<Rightarrow> kernel \<Rightarrow> kernel boot" where
  "libk_selfcheck d s =
     run_then (ensure libk_strcmp_ok ''[libk] strcmp incorreto'' s) (\<lambda>s.
     run_then (ensure libk_strncmp_ok ''[libk] strncmp incorreto'' s) (\<lambda>s.
     run_then (ensure libk_utoa_ok ''[libk] utoa/itoa incorreto'' s) (\<lambda>s.
     run_then (ensure libk_ctype_ok ''[libk] atoi/ctype incorreto'' s) (\<lambda>s.
     run_then (ensure libk_format_ok ''[libk] ksnprintf incorreto'' s) (\<lambda>s.
     run_then (ensure libk_pad_ok ''[libk] ksnprintf pad incorreto'' s) (\<lambda>s.
     run_then (ensure libk_bounds_ok ''[libk] ksnprintf bounds incorreto'' s) (\<lambda>s.
     go (klog d (bytes ''[libk] string/conv/ctype/printf: OK'' @ [10, 0]) s))))))))"

definition sys_msg :: "u8 list" where
  "sys_msg = bytes ''[sys] escrito via int 0x80'' @ [10]"

definition motd_path :: "u8 list" where
  "motd_path = bytes ''/etc/motd''"

text \<open>The string literals are at \<^const>\<open>msg_addr\<close> and \<^const>\<open>path_addr\<close>; the array \<^verbatim>\<open>rbuf\<close> has 32 bytes.\<close>

definition syscall_selfcheck :: "boot_env \<Rightarrow> kernel \<Rightarrow> kernel boot" where
  "syscall_selfcheck e s =
     (let sc = do_syscall (dev e) (caller e) in
      run_then (go (sc SYS_WRITE 1 (msg_addr e) (word_of_nat (length sys_msg)) s)) (\<lambda>(r, s).
      run_then (ensure (Some (r = word_of_nat (length sys_msg))) ''[sys] SYS_WRITE retornou tamanho errado'' s) (\<lambda>s.
      run_then (go (sc 9999 0 0 0 s)) (\<lambda>(r, s).
      run_then (ensure (Some (r = - 1)) ''[sys] syscall desconhecida deveria retornar -1'' s) (\<lambda>s.
      run_then (go (sc SYS_GET_TICKS 0 0 0 s)) (\<lambda>(r, s).
      run_then (go (sc SYS_OPEN (path_addr e) (word_of_nat (length motd_path)) 0 s)) (\<lambda>(fd, s).
      run_then (ensure (Some (\<not> sint fd < 3)) ''[sys] SYS_OPEN falhou'' s) (\<lambda>s.
      run_then (go (sc SYS_READ fd (rbuf_addr e) 32 s)) (\<lambda>(rn, s).
      run_then (ensure (Some (\<not> (sint rn \<le> 0 \<or> sint rn \<ge> 32))) ''[sys] SYS_READ falhou'' s) (\<lambda>s.
      let s = s\<lparr>memory := store8 (memory s) (rbuf_addr e + rn) 0\<rparr> in
      run_then (ensure (map_option (\<lambda>r. r = 0) (strcmp (mem_bytes (memory s) (rbuf_addr e) 32) (bytes ''Munux v0.4'' @ [10, 0])))
        ''[sys] SYS_READ devolveu conteudo errado'' s) (\<lambda>s.
      run_then (go (sc SYS_CLOSE fd 0 0 s)) (\<lambda>(r, s).
      run_then (ensure (Some (r = 0)) ''[sys] SYS_CLOSE falhou'' s) (\<lambda>s.
      go (klog (dev e) (bytes ''[sys] syscalls (int 0x80): OK'' @ [10, 0]) s))))))))))))))"

text \<open>The waiting loop with the passes left; \<open>irq i\<close> says whether the timer interrupts pass \<open>i\<close>.\<close>

fun boot_spin :: "nat \<Rightarrow> (nat \<Rightarrow> bool) \<Rightarrow> nat \<Rightarrow> u32 \<Rightarrow> u32 \<Rightarrow> u32" where
  "boot_spin 0 irq i t0 t = t"
| "boot_spin (Suc n) irq i t0 t =
     (if t = t0 then boot_spin n irq (Suc i) t0 (if irq i then timer_callback t else t) else t)"

definition boot_selfcheck :: "boot_env \<Rightarrow> kernel \<Rightarrow> kernel boot" where
  "boot_selfcheck e s =
     run_then (go (klog (dev e) (bytes ''[chk] Aguardando IRQ0 (timer) apos sti...'' @ [10, 0]) s)) (\<lambda>s.
     let t0 = timer_get_ticks (timer_ticks s);
         s = s\<lparr>timer_ticks := boot_spin 500000000 (irq0 e) 0 t0 (timer_ticks s)\<rparr>;
         t1 = timer_get_ticks (timer_ticks s)
     in if t1 > t0 then
          run_then (go (klog (dev e) (cstr ''[chk] IRQ0 OK: timer avancou para '') s)) (\<lambda>s.
          run_then (go (klog_uint (dev e) t1 s)) (\<lambda>s.
          go (klog (dev e) (bytes '' tick(s) via interrupcao.'' @ [10, 0]) s)))
        else panic ''[chk] timer nao avancou: IRQ/PIC/sti falhou'' s)"

section \<open>Start-up\<close>

definition nl :: string where
  "nl = [CHR 0x0A]"

definition welcome_ops :: "screen_op list" where
  "welcome_ops = [Color COLOR_LIGHT_GREEN,
     Text (''========================================'' @ nl),
     Text (''        Bem-vindo ao Munux OS!         '' @ nl),
     Text (''========================================'' @ nl @ nl),
     Color COLOR_LIGHT_CYAN,
     Text (''Inicializando subsistemas...'' @ nl @ nl),
     Text (''[OK] Inicializando IDT...'' @ nl)]"

definition system_info :: "screen_op list" where
  "system_info = [Text nl, Color COLOR_LIGHT_BROWN,
     Text (''Sistema Operacional: Munux v0.3'' @ nl),
     Text (''Arquitetura: i386 (32-bit)'' @ nl),
     Text (''Linguagens: C + Assembly + Rust (no_std)'' @ nl @ nl),
     Color COLOR_WHITE,
     Text (''Funcionalidades implementadas:'' @ nl),
     Text (''  [x] Gerenciamento de interrupcoes (IDT)'' @ nl),
     Text (''  [x] Gerenciamento de memoria fisica (PMM)'' @ nl),
     Text (''  [x] Gerenciamento de memoria virtual (VMM)'' @ nl),
     Text (''  [x] Heap allocator (Rust, first-fit + coalesce)'' @ nl),
     Text (''  [x] Timer (PIT)'' @ nl),
     Text (''  [x] Driver de teclado completo'' @ nl),
     Text (''  [x] Driver de mouse PS/2'' @ nl),
     Text (''  [x] Driver de disco ATA/IDE'' @ nl),
     Text (''  [x] Driver de porta serial'' @ nl),
     Text (''  [x] Gerenciamento de processos (PCB)'' @ nl),
     Text (''  [x] Scheduler round-robin preemptivo'' @ nl),
     Text (''  [x] Context switching'' @ nl),
     Text (''  [x] Static library Rust integrada (FFI estavel)'' @ nl @ nl),
     Color COLOR_LIGHT_GREY,
     Text (''Kernel inicializado com sucesso!'' @ nl),
     Text (''Desenvolvido por Munique Feitoza'' @ nl),
     Text (''Sistema pronto para operacao.'' @ nl @ nl),
     Color COLOR_LIGHT_CYAN,
     Text (''Todos os subsistemas carregados!'' @ nl),
     Text (''Munux OS esta operacional.'' @ nl @ nl)]"

text \<open>Memory: \<^verbatim>\<open>pmm_init(mem_bytes); vmm_init(); heap_init();\<close> with their messages.\<close>

definition memory_init :: "device \<Rightarrow> u32 \<Rightarrow> kernel \<Rightarrow> kernel boot" where
  "memory_init d mem_size s =
     run_then (go (tprint (cstr (''[OK] Inicializando PMM...'' @ nl)) s)) (\<lambda>s.
     let s = s\<lparr>mm := pmm_init mem_size (mm s)\<rparr> in
     run_then (go (tprint (cstr (''[OK] Inicializando VMM + paginacao...'' @ nl)) s)) (\<lambda>s.
     let s = s\<lparr>mm := vmm_init (mm s)\<rparr> in
     run_then (go (tprint (cstr (''[OK] Inicializando heap (backend: Rust)...'' @ nl)) s)) (\<lambda>s.
     run_then (go_rust d s (heap_init (mm s))) (\<lambda>m. Some (Inr (s\<lparr>mm := m\<rparr>))))))"

text \<open>Drivers and \<^verbatim>\<open>sti\<close>.\<close>

definition drivers_init :: "boot_env \<Rightarrow> kernel \<Rightarrow> kernel boot" where
  "drivers_init e s =
     run_then (go (timer_init 100 (timer_ticks s, irq_handlers s, ports s))) (\<lambda>(ticks, hs, h).
     let s = s\<lparr>timer_ticks := ticks, irq_handlers := hs, ports := h\<rparr> in
     run_then (go (klog (dev e) (bytes ''[OK] Timer PIT @ 100 Hz (IRQ0)'' @ [10, 0]) s)) (\<lambda>s.
     let (k, hs) = keyboard_init (keyboard s, irq_handlers s); s = s\<lparr>keyboard := k, irq_handlers := hs\<rparr> in
     run_then (go (klog (dev e) (bytes ''[OK] Teclado PS/2 (IRQ1)'' @ [10, 0]) s)) (\<lambda>s.
     let s = s\<lparr>mm := (mm s)\<lparr>eflags := eflags (mm s) OR 0x200\<rparr>\<rparr> in
     go (klog (dev e) (bytes ''[OK] Interrupcoes habilitadas (sti)'' @ [10, 0]) s))))"

definition vfs_init :: "boot_env \<Rightarrow> kernel \<Rightarrow> kernel boot" where
  "vfs_init e s =
     (let (r, fs) = munux_rs_vfs_selftest (files s); s = s\<lparr>files := fs\<rparr> in
      run_then (ensure (Some (r = 0)) ''[vfs] tmpfs selftest falhou'' s) (\<lambda>s.
      run_then (go (klog (dev e) (bytes ''[vfs] tmpfs (criar/escrever/ler/listar): OK'' @ [10, 0]) s)) (\<lambda>s.
      Some (Inr (s\<lparr>files := munux_rs_vfs_init (files s)\<rparr>)))))"

definition disk_tests :: "boot_env \<Rightarrow> kernel \<Rightarrow> kernel boot" where
  "disk_tests e s =
     (let (r, h) = disk_present (dev e) (disk_init (ports s)); s = s\<lparr>ports := h\<rparr> in
      if r \<noteq> 0 then
        run_then (go (munux_rs_bcache_selftest (dev e) (sector_cache s, ports s))) (\<lambda>(r, c, h).
        run_then (ensure (Some (r = 0)) ''[bcache] cache de disco falhou'' (s\<lparr>sector_cache := c, ports := h\<rparr>)) (\<lambda>s.
        run_then (go (klog (dev e) (bytes ''[bcache] cache de setores (hit/miss): OK'' @ [10, 0]) s)) (\<lambda>s.
        run_then (go (munux_rs_ext2_selftest (dev e) (sector_cache s, ports s))) (\<lambda>(r, c, h).
        run_then (ensure (Some (r = 0)) ''[ext2] leitura da imagem falhou'' (s\<lparr>sector_cache := c, ports := h\<rparr>)) (\<lambda>s.
        go (klog (dev e) (bytes ''[ext2] montar + ler /hello.txt: OK'' @ [10, 0]) s))))))
      else go (klog (dev e) (bytes ''[ext2] sem disco anexado '' @ [0xE2, 0x80, 0x94] @ bytes '' pulado'' @ [10, 0]) s))"

text \<open>\<open>n\<close> is the number of command lines after which the endless shell is cut.\<close>

definition kernel_main :: "boot_env \<Rightarrow> nat \<Rightarrow> u32 \<Rightarrow> u32 \<Rightarrow> kernel \<Rightarrow> kernel boot" where
  "kernel_main e n magic mb_info_addr s0 =
     (let s = s0\<lparr>vga := terminal_clear (vga s0)\<rparr>;
          s = s\<lparr>ports := snd (serial_init (dev e) COM1 (ports s))\<rparr> in
      run_then (go (screen_ops welcome_ops s)) (\<lambda>s.
      let (tab, h) = idt_init (stubs e) (idt_addr e) (idt_table s, ports s); s = s\<lparr>idt_table := tab, ports := h\<rparr> in
      run_then (go (detect_memory (dev e) magic mb_info_addr s)) (\<lambda>(mem_size, s).
      run_then (memory_init (dev e) mem_size s) (\<lambda>s.
      run_then (rust_heap_smoke (dev e) s) (\<lambda>s.
      run_then (go (screen_ops system_info s)) (\<lambda>s.
      run_then (drivers_init e s) (\<lambda>s.
      run_then (boot_selfcheck e s) (\<lambda>s.
      run_then (libk_selfcheck (dev e) s) (\<lambda>s.
      run_then (vfs_init e s) (\<lambda>s.
      run_then (syscall_selfcheck e s) (\<lambda>s.
      run_then (disk_tests e s) (\<lambda>s.
      run_then (go (shell_run n (dev e) (keys e, line_buffer e, s))) (\<lambda>(codes, line, s).
      Some (Inr s))))))))))))))"

section \<open>The heap of the start-up\<close>

text \<open>Some blocks of the heap as (address, size, free flag, next), and the heap as \<^verbatim>\<open>heap_init\<close> leaves it: one free
  block.\<close>

definition heap_shows :: "(u32 \<times> u32 \<times> u32 \<times> u32) list \<Rightarrow> 'a rheap_scheme \<Rightarrow> bool" where
  "heap_shows bs m \<longleftrightarrow> HEAP m = Some \<lparr>head = 0xC0000000, hend = 0xC0100000, hmax = 0xD0000000\<rparr> \<and> \<not> heap_locked m \<and>
     list_all (\<lambda>(a, sz, f, nx). blocks m a = \<lparr>bsize = sz, is_free = f, bnext = nx\<rparr>) bs"

abbreviation fresh_heap :: "'a rheap_scheme \<Rightarrow> bool" where
  "fresh_heap m \<equiv> heap_shows [(0xC0000000, 0xFFFF4, 1, 0)] m"

lemma heap_init_fresh:
  assumes "heap_init s = Inr m"
  shows "fresh_heap m"
  using assms
  by (auto simp: heap_init_def Let_def munux_rs_heap_init_def Heap_new_def sub_or_panic_def add_or_panic_def checked_add_def
      heap_lock_def munux_c_irq_save_def heap_shows_def heap_unlock_def munux_c_irq_restore_def and_then_def
      split: sum.splits prod.splits if_splits)

lemma heap_shows_evalD:
  assumes "heap_shows bs m"
  shows "HEAP m = Some \<lparr>head = 0xC0000000, hend = 0xC0100000, hmax = 0xD0000000\<rparr>" "\<not> heap_locked m"
    "\<And>a sz f nx. (a, sz, f, nx) \<in> set bs \<Longrightarrow> blocks m a = \<lparr>bsize = sz, is_free = f, bnext = nx\<rparr>"
  using assms by (auto simp: heap_shows_def list_all_iff)

lemmas alloc_defs = munux_rs_alloc_def allocate_def align_up_def add_or_panic_def sub_or_panic_def checked_add_def
  split_if_worthwhile_def payload_of_def is_power_of_two_def or_stuck_def

text \<open>Entry and exit of the allocator around a request that a free block satisfies, and around a release.\<close>

lemma kmalloc_fit:
  assumes "HEAP m = Some h" and "\<not> heap_locked m" and "n \<noteq> 0" and "align_up n DEFAULT_ALIGN = Inr needed"
    and "find_fit (blocks m) needed (head h) = Some (True, cur)" and "split_if_worthwhile cur needed (blocks m) = Inr bs"
  shows "kmalloc n m = Inr (payload_of cur,
    heap_unlock (eflags m) (m\<lparr>eflags := eflags m AND NOT 0x200, heap_locked := True,
      blocks := bs(cur := (bs cur)\<lparr>is_free := 0\<rparr>), HEAP := Some h\<rparr>))"
  using assms by (simp add: kmalloc_def munux_rs_alloc_def heap_lock_ok allocate_def)

lemma kfree_blocks:
  fixes m :: "'a rheap_scheme"
  assumes "heap_shows bs m" and "ptr \<noteq> 0"
    and "\<And>m' :: 'a rheap_scheme. blocks m' = blocks m \<Longrightarrow>
      deallocate \<lparr>head = 0xC0000000, hend = 0xC0100000, hmax = 0xD0000000\<rparr> ptr m' = Inr (m'\<lparr>blocks := f\<rparr>)"
  obtains m' where "kfree ptr m = Inr m'" and "HEAP m' = HEAP m" and "\<not> heap_locked m'" and "words m' = words m"
    and "eflags m' = eflags m" and "blocks m' = f"
proof -
  note h = heap_shows_evalD(1,2) [OF assms(1)]
  let ?m = "m\<lparr>eflags := eflags m AND NOT 0x200, heap_locked := True\<rparr>"
  have "kfree ptr m = Inr (heap_unlock (eflags m) (?m\<lparr>blocks := f\<rparr>))"
    using h assms(2) assms(3) [of ?m] by (simp add: kfree_def munux_rs_free_def heap_lock_ok)
  then show thesis by (rule that) (use h in simp_all)
qed

lemma kmalloc_split:
  assumes "heap_shows bs m" and "n \<noteq> 0" and "align_up n DEFAULT_ALIGN = Inr n"
    and "find_fit (blocks m) n 0xC0000000 = Some (True, cur)" and "blocks m cur = \<lparr>bsize = sz, is_free = 1, bnext = nx\<rparr>"
    and "unat n + 28 < unat sz" and "12 + n \<noteq> 0"
  obtains m' where "kmalloc n m = Inr (cur + 12, m')" and "HEAP m' = HEAP m" and "\<not> heap_locked m'" and "words m' = words m"
    and "eflags m' = eflags m"
    and "blocks m' = (blocks m)(cur + 12 + n := \<lparr>bsize = sz - n - 12, is_free = 1, bnext = nx\<rparr>,
      cur := \<lparr>bsize = n, is_free = 0, bnext = cur + 12 + n\<rparr>)"
proof -
  note h = heap_shows_evalD [OF assms(1)]
  have u: "unat (n + 28) = unat n + 28" using assms(6) unat_u32_less [of sz] by (simp add: unat_add_small)
  have c: "\<not> sz \<le> n + 28" "n \<le> sz" using assms(6) u by (simp_all add: word_le_nat_alt)
  have d: "unat (sz - n) = unat sz - unat n" using c(2) by (simp add: unat_sub)
  then have e: "12 \<le> sz - n" using assms(6) by (simp add: word_le_nat_alt)
  have ne: "cur + 12 + n \<noteq> cur" using assms(7) by (metis add.assoc add_cancel_right_right)
  let ?bs = "(blocks m)(cur + 12 + n := \<lparr>bsize = sz - n - 12, is_free = 1, bnext = nx\<rparr>,
    cur := \<lparr>bsize = n, is_free = 1, bnext = cur + 12 + n\<rparr>)"
  have s: "split_if_worthwhile cur n (blocks m) = Inr ?bs"
    using c e ne assms(5,6) unat_u32_less [of sz] by (simp add: alloc_defs Let_def)
  have f: "find_fit (blocks m) n (head \<lparr>head = 0xC0000000, hend = 0xC0100000, hmax = 0xD0000000\<rparr>) = Some (True, cur)"
    using assms(4) by simp
  show thesis
    by (rule that, rule kmalloc_fit [OF h(1,2) assms(2,3) f s, unfolded payload_of_def HEADER_SIZE_def]) (use h in simp_all)
qed

lemma smoke_alloc_a:
  assumes "fresh_heap m"
  obtains m' where "kmalloc 128 m = Inr (0xC000000C, m')"
    and "heap_shows [(0xC0000000, 128, 0, 0xC000008C), (0xC000008C, 0xFFF68, 1, 0)] m'" and "eflags m' = eflags m"
proof -
  note h = heap_shows_evalD [OF assms]
  have b: "blocks m 0xC0000000 = \<lparr>bsize = 0xFFFF4, is_free = 1, bnext = 0\<rparr>" using h(3) by simp
  have f: "find_fit (blocks m) 128 0xC0000000 = Some (True, 0xC0000000)" by (subst find_fit.simps) (simp add: b)
  show thesis
    by (rule kmalloc_split [OF assms _ _ f b]) (use h that in \<open>simp_all add: alloc_defs heap_shows_def\<close>)
qed

lemma smoke_alloc_b:
  assumes "heap_shows [(0xC0000000, 128, 0, 0xC000008C), (0xC000008C, 0xFFF68, 1, 0)] m"
  obtains m' where "kmalloc 256 m = Inr (0xC0000098, m')"
    and "heap_shows [(0xC0000000, 128, 0, 0xC000008C), (0xC000008C, 256, 0, 0xC0000198), (0xC0000198, 0xFFE5C, 1, 0)] m'"
    and "eflags m' = eflags m"
proof -
  note h = heap_shows_evalD [OF assms]
  have b: "blocks m 0xC0000000 = \<lparr>bsize = 128, is_free = 0, bnext = 0xC000008C\<rparr>"
    "blocks m 0xC000008C = \<lparr>bsize = 0xFFF68, is_free = 1, bnext = 0\<rparr>" using h(3) by simp_all
  have f: "find_fit (blocks m) 256 0xC0000000 = Some (True, 0xC000008C)"
    by (subst find_fit.simps, subst find_fit.simps) (simp add: b)
  show thesis
    by (rule kmalloc_split [OF assms _ _ f b(2)]) (use h b that in \<open>simp_all add: alloc_defs heap_shows_def\<close>)
qed

lemma smoke_alloc_c:
  assumes "fresh_heap m"
  obtains m' where "kmalloc 384 m = Inr (0xC000000C, m')"
    and "heap_shows [(0xC0000000, 384, 0, 0xC000018C), (0xC000018C, 0xFFE68, 1, 0)] m'" and "eflags m' = eflags m"
proof -
  note h = heap_shows_evalD [OF assms]
  have b: "blocks m 0xC0000000 = \<lparr>bsize = 0xFFFF4, is_free = 1, bnext = 0\<rparr>" using h(3) by simp
  have f: "find_fit (blocks m) 384 0xC0000000 = Some (True, 0xC0000000)" by (subst find_fit.simps) (simp add: b)
  show thesis
    by (rule kmalloc_split [OF assms _ _ f b]) (use h that in \<open>simp_all add: alloc_defs heap_shows_def\<close>)
qed

lemmas free_defs = deallocate_def find_predecessor_def merge_with_next_if_free_def Let_def add_or_panic_def checked_add_def or_stuck_def

text \<open>Releasing the first block: with the next block in use, and with the rest of the heap free.\<close>

lemma smoke_free_a:
  assumes "heap_shows [(0xC0000000, 128, 0, 0xC000008C), (0xC000008C, 256, 0, 0xC0000198), (0xC0000198, 0xFFE5C, 1, 0)] m"
  obtains m' where "kfree 0xC000000C m = Inr m'"
    and "heap_shows [(0xC0000000, 128, 1, 0xC000008C), (0xC000008C, 256, 0, 0xC0000198), (0xC0000198, 0xFFE5C, 1, 0)] m'"
    and "eflags m' = eflags m"
proof -
  have b: "blocks m 0xC0000000 = \<lparr>bsize = 128, is_free = 0, bnext = 0xC000008C\<rparr>" "blocks m 0xC000008C = \<lparr>bsize = 256, is_free = 0, bnext = 0xC0000198\<rparr>"
    "blocks m 0xC0000198 = \<lparr>bsize = 0xFFE5C, is_free = 1, bnext = 0\<rparr>" using assms by (simp_all add: heap_shows_def)
  have "deallocate \<lparr>head = 0xC0000000, hend = 0xC0100000, hmax = 0xD0000000\<rparr> 0xC000000C m' =
      Inr (m'\<lparr>blocks := (blocks m)(0xC0000000 := \<lparr>bsize = 128, is_free = 1, bnext = 0xC000008C\<rparr>)\<rparr>)" if "blocks m' = blocks m" for m' :: "'a rheap_scheme"
    by (simp add: free_defs that b)
  from kfree_blocks [OF assms _ this] obtain m' where k: "kfree 0xC000000C m = Inr m'" "HEAP m' = HEAP m" "\<not> heap_locked m'" "eflags m' = eflags m"
    "blocks m' = (blocks m)(0xC0000000 := \<lparr>bsize = 128, is_free = 1, bnext = 0xC000008C\<rparr>)" by auto
  have "heap_shows [(0xC0000000, 128, 1, 0xC000008C), (0xC000008C, 256, 0, 0xC0000198), (0xC0000198, 0xFFE5C, 1, 0)] m'"
    using k(2,3) heap_shows_evalD(1) [OF assms] by (simp add: heap_shows_def k(5) b)
  with k show thesis by (intro that)
qed

lemma smoke_free_b:
  assumes "heap_shows [(0xC0000000, 128, 1, 0xC000008C), (0xC000008C, 256, 0, 0xC0000198), (0xC0000198, 0xFFE5C, 1, 0)] m"
  obtains m' where "kfree 0xC0000098 m = Inr m'" and "fresh_heap m'" and "eflags m' = eflags m"
proof -
  have b: "blocks m 0xC0000000 = \<lparr>bsize = 128, is_free = 1, bnext = 0xC000008C\<rparr>" "blocks m 0xC000008C = \<lparr>bsize = 256, is_free = 0, bnext = 0xC0000198\<rparr>"
    "blocks m 0xC0000198 = \<lparr>bsize = 0xFFE5C, is_free = 1, bnext = 0\<rparr>" using assms by (simp_all add: heap_shows_def)
  have p: "find_predecessor_loop (blocks m) 0xC000008C 0xC0000000 = Some 0xC0000000"
    by (subst find_predecessor_loop.simps) (simp add: b)
  let ?f = "(blocks m)(0xC000008C := \<lparr>bsize = 0xFFF68, is_free = 1, bnext = 0\<rparr>, 0xC0000000 := \<lparr>bsize = 0xFFFF4, is_free = 1, bnext = 0\<rparr>)"
  have "deallocate \<lparr>head = 0xC0000000, hend = 0xC0100000, hmax = 0xD0000000\<rparr> 0xC0000098 m' = Inr (m'\<lparr>blocks := ?f\<rparr>)"
    if "blocks m' = blocks m" for m' :: "'a rheap_scheme"
    by (simp add: free_defs that b p)
  from kfree_blocks [OF assms _ this] obtain m' where k: "kfree 0xC0000098 m = Inr m'" "HEAP m' = HEAP m" "\<not> heap_locked m'" "eflags m' = eflags m"
    "blocks m' = ?f" by auto
  have "fresh_heap m'" using k(2,3) heap_shows_evalD(1) [OF assms] by (simp add: heap_shows_def k(5))
  with k show thesis by (intro that)
qed

lemma free_first_block:
  assumes "heap_shows [(0xC0000000, n, 0, k), (k, sz, 1, 0)] m" and "k \<noteq> 0" and "k \<noteq> 0xC0000000" and "n + (12 + sz) = 0xFFFF4"
    and "12 + unat sz < 2 ^ 32" and "unat n + unat (12 + sz) < 2 ^ 32"
  obtains m' where "kfree 0xC000000C m = Inr m'" and "fresh_heap m'" and "eflags m' = eflags m" and "words m' = words m"
proof -
  have b: "blocks m 0xC0000000 = \<lparr>bsize = n, is_free = 0, bnext = k\<rparr>" "blocks m k = \<lparr>bsize = sz, is_free = 1, bnext = 0\<rparr>"
    using assms(1) by (simp_all add: heap_shows_def)
  let ?f = "(blocks m)(0xC0000000 := \<lparr>bsize = 0xFFFF4, is_free = 1, bnext = 0\<rparr>)"
  have "deallocate \<lparr>head = 0xC0000000, hend = 0xC0100000, hmax = 0xD0000000\<rparr> 0xC000000C m' = Inr (m'\<lparr>blocks := ?f\<rparr>)"
    if "blocks m' = blocks m" for m' :: "'a rheap_scheme"
    using assms(2,3,5,6) unfolding assms(4) [symmetric] by (simp add: free_defs that b)
  from kfree_blocks [OF assms(1) _ this] obtain m' where k: "kfree 0xC000000C m = Inr m'" "HEAP m' = HEAP m" "\<not> heap_locked m'" "eflags m' = eflags m"
    "blocks m' = ?f" "words m' = words m" by auto
  have "fresh_heap m'" using k(2,3) heap_shows_evalD(1) [OF assms(1)] by (simp add: heap_shows_def k(5))
  with k show thesis by (intro that)
qed

lemma smoke_aligned:
  assumes "fresh_heap m"
  obtains m' where "kmalloc_aligned 100 m = Inr (0xC0001000, m')"
    and "heap_shows [(0xC0000000, 4200, 0, 0xC0001074), (0xC0001074, 0xFEF80, 1, 0)] m'" and "words m' 0xC0000FFC = 0xC000000C"
    and "eflags m' = eflags m"
proof -
  note h = heap_shows_evalD(1,2) [OF assms]
  have b: "blocks m 0xC0000000 = \<lparr>bsize = 0xFFFF4, is_free = 1, bnext = 0\<rparr>" using assms by (simp add: heap_shows_def)
  have f: "find_fit (blocks m) 4200 0xC0000000 = Some (True, 0xC0000000)" by (subst find_fit.simps) (simp add: b)
  let ?f = "(blocks m)(0xC0001074 := \<lparr>bsize = 0xFEF80, is_free = 1, bnext = 0\<rparr>, 0xC0000000 := \<lparr>bsize = 4200, is_free = 0, bnext = 0xC0001074\<rparr>)"
  let ?m = "m\<lparr>eflags := eflags m AND NOT 0x200, heap_locked := True\<rparr>" and ?h = "\<lparr>head = 0xC0000000, hend = 0xC0100000, hmax = 0xD0000000\<rparr>"
  have a: "allocate ?h 4200 ?m = Inr (0xC000000C, ?h, ?m\<lparr>blocks := ?f\<rparr>)"
    by (simp add: alloc_defs f b Let_def)
  have al: "allocate_aligned ?h 100 4096 ?m = Inr (0xC0001000, ?h, ?m\<lparr>blocks := ?f, words := (words m)(0xC0000FFC := 0xC000000C)\<rparr>)"
    using a by (simp add: allocate_aligned_def is_power_of_two_def checked_add_def add_or_panic_def sub_or_panic_def align_up_def Let_def max_def)
  then have "kmalloc_aligned 100 m = Inr (0xC0001000, heap_unlock (eflags m)
      (?m\<lparr>blocks := ?f, words := (words m)(0xC0000FFC := 0xC000000C), HEAP := Some ?h\<rparr>))"
    using h by (simp add: kmalloc_aligned_def munux_rs_alloc_aligned_def heap_lock_ok)
  then show thesis by (rule that) (use h in \<open>simp_all add: heap_shows_def\<close>)
qed

lemma smoke_free_aligned:
  assumes "heap_shows [(0xC0000000, 4200, 0, 0xC0001074), (0xC0001074, 0xFEF80, 1, 0)] m" and "words m 0xC0000FFC = 0xC000000C"
  obtains m' where "kfree_aligned 0xC0001000 m = Inr m'" and "fresh_heap m'" and "eflags m' = eflags m"
proof -
  note h = heap_shows_evalD(1,2) [OF assms(1)]
  obtain m' where k: "kfree 0xC000000C m = Inr m'" "fresh_heap m'" "eflags m' = eflags m"
    by (rule free_first_block [OF assms(1)]) simp_all
  have "kfree_aligned 0xC0001000 m = kfree 0xC000000C m"
    using h assms(2) by (simp add: kfree_aligned_def munux_rs_free_aligned_def kfree_def munux_rs_free_def heap_lock_ok deallocate_aligned_def sub_or_panic_def)
  with k(1) have "kfree_aligned 0xC0001000 m = Inr m'" by simp
  then show thesis using k(2,3) by (rule that)
qed

lemma memset_slice:
  assumes "unat a + unat n \<le> 2 ^ 32"
  shows "memset m a v n x = (if in_slice a (unat n) x then word_of_int v else m x)"
proof -
  have "(\<exists>i < unat n. x = a + word_of_nat i) \<longleftrightarrow> in_slice a (unat n) x"
  proof
    assume "\<exists>i < unat n. x = a + word_of_nat i"
    then show "in_slice a (unat n) x" using slice_addr [OF assms] by (auto simp: in_slice_def)
  next
    assume "in_slice a (unat n) x"
    then have "unat x - unat a < unat n" "x = a + word_of_nat (unat x - unat a)" by (auto simp: in_slice_def of_nat_diff)
    then show "\<exists>i < unat n. x = a + word_of_nat i" by blast
  qed
  then show ?thesis by (simp add: memset_apply)
qed

end
