(* ===== verification/Ext2Image.thy ===== *)
theory Ext2Image
  imports Ext2
begin

text \<open>
  What the ext2 reader (\<^verbatim>\<open>rust/munux-rs/src/ext2.rs\<close>) promises, stated on the disk image alone: the
  parameters, inodes, directory entries and files that the bytes of the image describe, without the
  disk driver and the sector cache. A small calculus of reads through the cache carries the refinement
  proof: over a disk that holds the image, mounting, reading an inode, the root directory and a file
  give the values of the image, and the self test at boot decides whether the image holds the files it
  expects.
\<close>

section \<open>Reads through the cache\<close>

text \<open>The computation \<open>f\<close> returns \<open>v\<close> with at most \<open>n\<close> accesses to the cache, from every state in
  which the cache agrees with the image and can count them.\<close>

definition yields :: "(u32 \<Rightarrow> u8 list) \<Rightarrow> nat \<Rightarrow> (bstate \<Rightarrow> ('a \<times> bstate) option) \<Rightarrow> 'a \<Rightarrow> bool" where
  "yields img n f v \<longleftrightarrow> (\<forall>c h. cache_ok img (cache_of c) \<and> accesses c + n < 2 ^ 32 \<longrightarrow>
     (\<exists>c' k. f (c, h) = Some (v, c', h @ k) \<and> cache_ok img (cache_of c') \<and> accesses c' \<le> accesses c + n))"

lemma yieldsI:
  assumes "\<And>c h. cache_ok img (cache_of c) \<Longrightarrow> accesses c + n < 2 ^ 32 \<Longrightarrow>
    \<exists>c' k. f (c, h) = Some (v, c', h @ k) \<and> cache_ok img (cache_of c') \<and> accesses c' \<le> accesses c + n"
  shows "yields img n f v"
  using assms by (simp add: yields_def)

lemma yieldsE:
  assumes "yields img n f v" and "cache_ok img (cache_of c)" and "accesses c + n < 2 ^ 32"
  obtains c' k where "f (c, h) = Some (v, c', h @ k)" and "cache_ok img (cache_of c')" and "accesses c' \<le> accesses c + n"
  using assms unfolding yields_def by blast

lemma yields_return: "yields img n (\<lambda>s. Some (v, s)) v"
  by (rule yieldsI) auto

lemma yields_bind:
  assumes f: "yields img n f v" and g: "yields img m (g v) w"
  shows "yields img (n + m) (\<lambda>s. Option.bind (f s) (\<lambda>(x, s). g x s)) w"
proof (rule yieldsI)
  fix c h
  assume c: "cache_ok img (cache_of c)" and a: "accesses c + (n + m) < 2 ^ 32"
  from a have "accesses c + n < 2 ^ 32" by simp
  from f c this obtain c1 k1 where 1: "f (c, h) = Some (v, c1, h @ k1)" "cache_ok img (cache_of c1)" "accesses c1 \<le> accesses c + n"
    by (rule yieldsE)
  from a 1(3) have "accesses c1 + m < 2 ^ 32" by simp
  from g 1(2) this obtain c2 k2 where "g v (c1, h @ k1) = Some (w, c2, (h @ k1) @ k2)" "cache_ok img (cache_of c2)"
      "accesses c2 \<le> accesses c1 + m" by (rule yieldsE)
  with 1 show "\<exists>c' k. Option.bind (f (c, h)) (\<lambda>(x, s). g x s) = Some (w, c', h @ k) \<and> cache_ok img (cache_of c') \<and>
      accesses c' \<le> accesses c + (n + m)" by auto
qed

lemma yields_mono:
  assumes "yields img n f v" and "n \<le> m"
  shows "yields img m f v"
proof (rule yieldsI)
  fix c h
  assume c: "cache_ok img (cache_of c)" and "accesses c + m < 2 ^ 32"
  then have "accesses c + n < 2 ^ 32" using assms(2) by simp
  from assms(1) c this obtain c' k where "f (c, h) = Some (v, c', h @ k)" "cache_ok img (cache_of c')" "accesses c' \<le> accesses c + n"
    by (rule yieldsE)
  then show "\<exists>c' k. f (c, h) = Some (v, c', h @ k) \<and> cache_ok img (cache_of c') \<and> accesses c' \<le> accesses c + m"
    using assms(2) by force
qed

lemma yields_map:
  assumes "yields img n f v"
  shows "yields img n (\<lambda>s. map_option (\<lambda>(x, s). (g x, s)) (f s)) (g v)"
  using assms by (fastforce simp: yields_def)

text \<open>A disk that holds the image, and the reads of the level below the file system.\<close>

definition holds_image :: "device \<Rightarrow> (u32 \<Rightarrow> u8 list) \<Rightarrow> bool" where
  "holds_image d img \<longleftrightarrow> reads_as d img \<and> sectors_ok img"

lemma yields_range:
  assumes "holds_image d img" and "unat off + len < 2 ^ 32"
  shows "yields img (len div 512 + 2) (read_range d off len) (disk_slice img (unat off) len)"
proof (rule yields_mono [OF _ span_bound])
  have "reads_as d img" "sectors_ok img" using assms(1) by (simp_all add: holds_image_def)
  then show "yields img (span (unat off) len) (read_range d off len) (disk_slice img (unat off) len)"
    by (intro yieldsI) (rule read_range_spec [OF _ _ _ assms(2)], auto)
qed

lemma yields_block:
  assumes "holds_image d img" and "block_fits fs b" and "len \<le> unat (block_size fs)"
  shows "yields img (reads_per_block fs) (read_block d fs b len) (disk_slice img (unat b * unat (block_size fs)) len)"
proof -
  have "reads_as d img" "sectors_ok img" using assms(1) by (simp_all add: holds_image_def)
  then show ?thesis by (intro yieldsI) (rule read_block_spec [OF _ _ _ assms(2,3)], auto)
qed

section \<open>The file system that an image describes\<close>

definition le16 :: "(u32 \<Rightarrow> u8 list) \<Rightarrow> nat \<Rightarrow> u16" where
  "le16 img off = ucast (byte_at img off) OR push_bit 8 (ucast (byte_at img (off + 1)))"

lemma rd_u16_slice: "i + 2 \<le> n \<Longrightarrow> rd_u16 (disk_slice img a n) i = Some (le16 img (a + i))"
  by (simp add: rd_u16_def disk_slice_def le16_def add.assoc)

text \<open>The superblock is at byte 1024.\<close>

definition is_ext2 :: "(u32 \<Rightarrow> u8 list) \<Rightarrow> bool" where
  "is_ext2 img \<longleftrightarrow> le16 img (1024 + 56) = EXT2_MAGIC"

definition image_fs :: "(u32 \<Rightarrow> u8 list) \<Rightarrow> Fs" where
  "image_fs img =
     (let bs = push_bit (unat (le32 img (1024 + 24))) 1024
      in \<lparr>block_size = bs, inodes_per_group = le32 img (1024 + 40),
          inode_size = (if le32 img (1024 + 76) \<ge> 1 then ucast (le16 img (1024 + 88)) else 128),
          bgdt_off = (if bs = 1024 then 2 * bs else bs)\<rparr>)"

text \<open>Block sizes up to 1 GiB, so that the shift loses no bit; real ones go up to 64 KiB.\<close>

definition super_ok :: "(u32 \<Rightarrow> u8 list) \<Rightarrow> bool" where
  "super_ok img \<longleftrightarrow> unat (le32 img (1024 + 24)) \<le> 20 \<and> inodes_per_group (image_fs img) \<noteq> 0 \<and> 96 \<le> inode_size (image_fs img)"

lemma block_size_image:
  assumes "super_ok img"
  shows "unat (block_size (image_fs img)) = 1024 * 2 ^ unat (le32 img (1024 + 24))"
proof -
  let ?k = "unat (le32 img (1024 + 24))"
  have k: "?k \<le> 20" using assms by (simp add: super_ok_def)
  then have "(2 :: nat) ^ ?k \<le> 2 ^ 20" by (intro power_increasing) simp_all
  then have "(1024 :: nat) * 2 ^ ?k < 2 ^ 32" by simp
  moreover have u: "unat (2 ^ ?k :: u32) = 2 ^ ?k" using k by (intro unat_two_power) simp
  ultimately have "unat ((1024 :: u32) * 2 ^ ?k) = 1024 * 2 ^ ?k" by (subst unat_mult_small) simp_all
  then show ?thesis by (simp add: image_fs_def Let_def push_bit_eq_mult)
qed

lemma read_super_image:
  assumes "holds_image d img" and "is_ext2 img \<Longrightarrow> super_ok img"
  shows "yields img 4 (read_super d) (if is_ext2 img then Some (image_fs img) else None)"
proof -
  have m: "unat (1024 :: u32) + 1024 < 2 ^ 32" by simp
  have bs: "checked_mul (if b = 1024 then 2 else 1) b = Some (if b = 1024 then 2 * b else b)" for b :: u32
    using unat_u32_less [of b] by (simp add: checked_mul_def)
  have "yields img (4 + 0) (read_super d) (if is_ext2 img then Some (image_fs img) else None)"
    unfolding read_super_def [abs_def]
  proof (rule yields_bind)
    show "yields img 4 (read_range d 1024 1024) (disk_slice img 1024 1024)"
      using yields_range [OF assms(1) m] by simp
  qed (use assms(2) in \<open>auto simp: rd_u16_slice rd_u32_slice is_ext2_def super_ok_def image_fs_def Let_def bs intro: yields_return\<close>)
  then show ?thesis by simp
qed

text \<open>Inodes, counted from 1, lie in the table that the descriptor of their group names.\<close>

definition group_off :: "(u32 \<Rightarrow> u8 list) \<Rightarrow> u32 \<Rightarrow> nat" where
  "group_off img ino = unat (bgdt_off (image_fs img)) + (unat ino - 1) div unat (inodes_per_group (image_fs img)) * 32"

definition inode_off :: "(u32 \<Rightarrow> u8 list) \<Rightarrow> u32 \<Rightarrow> nat" where
  "inode_off img ino = unat (le32 img (group_off img ino + 8)) * unat (block_size (image_fs img)) +
     (unat ino - 1) mod unat (inodes_per_group (image_fs img)) * unat (inode_size (image_fs img))"

definition inode_ok :: "(u32 \<Rightarrow> u8 list) \<Rightarrow> u32 \<Rightarrow> bool" where
  "inode_ok img ino \<longleftrightarrow> ino \<noteq> 0 \<and> group_off img ino + 32 < 2 ^ 32 \<and> inode_off img ino + unat (inode_size (image_fs img)) < 2 ^ 32"

definition inode_at :: "(u32 \<Rightarrow> u8 list) \<Rightarrow> u32 \<Rightarrow> Inode" where
  "inode_at img ino =
     (let o1 = inode_off img ino
      in \<lparr>i_size = le32 img (o1 + 4), i_blocks = map (\<lambda>k. le32 img (o1 + 40 + 4 * k)) [0..<12],
          indirect = le32 img (o1 + 88), double_indirect = le32 img (o1 + 92)\<rparr>)"

lemma rd_blocks_slice:
  "40 + 4 * (k + n) \<le> m \<Longrightarrow> rd_blocks (disk_slice img a m) k n = Some (map (\<lambda>j. le32 img (a + 40 + 4 * j)) [k..<k + n])"
proof (induction n arbitrary: k)
  case (Suc n)
  have "[k..<k + Suc n] = k # [Suc k..<Suc k + n]" by (simp add: upt_conv_Cons)
  with Suc show ?case by (simp add: rd_u32_slice add.assoc)
qed simp

lemma checked_mul_small: "unat a * unat b < 2 ^ 32 \<Longrightarrow> checked_mul a b = Some (a * b) \<and> unat (a * b) = unat a * unat b"
  by (simp add: checked_mul_def unat_mult_small)

lemma checked_add_small: "unat a + unat b < 2 ^ 32 \<Longrightarrow> checked_add a b = Some (a + b) \<and> unat (a + b) = unat a + unat b"
  by (simp add: checked_add_def unat_add_small)

definition inode_reads :: "(u32 \<Rightarrow> u8 list) \<Rightarrow> nat" where
  "inode_reads img = 2 + (2 + unat (inode_size (image_fs img)) div 512)"

lemma read_inode_image:
  assumes on: "holds_image d img" and sup: "super_ok img" and ino: "inode_ok img ino"
  shows "yields img (inode_reads img) (read_inode d (image_fs img) ino) (inode_at img ino)"
proof -
  let ?fs = "image_fs img" and ?i = "ino - 1"
  let ?g = "?i div inodes_per_group ?fs" and ?x = "?i mod inodes_per_group ?fs" and ?n = "unat (inode_size (image_fs img))"
  have i: "checked_sub ino 1 = Some ?i" "unat ?i = unat ino - 1"
    using ino by (simp_all add: checked_sub_def inode_ok_def word_le_nat_alt unat_gt_0 unat_minus_one Suc_le_eq)
  have n: "inodes_per_group ?fs \<noteq> 0" "96 \<le> ?n" using sup by (simp_all add: super_ok_def word_le_nat_alt)
  have go: "group_off img ino = unat (bgdt_off ?fs) + unat ?g * 32" by (simp add: group_off_def unat_div i(2))
  have b1: "unat (bgdt_off ?fs) + unat ?g * 32 + 32 < 2 ^ 32" using ino go by (simp add: inode_ok_def)
  then have g: "checked_mul ?g 32 = Some (?g * 32) \<and> unat (?g * 32) = unat ?g * 32"
    using checked_mul_small [of ?g 32] by simp
  with b1 have G: "checked_add (bgdt_off ?fs) (?g * 32) = Some (bgdt_off ?fs + ?g * 32) \<and>
      unat (bgdt_off ?fs + ?g * 32) = group_off img ino"
    using checked_add_small [of "bgdt_off ?fs" "?g * 32"] go by simp
  let ?t = "le32 img (group_off img ino + 8)"
  have oo: "inode_off img ino = unat ?t * unat (block_size ?fs) + unat ?x * ?n" by (simp add: inode_off_def unat_mod i(2))
  have b2: "unat ?t * unat (block_size ?fs) + unat ?x * ?n + ?n < 2 ^ 32" using ino oo by (simp add: inode_ok_def)
  then have t: "checked_mul ?t (block_size ?fs) = Some (?t * block_size ?fs) \<and> unat (?t * block_size ?fs) = unat ?t * unat (block_size ?fs)"
    and x: "checked_mul ?x (inode_size ?fs) = Some (?x * inode_size ?fs) \<and> unat (?x * inode_size ?fs) = unat ?x * ?n"
    by (simp_all add: checked_mul_small)
  let ?o = "?t * block_size ?fs + ?x * inode_size ?fs"
  have o: "checked_add (?t * block_size ?fs) (?x * inode_size ?fs) = Some ?o \<and> unat ?o = inode_off img ino"
    using checked_add_small [of "?t * block_size ?fs" "?x * inode_size ?fs"] t x b2 oo by simp
  have r1: "yields img 2 (read_range d (bgdt_off ?fs + ?g * 32) 32) (disk_slice img (group_off img ino) 32)"
    using yields_range [OF on, of "bgdt_off ?fs + ?g * 32" 32] G b1 go by (simp add: numeral_2_eq_2)
  have r2: "yields img (2 + ?n div 512) (read_range d ?o ?n) (disk_slice img (inode_off img ino) ?n)"
    using yields_range [OF on, of ?o ?n] o b2 oo by (simp add: add.commute)
  let ?rest = "\<lambda>raw s. do { bs \<leftarrow> rd_blocks raw 0 12; sz \<leftarrow> rd_u32 raw 4; ind \<leftarrow> rd_u32 raw 88; dbl \<leftarrow> rd_u32 raw 92;
       Some (\<lparr>i_size = sz, i_blocks = bs, indirect = ind, double_indirect = dbl\<rparr>, s :: bstate) }"
  have r3: "yields img (2 + ?n div 512 + 0) (\<lambda>s. do { (raw, s) \<leftarrow> read_range d ?o ?n s; ?rest raw s }) (inode_at img ino)"
    by (rule yields_bind [OF r2]) (use n(2) in \<open>simp add: rd_u32_slice rd_blocks_slice inode_at_def Let_def yields_return\<close>)
  have "yields img (2 + (2 + ?n div 512)) (\<lambda>s. do { (desc, s) \<leftarrow> read_range d (bgdt_off ?fs + ?g * 32) 32 s;
       inode_table \<leftarrow> rd_u32 desc 8; toff \<leftarrow> checked_mul inode_table (block_size ?fs); ioff \<leftarrow> checked_mul ?x (inode_size ?fs);
       off \<leftarrow> checked_add toff ioff; (raw, s) \<leftarrow> read_range d off ?n s; ?rest raw s }) (inode_at img ino)"
    by (rule yields_bind [OF r1]) (use t x o r3 in \<open>simp add: rd_u32_slice\<close>)
  then show ?thesis
    unfolding read_inode_def [abs_def] using i(1) n(1) g G by (simp add: inode_reads_def Let_def)
qed

text \<open>The entries of a directory block: the walk stays inside the block and never fails.\<close>

lemma dir_entries_total: "\<exists>es. dir_entries data pos = Some es"
proof (induction data pos rule: dir_entries.induct)
  case (1 data pos)
  show ?case
  proof (cases "pos + 8 \<le> length data")
    case True
    then obtain ino len where r: "rd_u32 data pos = Some ino" "rd_u16 data (pos + 4) = Some len"
      by (simp add: rd_u32_def rd_u16_def)
    then show ?thesis using 1 [OF True r] True by (subst dir_entries.simps) (auto simp: Let_def)
  qed (subst dir_entries.simps, simp)
qed

definition image_dir :: "(u32 \<Rightarrow> u8 list) \<Rightarrow> Fs \<Rightarrow> u32 list \<Rightarrow> (u8 list \<times> u32) list" where
  "image_dir img fs bs = concat (map (\<lambda>b. the (dir_entries (disk_slice img (unat b * unat (block_size fs)) (unat (block_size fs))) 0))
     (filter (\<lambda>b. b \<noteq> 0) bs))"

lemma read_dir_blocks_image:
  assumes "holds_image d img" and "\<forall>b \<in> set bs. b \<noteq> 0 \<longrightarrow> block_fits fs b"
  shows "yields img (length bs * reads_per_block fs) (read_dir_blocks d fs bs) (image_dir img fs bs)"
  using assms(2)
proof (induction bs)
  case Nil
  show ?case by (simp add: image_dir_def yields_return)
next
  case (Cons b bs)
  then have IH: "yields img (length bs * reads_per_block fs) (read_dir_blocks d fs bs) (image_dir img fs bs)" by simp
  show ?case
  proof (cases "b = 0")
    case True
    then show ?thesis using IH by (auto simp: image_dir_def intro: yields_mono)
  next
    case False
    let ?bs = "unat (block_size fs)"
    obtain es where es: "dir_entries (disk_slice img (unat b * ?bs) ?bs) 0 = Some es" using dir_entries_total by blast
    have blk: "yields img (reads_per_block fs) (read_block d fs b ?bs) (disk_slice img (unat b * ?bs) ?bs)"
      using Cons.prems False by (intro yields_block [OF assms(1)]) simp_all
    have "yields img (length bs * reads_per_block fs + 0) (\<lambda>s. do { (fs', s) \<leftarrow> read_dir_blocks d fs bs s; Some (es @ fs', s) })
        (image_dir img fs (b # bs))"
      using False es by (intro yields_bind [OF IH]) (simp add: image_dir_def yields_return)
    then show ?thesis using False es yields_bind [OF blk, of "length bs * reads_per_block fs"
        "\<lambda>data s. do { es \<leftarrow> dir_entries data 0; (fs', s) \<leftarrow> read_dir_blocks d fs bs s; Some (es @ fs', s) }"]
      by simp
  qed
qed

text \<open>The content of a file, as in \<open>ext2_read_file_content\<close>.\<close>

definition file_blocks :: "Fs \<Rightarrow> Inode \<Rightarrow> nat" where
  "file_blocks fs inode = (unat (i_size inode) + (unat (block_size fs) - 1)) div unat (block_size fs)"

definition image_file :: "(u32 \<Rightarrow> u8 list) \<Rightarrow> Fs \<Rightarrow> Inode \<Rightarrow> u8 list" where
  "image_file img fs inode = take (unat (i_size inode)) (concat (map (file_block img fs inode) [0..<file_blocks fs inode]))"

definition file_ok :: "(u32 \<Rightarrow> u8 list) \<Rightarrow> Fs \<Rightarrow> Inode \<Rightarrow> bool" where
  "file_ok img fs inode \<longleftrightarrow> (\<forall>n < file_blocks fs inode. readable img fs inode n)"

lemma read_file_image:
  assumes "holds_image d img" and "block_size fs \<noteq> 0" and "length (i_blocks inode) = 12" and "file_ok img fs inode"
  shows "yields img (file_blocks fs inode * (3 * reads_per_block fs)) (read_file d fs inode) (image_file img fs inode)"
proof (rule yieldsI)
  fix c h
  assume c: "cache_ok img (cache_of c)" "accesses c + file_blocks fs inode * (3 * reads_per_block fs) < 2 ^ 32"
  have d: "reads_as d img" "sectors_ok img" and bs: "unat (block_size fs) \<noteq> 0"
    using assms(1,2) by (simp_all add: holds_image_def unat_eq_0)
  from read_file_loop_spec [OF d assms(3) c(1), of 0 "file_blocks fs inode" fs "unat (i_size inode)" h] assms(4) c(2) bs
  show "\<exists>c' k. read_file d fs inode (c, h) = Some (image_file img fs inode, c', h @ k) \<and> cache_ok img (cache_of c') \<and>
      accesses c' \<le> accesses c + file_blocks fs inode * (3 * reads_per_block fs)"
    by (simp add: read_file_def image_file_def file_blocks_def file_ok_def Let_def)
qed

section \<open>The self test\<close>

text \<open>The image as a map from the names in the root directory to contents, and what the self test
  expects of it.\<close>

definition root_entries :: "(u32 \<Rightarrow> u8 list) \<Rightarrow> (u8 list \<times> u32) list" where
  "root_entries img = image_dir img (image_fs img) (i_blocks (inode_at img ROOT_INO))"

definition file_named :: "(u32 \<Rightarrow> u8 list) \<Rightarrow> u8 list \<Rightarrow> u8 list option" where
  "file_named img name = map_option (\<lambda>ino. image_file img (image_fs img) (inode_at img ino)) (find_entry name (root_entries img))"

definition image_passes :: "(u32 \<Rightarrow> u8 list) \<Rightarrow> bool" where
  "image_passes img \<longleftrightarrow> is_ext2 img \<and> file_named img (bytes ''hello.txt'') = Some (bytes ''Hello from Munux ext2!'' @ [10]) \<and>
     (case file_named img (bytes ''big.bin'') of None \<Rightarrow> True | Some data \<Rightarrow> data = map word_of_nat [0..<20480])"

text \<open>The parts of the image that the self test reads are within reach of 32-bit offsets.\<close>

definition entry_ok :: "(u32 \<Rightarrow> u8 list) \<Rightarrow> u8 list \<Rightarrow> bool" where
  "entry_ok img name \<longleftrightarrow> (case find_entry name (root_entries img) of None \<Rightarrow> True
     | Some ino \<Rightarrow> inode_ok img ino \<and> file_ok img (image_fs img) (inode_at img ino))"

definition image_ok :: "(u32 \<Rightarrow> u8 list) \<Rightarrow> bool" where
  "image_ok img \<longleftrightarrow> super_ok img \<and> inode_ok img ROOT_INO \<and>
     (\<forall>b \<in> set (i_blocks (inode_at img ROOT_INO)). b \<noteq> 0 \<longrightarrow> block_fits (image_fs img) b) \<and>
     entry_ok img (bytes ''hello.txt'') \<and> entry_ok img (bytes ''big.bin'')"

definition entry_reads :: "(u32 \<Rightarrow> u8 list) \<Rightarrow> u8 list \<Rightarrow> nat" where
  "entry_reads img name = (case find_entry name (root_entries img) of None \<Rightarrow> 0
     | Some ino \<Rightarrow> inode_reads img + file_blocks (image_fs img) (inode_at img ino) * (3 * reads_per_block (image_fs img)))"

definition image_reads :: "(u32 \<Rightarrow> u8 list) \<Rightarrow> nat" where
  "image_reads img = 4 + (if is_ext2 img then inode_reads img + (12 * reads_per_block (image_fs img) +
     (entry_reads img (bytes ''hello.txt'') + entry_reads img (bytes ''big.bin''))) else 0)"

lemma length_i_blocks [simp]: "length (i_blocks (inode_at img ino)) = 12"
  by (simp add: inode_at_def Let_def)

lemma counting_pattern:
  "(length data = n \<and> list_all (\<lambda>(i, b). b = word_of_nat i) (enumerate 0 data)) = (data = map word_of_nat [0..<n])"
proof -
  have "list_all (\<lambda>(i, b). b = word_of_nat i) (enumerate 0 data) \<longleftrightarrow> (\<forall>i < length data. data ! i = word_of_nat i)"
    by (simp add: list_all_length nth_enumerate_eq)
  moreover have "data = map word_of_nat [0..<n] \<longleftrightarrow> length data = n \<and> (\<forall>i < length data. data ! i = word_of_nat i)"
    by (subst list_eq_iff_nth_eq) auto
  ultimately show ?thesis by simp
qed

lemma read_root_image:
  assumes "holds_image d img" and "image_ok img"
  shows "yields img (12 * reads_per_block (image_fs img)) (read_dir d (image_fs img) (inode_at img ROOT_INO)) (root_entries img)"
  using read_dir_blocks_image [OF assms(1), of "i_blocks (inode_at img ROOT_INO)" "image_fs img"] assms(2)
  by (simp add: read_dir_def [abs_def] root_entries_def image_ok_def)

text \<open>Reading the file of an entry and continuing with its content.\<close>

lemma read_entry_image:
  assumes on: "holds_image d img" and sup: "super_ok img" and e: "entry_ok img name" "find_entry name (root_entries img) = Some ino"
    and g: "yields img m (g (image_file img (image_fs img) (inode_at img ino))) v"
  shows "yields img (entry_reads img name + m)
    (\<lambda>s. do { (inode, s) \<leftarrow> read_inode d (image_fs img) ino s; (data, s) \<leftarrow> read_file d (image_fs img) inode s; g data s }) v"
proof -
  have bs: "block_size (image_fs img) \<noteq> 0" using block_size_image [OF sup] by (auto simp flip: unat_eq_0)
  have ok: "inode_ok img ino" "file_ok img (image_fs img) (inode_at img ino)" using e by (simp_all add: entry_ok_def)
  note i = read_inode_image [OF on sup ok(1)]
  note f = read_file_image [OF on bs length_i_blocks ok(2)]
  have fg: "yields img (file_blocks (image_fs img) (inode_at img ino) * (3 * reads_per_block (image_fs img)) + m)
      (\<lambda>s. do { (data, s) \<leftarrow> read_file d (image_fs img) (inode_at img ino) s; g data s }) v"
    by (rule yields_bind [where g = g, OF f g])
  have "yields img (inode_reads img + (file_blocks (image_fs img) (inode_at img ino) * (3 * reads_per_block (image_fs img)) + m))
      (\<lambda>s. do { (inode, s) \<leftarrow> read_inode d (image_fs img) ino s; (data, s) \<leftarrow> read_file d (image_fs img) inode s; g data s }) v"
    by (rule yields_bind [OF i]) (rule fg)
  then show ?thesis using e(2) by (simp add: entry_reads_def add.assoc)
qed

lemma check_big_image:
  assumes on: "holds_image d img" and ok: "image_ok img"
  shows "yields img (entry_reads img (bytes ''big.bin'')) (\<lambda>s. case find_entry (bytes ''big.bin'') (root_entries img) of
      None \<Rightarrow> Some (True, s)
    | Some big \<Rightarrow> do { (inode, s) \<leftarrow> read_inode d (image_fs img) big s; (data, s) \<leftarrow> read_file d (image_fs img) inode s;
        Some (length data = 20480 \<and> list_all (\<lambda>(i, b). b = word_of_nat i) (enumerate 0 data), s) })
    (case file_named img (bytes ''big.bin'') of None \<Rightarrow> True | Some data \<Rightarrow> data = map word_of_nat [0..<20480])"
    (is "yields img ?n ?f ?v")
proof (cases "find_entry (bytes ''big.bin'') (root_entries img)")
  case (Some big)
  let ?data = "image_file img (image_fs img) (inode_at img big)"
  have "yields img (?n + 0) ?f (length ?data = 20480 \<and> list_all (\<lambda>(i, b). b = word_of_nat i) (enumerate 0 ?data))"
    unfolding Some option.case using ok Some by (intro read_entry_image [OF on]) (simp_all add: image_ok_def yields_return)
  then show ?thesis unfolding counting_pattern using Some by (simp add: file_named_def)
qed (simp add: file_named_def yields_return)

lemma check_hello_image:
  assumes on: "holds_image d img" and x: "is_ext2 img" and ok: "image_ok img"
    and l: "yields img n l (case file_named img (bytes ''big.bin'') of None \<Rightarrow> True | Some data \<Rightarrow> data = map word_of_nat [0..<20480])"
  shows "yields img (entry_reads img (bytes ''hello.txt'') + n) (\<lambda>s. case find_entry (bytes ''hello.txt'') (root_entries img) of
      None \<Rightarrow> Some (False, s)
    | Some ino \<Rightarrow> do { (inode, s) \<leftarrow> read_inode d (image_fs img) ino s; (data, s) \<leftarrow> read_file d (image_fs img) inode s;
        if data \<noteq> bytes ''Hello from Munux ext2!'' @ [10] then Some (False, s) else l s }) (image_passes img)"
proof (cases "find_entry (bytes ''hello.txt'') (root_entries img)")
  case (Some ino)
  let ?data = "image_file img (image_fs img) (inode_at img ino)" and ?text = "bytes ''Hello from Munux ext2!'' @ [10]"
  have p: "image_passes img \<longleftrightarrow> ?data = ?text \<and>
      (case file_named img (bytes ''big.bin'') of None \<Rightarrow> True | Some data \<Rightarrow> data = map word_of_nat [0..<20480])"
    using x Some by (simp add: image_passes_def file_named_def [of img "bytes ''hello.txt''"])
  have c: "yields img n (\<lambda>s. if ?data \<noteq> ?text then Some (False, s) else l s) (image_passes img)"
    unfolding p using l by (cases "?data = ?text") (simp_all only: if_True if_False simp_thms yields_return)
  show ?thesis unfolding Some option.case
    using ok Some c by (intro read_entry_image [OF on]) (simp_all add: image_ok_def)
qed (simp add: image_passes_def file_named_def yields_return)

lemma ext2_selftest_image:
  assumes on: "holds_image d img" and ok: "is_ext2 img \<Longrightarrow> image_ok img"
  shows "yields img (image_reads img) (ext2_selftest d) (image_passes img)"
  unfolding ext2_selftest_def [abs_def] image_reads_def
proof (rule yields_bind)
  show "yields img 4 (read_super d) (if is_ext2 img then Some (image_fs img) else None)"
    using ok by (intro read_super_image [OF on]) (simp add: image_ok_def)
next
  show "yields img (if is_ext2 img then inode_reads img + (12 * reads_per_block (image_fs img) +
        (entry_reads img (bytes ''hello.txt'') + entry_reads img (bytes ''big.bin''))) else 0)
      (\<lambda>s. case if is_ext2 img then Some (image_fs img) else None of None \<Rightarrow> Some (False, s)
        | Some fs \<Rightarrow> do { (root, s) \<leftarrow> read_inode d fs ROOT_INO s; (entries, s) \<leftarrow> read_dir d fs root s;
            case find_entry (bytes ''hello.txt'') entries of None \<Rightarrow> Some (False, s)
            | Some ino \<Rightarrow> do { (inode, s) \<leftarrow> read_inode d fs ino s; (data, s) \<leftarrow> read_file d fs inode s;
                if data \<noteq> bytes ''Hello from Munux ext2!'' @ [10] then Some (False, s)
                else case find_entry (bytes ''big.bin'') entries of None \<Rightarrow> Some (True, s)
                  | Some big \<Rightarrow> do { (inode, s) \<leftarrow> read_inode d fs big s; (data, s) \<leftarrow> read_file d fs inode s;
                      Some (length data = 20480 \<and> list_all (\<lambda>(i, b). b = word_of_nat i) (enumerate 0 data), s) } } })
      (image_passes img)"
  proof (cases "is_ext2 img")
    case x: True
    note m = check_hello_image [OF on x ok [OF x] check_big_image [OF on ok [OF x]]]
    show ?thesis unfolding if_P [OF x] option.case using ok [OF x]
      by (intro yields_bind [OF read_inode_image [OF on]] yields_bind [OF read_root_image [OF on]] m) (simp_all add: image_ok_def)
  qed (simp add: image_passes_def yields_return)
qed

section \<open>A disk for an image\<close>

text \<open>A drive that is always ready and delivers the words of the selected sector of an image in turn;
  the serial line answers as ready. The address has 28 bits.\<close>

definition trailing_words :: "history \<Rightarrow> nat" where
  "trailing_words h = length (takeWhile (\<lambda>e. case e of Inw _ _ \<Rightarrow> True | _ \<Rightarrow> False) (rev h))"

definition image_disk :: "(u32 \<Rightarrow> u8 list) \<Rightarrow> device" where
  "image_disk img = \<lparr>dev_inb = (\<lambda>h port. if port = 0x3FD then 0x20 else 0x48),
     dev_inw = (\<lambda>h port. sector_words (img (selected_lba h)) ! trailing_words h),
     dev_inl = (\<lambda>h port. 0)\<rparr>"

lemma image_disk_inw:
  "inw (image_disk img) p h = (let w = sector_words (img (selected_lba h)) ! trailing_words h in (w, h @ [Inw p w]))"
  by (simp add: inw_def image_disk_def)

lemma image_disk_waits: "ata_wait_bsy (image_disk img) h = (True, h @ [Inb 0x1F7 0x48])"
  "ata_wait_drq (image_disk img) h = (True, h @ [Inb 0x1F7 0x48])"
proof -
  have n: "ATA_TIMEOUT = Suc 999999" by (simp add: ATA_TIMEOUT_def)
  have p: "poll_bsy (Suc n) (image_disk img) h = (True, h @ [Inb 0x1F7 0x48])"
    "poll_drq (Suc n) (image_disk img) h = (True, h @ [Inb 0x1F7 0x48])" for n by (simp_all add: inb_def image_disk_def)
  show "ata_wait_bsy (image_disk img) h = (True, h @ [Inb 0x1F7 0x48])" "ata_wait_drq (image_disk img) h = (True, h @ [Inb 0x1F7 0x48])"
    unfolding ata_wait_bsy_def ata_wait_drq_def n by (rule p)+
qed

lemma image_disk_words:
  assumes "2 * (i + n) \<le> length b" and "trailing_words h = i"
  shows "\<exists>b'. read_words i n (image_disk img) b h =
    Some (b', h @ map (Inw 0x1F0) (map (\<lambda>j. sector_words (img (selected_lba h)) ! j) [i..<i + n]))"
  using assms
proof (induction n arbitrary: i b h)
  case (Suc n)
  let ?w = "sector_words (img (selected_lba h)) ! i" and ?h = "h @ [Inw 0x1F0 (sector_words (img (selected_lba h)) ! i)]"
  let ?b = "b[2 * i := ucast ?w, 2 * i + 1 := ucast (drop_bit 8 ?w)]"
  have p: "2 * (Suc i + n) \<le> length ?b" "trailing_words ?h = Suc i" "selected_lba ?h = selected_lba h"
    using Suc.prems by (simp_all add: trailing_words_def selected_lba_def)
  have "read_words i (Suc n) (image_disk img) b h = read_words (Suc i) n (image_disk img) ?b ?h"
    using Suc.prems by (simp add: image_disk_inw Let_def mult.commute)
  moreover have "[i..<i + Suc n] = i # [Suc i..<Suc i + n]" by (simp add: upt_conv_Cons)
  ultimately show ?case using Suc.IH [OF p(1,2)] p(3) by simp
qed simp

lemma image_disk_reads_as:
  assumes "sectors_ok img" and "\<And>lba. img (take_bit 28 lba) = img lba"
  shows "reads_as (image_disk img) img"
proof -
  let ?b = "replicate 512 0 :: u8 list" and ?d = "image_disk img"
  have "\<exists>k. disk_read_sector ?d lba ?b h = Some (0, img lba, h @ k)" for lba h
  proof -
    let ?k = "[Inb 0x1F7 0x48] @ command_events lba 0x20 @ [Inb 0x1F7 0x48] @ [Inb 0x1F7 0x48]"
    let ?ws = "map (\<lambda>j. sector_words (img lba) ! j) [0..<256]"
    have t: "trailing_words (h @ ?k) = 0" by (simp add: trailing_words_def)
    have "selected_lba (h @ ?k) = selected_lba (command_events lba 0x20)" by (simp add: selected_lba_def command_events_def)
    then have l: "img (selected_lba (h @ ?k)) = img lba" by (simp add: selected_lba_command assms(2))
    have b: "2 * (0 + 256) \<le> length ?b" by simp
    obtain b' where r: "read_words 0 256 ?d ?b (h @ ?k) = Some (b', (h @ ?k) @ map (Inw 0x1F0) ?ws)"
      using image_disk_words [OF b t, of img] unfolding l by auto
    obtain ws where w: "b' = concat (map word_bytes ws)" "map (Inw 0x1F0) ws = map (Inw 0x1F0) ?ws"
      using read_words_spec [of 0 256 ?b ?d "h @ ?k"] r by auto
    have "inj (Inw 0x1F0)" by (simp add: inj_def)
    with w(2) have "ws = ?ws" by (simp only: inj_map_eq_map)
    moreover have "?ws = sector_words (img lba)" by (intro nth_equalityI) (simp_all add: sector_words_def)
    ultimately have "b' = img lba" using w(1) sector_bytes [of "img lba"] assms(1) by (simp add: sectors_ok_def)
    with r show ?thesis by (simp add: disk_read_sector_def image_disk_waits send_command_events Let_def)
  qed
  then show ?thesis by (simp only: reads_as_def) blast
qed

text \<open>An image from the bytes at given offsets, and one with a file \<^verbatim>\<open>hello.txt\<close>: blocks of 1024 bytes, the
  descriptor of the only group in block 2, its inodes in block 3, the root directory in block 4 and
  the file in block 5.\<close>

fun part_at :: "(nat \<times> u8 list) list \<Rightarrow> nat \<Rightarrow> u8" where
  "part_at [] i = 0"
| "part_at ((a, bs) # ps) i = (if a \<le> i \<and> i < a + length bs then bs ! (i - a) else part_at ps i)"

definition image_of :: "(nat \<times> u8 list) list \<Rightarrow> u32 \<Rightarrow> u8 list" where
  "image_of ps lba = map (\<lambda>i. part_at ps (unat (take_bit 28 lba) * 512 + i)) [0..<512]"

lemma image_of_sectors: "sectors_ok (image_of ps)" "image_of ps (take_bit 28 lba) = image_of ps lba"
  by (simp_all add: sectors_ok_def image_of_def)

lemma byte_at_image_of:
  assumes "i < 2 ^ 37"
  shows "byte_at (image_of ps) i = part_at ps i"
proof -
  have "i div 512 < 2 ^ 28" using assms by (simp add: less_mult_imp_div_less)
  moreover from this have "unat (word_of_nat (i div 512) :: u32) = i div 512" by (intro unat_of_nat_small) simp
  ultimately have "unat (take_bit 28 (word_of_nat (i div 512) :: u32)) = i div 512"
    by (simp add: unsigned_take_bit_eq take_bit_nat_eq_self)
  then show ?thesis by (simp add: byte_at_def image_of_def)
qed

lemma image_disk_holds: "holds_image (image_disk (image_of ps)) (image_of ps)"
  by (simp add: holds_image_def image_of_sectors image_disk_reads_as)

definition hello_image :: "u32 \<Rightarrow> u8 list" where
  "hello_image = image_of [(1064, [8]), (1080, [0x53, 0xEF]), (2056, [3]), (3204, [0, 4]), (3240, [4]), (3332, [23]), (3368, [5]),
     (4096, [2, 0, 0, 0, 12, 0, 1, 2, 46, 0, 0, 0] @ [2, 0, 0, 0, 12, 0, 2, 2, 46, 46, 0, 0] @
        [3, 0, 0, 0, 0xE8, 3, 9, 1] @ bytes ''hello.txt''),
     (5120, bytes ''Hello from Munux ext2!'' @ [10])]"

lemma hello_byte: "i < 2 ^ 37 \<Longrightarrow> byte_at hello_image i = part_at [(1064, [8]), (1080, [0x53, 0xEF]), (2056, [3]), (3204, [0, 4]),
     (3240, [4]), (3332, [23]), (3368, [5]),
     (4096, [2, 0, 0, 0, 12, 0, 1, 2, 46, 0, 0, 0] @ [2, 0, 0, 0, 12, 0, 2, 2, 46, 46, 0, 0] @
        [3, 0, 0, 0, 0xE8, 3, 9, 1] @ bytes ''hello.txt''),
     (5120, bytes ''Hello from Munux ext2!'' @ [10])] i"
  unfolding hello_image_def by (rule byte_at_image_of)

lemma hello_fs: "image_fs hello_image = \<lparr>block_size = 1024, inodes_per_group = 8, inode_size = 128, bgdt_off = 2048\<rparr>"
  "is_ext2 hello_image" "le32 hello_image (1024 + 24) = 0"
  by (simp_all add: image_fs_def is_ext2_def le32_def le16_def hello_byte)

lemma upt_12: "[0..<12] = [0, 1, 2, 3, 4, 5, 6, 7, 8, 9, 10, 11]"
  by (simp add: upt_rec)

lemma hello_root: "group_off hello_image 2 = 2048" "inode_off hello_image 2 = 3200"
  "inode_at hello_image 2 = \<lparr>i_size = 1024, i_blocks = [4, 0, 0, 0, 0, 0, 0, 0, 0, 0, 0, 0], indirect = 0, double_indirect = 0\<rparr>"
proof -
  show g: "group_off hello_image 2 = 2048" by (simp add: group_off_def hello_fs)
  show o: "inode_off hello_image 2 = 3200" by (simp add: inode_off_def g hello_fs le32_def hello_byte)
  show "inode_at hello_image 2 = \<lparr>i_size = 1024, i_blocks = [4, 0, 0, 0, 0, 0, 0, 0, 0, 0, 0, 0], indirect = 0, double_indirect = 0\<rparr>"
    by (simp add: inode_at_def o Let_def le32_def hello_byte upt_12)
qed

lemma hello_inode: "group_off hello_image 3 = 2048" "inode_off hello_image 3 = 3328"
  "inode_at hello_image 3 = \<lparr>i_size = 23, i_blocks = [5, 0, 0, 0, 0, 0, 0, 0, 0, 0, 0, 0], indirect = 0, double_indirect = 0\<rparr>"
proof -
  show g: "group_off hello_image 3 = 2048" by (simp add: group_off_def hello_fs)
  show o: "inode_off hello_image 3 = 3328" by (simp add: inode_off_def g hello_fs le32_def hello_byte)
  show "inode_at hello_image 3 = \<lparr>i_size = 23, i_blocks = [5, 0, 0, 0, 0, 0, 0, 0, 0, 0, 0, 0], indirect = 0, double_indirect = 0\<rparr>"
    by (simp add: inode_at_def o Let_def le32_def hello_byte upt_12)
qed

lemma dir_entries_slice:
  assumes "pos + 8 \<le> n" and "le16 img (a + (pos + 4)) \<noteq> 0"
  shows "dir_entries (disk_slice img a n) pos =
    (let l = unat (byte_at img (a + (pos + 6))); name = disk_slice img (a + (pos + 8)) l;
         rest = dir_entries (disk_slice img a n) (pos + unat (le16 img (a + (pos + 4))))
     in if le32 img (a + pos) \<noteq> 0 \<and> l > 0 \<and> pos + 8 + l \<le> n \<and> valid_utf8 name
        then map_option (Cons (name, le32 img (a + pos))) rest else rest)"
proof -
  have "disk_slice img a n ! (pos + 6) = byte_at img (a + (pos + 6))" using assms(1) by (simp add: disk_slice_def)
  then show ?thesis
    using assms sub_slice [of "pos + 8" "unat (byte_at img (a + (pos + 6)))" n img a]
    by (subst dir_entries.simps) (auto simp: rd_u32_slice rd_u16_slice Let_def)
qed

lemma hello_dir: "root_entries hello_image = [([46], 2), ([46, 46], 2), (bytes ''hello.txt'', 3)]"
proof -
  let ?D = "disk_slice hello_image 4096 1024"
  note ev = le32_def le16_def hello_byte
  have n: "disk_slice hello_image 4104 (Suc 0) = [46]" "disk_slice hello_image 4116 2 = [46, 46]"
    "disk_slice hello_image 4128 9 = bytes ''hello.txt''"
    by (simp_all add: disk_slice_def hello_byte upt_rec bytes_def)
  have u: "valid_utf8 (bytes ''hello.txt'')" by (simp add: bytes_def)
  have 3: "dir_entries ?D 1024 = Some []" by (subst dir_entries.simps) simp
  have 2: "dir_entries ?D 24 = Some [(bytes ''hello.txt'', 3)]"
    by (subst dir_entries_slice) (simp_all add: 3 ev n u)
  have 1: "dir_entries ?D 12 = Some [([46, 46], 2), (bytes ''hello.txt'', 3)]"
    by (subst dir_entries_slice) (simp_all add: 2 ev n)
  have 0: "dir_entries ?D 0 = Some [([46], 2), ([46, 46], 2), (bytes ''hello.txt'', 3)]"
    by (subst dir_entries_slice) (simp_all add: 1 ev n Let_def)
  then show ?thesis by (simp add: root_entries_def image_dir_def hello_root hello_fs)
qed

lemma hello_file: "image_file hello_image (image_fs hello_image) (inode_at hello_image 3) = bytes ''Hello from Munux ext2!'' @ [10]"
proof -
  have "image_file hello_image (image_fs hello_image) (inode_at hello_image 3) = take 23 (drop 0 (disk_slice hello_image 5120 1024))"
    by (simp add: image_file_def file_blocks_def file_block_def block_no_def hello_inode hello_fs)
  also have "\<dots> = disk_slice hello_image 5120 23" by (subst sub_slice) simp_all
  also have "\<dots> = bytes ''Hello from Munux ext2!'' @ [10]" by (simp add: disk_slice_def hello_byte upt_rec bytes_def)
  finally show ?thesis .
qed

lemma hello_entries: "find_entry (bytes ''hello.txt'') (root_entries hello_image) = Some 3"
  "find_entry (bytes ''big.bin'') (root_entries hello_image) = None"
  by (simp_all add: hello_dir find_entry_def bytes_def)

lemma hello_passes: "image_passes hello_image"
  by (simp add: image_passes_def file_named_def hello_entries hello_file hello_fs(2))

lemma hello_ok: "image_ok hello_image" "image_reads hello_image = 72"
proof -
  have "file_ok hello_image (image_fs hello_image) (inode_at hello_image 3)"
    by (simp add: file_ok_def file_blocks_def readable_def tables_fit_def block_no_def outer_table_def table_entry_def block_fits_def
        hello_inode hello_fs)
  then show "image_ok hello_image"
    by (simp add: image_ok_def super_ok_def entry_ok_def inode_ok_def block_fits_def hello_entries hello_root hello_inode hello_fs
        hello_fs(3) [simplified])
  show "image_reads hello_image = 72"
    by (simp add: image_reads_def entry_reads_def inode_reads_def hello_fs(2) reads_per_block_def file_blocks_def hello_entries hello_inode hello_fs)
qed

section \<open>Properties\<close>

text \<open>C26: over a disk that holds an image and through the sector cache, the ext2 self test at boot returns,
  without a panic, and decides exactly whether the image is an ext2 file system whose root directory has
  \<^verbatim>\<open>hello.txt\<close> with the expected text and, if there is a \<^verbatim>\<open>big.bin\<close>, the expected 20480 bytes in it; an
  image without the magic number is refused. The image may be anything as long as the parts read lie
  within 32-bit offsets.\<close>

theorem ext2_selftest_decides:
  assumes "holds_image d img" and "is_ext2 img \<Longrightarrow> image_ok img" and "cache_ok img (cache_of c)"
    and "accesses c + image_reads img < 2 ^ 32"
  shows "\<exists>c' k. munux_rs_ext2_selftest d (c, h) = Some (if image_passes img then 0 else 1, c', h @ k) \<and>
    cache_ok img (cache_of c') \<and> accesses c' \<le> accesses c + image_reads img"
proof -
  note y = yields_map [OF ext2_selftest_image [OF assms(1,2)], of "\<lambda>b. if b then 0 else 1 :: int"]
  from y assms(3,4) obtain c' k where
    "map_option (\<lambda>(b, s). (if b then 0 else 1 :: int, s)) (ext2_selftest d (c, h)) = Some (if image_passes img then 0 else 1, c', h @ k)"
    "cache_ok img (cache_of c')" "accesses c' \<le> accesses c + image_reads img"
    by (rule yieldsE)
  then show ?thesis unfolding munux_rs_ext2_selftest_def by blast
qed

theorem ext2_selftest_decides_witness:
  "(\<exists>c k. munux_rs_ext2_selftest (image_disk hello_image) (None, []) = Some (0, c, k)) \<and>
   (\<exists>c k. munux_rs_ext2_selftest (image_disk (image_of [])) (None, []) = Some (1, c, k))"
proof
  have c: "cache_ok img (cache_of None)" "accesses None = 0" for img by (simp_all add: cache_ok_def accesses_def)
  have h: "holds_image (image_disk hello_image) hello_image" unfolding hello_image_def by (rule image_disk_holds)
  show "\<exists>c k. munux_rs_ext2_selftest (image_disk hello_image) (None, []) = Some (0, c, k)"
    using ext2_selftest_decides [OF h hello_ok(1) c(1), of "[]"] hello_ok(2) hello_passes c(2) by auto
  have z: "\<not> is_ext2 (image_of [])" by (simp add: is_ext2_def le16_def byte_at_image_of)
  have r: "accesses None + image_reads (image_of []) < 2 ^ 32"
    using c(2) z by (simp add: image_reads_def)
  show "\<exists>c k. munux_rs_ext2_selftest (image_disk (image_of [])) (None, []) = Some (1, c, k)"
    using ext2_selftest_decides [OF image_disk_holds _ c(1) r, of "[]"] z by (auto simp: image_passes_def)
qed

end
