(* ===== verification/Boot.thy ===== *)
theory Boot
  imports Kernel Ext2Image
begin

text \<open>
  Start-up, proofs: every stage of \<^verbatim>\<open>kernel_main\<close> passes its self test from the state the stage before leaves,
  so that on a machine whose UART accepts characters, whose timer interrupts and whose disk, if any, holds the test files, the kernel
  reaches the shell without a call of \<^verbatim>\<open>kernel_panic\<close>.
\<close>

section \<open>The stages of the start-up\<close>

text \<open>What most stages leave alone: everything but the console, the memory manager, the heap payloads and the
  descriptor table.\<close>

definition stays :: "kernel \<Rightarrow> kernel \<Rightarrow> bool" where
  "stays s s' \<longleftrightarrow> sector_cache s' = sector_cache s \<and> files s' = files s \<and> keyboard s' = keyboard s \<and> irq_handlers s' = irq_handlers s \<and> timer_ticks s' = timer_ticks s \<and>
     (\<forall>x. unat x < 0xC0000000 \<longrightarrow> memory s' x = memory s x)"

lemma stays_refl [simp]: "stays s s"
  by (simp add: stays_def)

lemma stays_trans: "stays s t \<Longrightarrow> stays t u \<Longrightarrow> stays s u"
  by (simp add: stays_def)

lemma emitted_stays: "emitted cs s s' \<Longrightarrow> stays s s' \<and> mm s' = mm s" for s :: kernel
  by (auto simp: emitted_def stays_def)

lemma tprint_total:
  assumes "length str < 2 ^ 31"
  shows "\<exists>t. tprint (cstr str) s = Some (s\<lparr>vga := t\<rparr>)"
proof -
  have "terminated (cstr str)" by (simp add: cstr_def)
  moreover have "length (contents (cstr str)) < 2 ^ 32"
    using contents_length [of "cstr str"] assms by (simp add: cstr_def bytes_def)
  ultimately show ?thesis using writestring_fold [of "cstr str" "vga s"]
    by (intro exI [of _ "fold terminal_putchar (contents (cstr str)) (vga s)"]) (simp add: tprint_def)
qed

lemma screen_ops_total:
  assumes "list_all (\<lambda>op. case op of Color c \<Rightarrow> True | Text str \<Rightarrow> length str < 2 ^ 31) ops"
  shows "\<exists>t. screen_ops ops s = Some (s\<lparr>vga := t\<rparr>)"
  using assms
proof (induction ops s rule: screen_ops.induct)
  case (1 s)
  show ?case by (rule exI [of _ "vga s"]) simp
next
  case (2 fg ops s)
  then show ?case by (force simp: set_color_def)
next
  case (3 str ops s)
  then obtain t where "tprint (cstr str) s = Some (s\<lparr>vga := t\<rparr>)" using tprint_total by force
  with 3 show ?case by force
qed

lemma heap_smoke_passes:
  assumes "fresh_heap (mm s)"
  shows "\<exists>s'. rust_heap_smoke d s = Some (Inr s') \<and> fresh_heap (mm s') \<and> stays s s' \<and> eflags (mm s') = eflags (mm s)"
proof -
  obtain t1 where t1: "screen_ops [Color COLOR_LIGHT_CYAN, Text (''[smoke] Testando heap Rust...'' @ [CHR 0x0A])] s = Some (s\<lparr>vga := t1\<rparr>)"
    using screen_ops_total [of "[Color COLOR_LIGHT_CYAN, Text (''[smoke] Testando heap Rust...'' @ [CHR 0x0A])]" s] by auto
  obtain m1 where m1: "kmalloc 128 (mm s) = Inr (0xC000000C, m1)"
    "heap_shows [(0xC0000000, 128, 0, 0xC000008C), (0xC000008C, 0xFFF68, 1, 0)] m1" "eflags m1 = eflags (mm s)" by (rule smoke_alloc_a [OF assms])
  obtain m2 where m2: "kmalloc 256 m1 = Inr (0xC0000098, m2)"
    "heap_shows [(0xC0000000, 128, 0, 0xC000008C), (0xC000008C, 256, 0, 0xC0000198), (0xC0000198, 0xFFE5C, 1, 0)] m2"
    "eflags m2 = eflags m1" by (rule smoke_alloc_b [OF m1(2)])
  obtain m3 where m3: "kfree 0xC000000C m2 = Inr m3"
    "heap_shows [(0xC0000000, 128, 1, 0xC000008C), (0xC000008C, 256, 0, 0xC0000198), (0xC0000198, 0xFFE5C, 1, 0)] m3"
    "eflags m3 = eflags m2" by (rule smoke_free_a [OF m2(2)])
  obtain m4 where m4: "kfree 0xC0000098 m3 = Inr m4" "fresh_heap m4" "eflags m4 = eflags m3" by (rule smoke_free_b [OF m3(2)])
  obtain m5 where m5: "kmalloc 384 m4 = Inr (0xC000000C, m5)"
    "heap_shows [(0xC0000000, 384, 0, 0xC000018C), (0xC000018C, 0xFFE68, 1, 0)] m5" "eflags m5 = eflags m4" by (rule smoke_alloc_c [OF m4(2)])
  obtain m6 where m6: "kfree 0xC000000C m5 = Inr m6" "fresh_heap m6" "eflags m6 = eflags m5"
    by (rule free_first_block [OF m5(2)]) simp_all
  obtain m7 where m7: "kmalloc_aligned 100 m6 = Inr (0xC0001000, m7)"
    "heap_shows [(0xC0000000, 4200, 0, 0xC0001074), (0xC0001074, 0xFEF80, 1, 0)] m7" "words m7 0xC0000FFC = 0xC000000C" "eflags m7 = eflags m6"
    by (rule smoke_aligned [OF m6(2)])
  obtain m8 where m8: "kfree_aligned 0xC0001000 m7 = Inr m8" "fresh_heap m8" "eflags m8 = eflags m7" by (rule smoke_free_aligned [OF m7(2,3)])
  let ?M = "memset (memset (memory s) 0xC000000C 0xAA 128) 0xC0000098 0x55 256"
  let ?M2 = "memset ?M 0xC000000C 0xEE 384"
  let ?M3 = "memset ?M2 0xC0001000 0xEE 100"
  note ms = memset_slice in_slice_def
  have b1: "?M 0xC000000C = 0xAA" "?M 0xC000008B = 0xAA" "?M 0xC0000098 = 0x55" "?M 0xC0000197 = 0x55" by (simp_all add: ms)
  have b2: "?M2 0xC000000C = 0xEE" "?M2 0xC000018B = 0xEE" and b3: "?M3 0xC0001000 = 0xEE" "?M3 0xC0001063 = 0xEE" by (simp_all add: ms)
  have low: "?M3 x = memory s x" if "unat x < 0xC0000000" for x using that by (simp add: ms)
  let ?s8 = "s\<lparr>vga := t1, memory := ?M3, mm := m8\<rparr>"
  obtain t9 where t9: "screen_ops [Color COLOR_LIGHT_GREEN, Text (''[smoke] kmalloc/kfree/coalesce/aligned: OK (via munux_rs)'' @ [CHR 0x0A])] ?s8 = Some (?s8\<lparr>vga := t9\<rparr>)"
    using screen_ops_total [of "[Color COLOR_LIGHT_GREEN, Text (''[smoke] kmalloc/kfree/coalesce/aligned: OK (via munux_rs)'' @ [CHR 0x0A])]" ?s8] by auto
  have "rust_heap_smoke d s = Some (Inr (?s8\<lparr>vga := t9\<rparr>))"
    unfolding rust_heap_smoke_def alloc_def free_def fill_def byte_def Let_def
    using t1 m1(1) m2(1) m3(1) m4(1) m5(1) m6(1) m7(1) m8(1) b1 b2 b3 t9 by simp
  moreover have "stays s (?s8\<lparr>vga := t9\<rparr>)" using low by (simp add: stays_def)
  moreover have "eflags m8 = eflags (mm s)" using m1(3) m2(3) m3(3) m4(3) m5(3) m6(3) m7(4) m8(3) by simp
  ultimately show ?thesis using m8(2) by simp
qed

text \<open>A line of the log, for texts without NUL.\<close>

lemma klog_stays:
  fixes s :: kernel
  assumes "uart_ready d" and "0 \<in> set str" and "length str < 2 ^ 32"
  shows "\<exists>s'. klog d str s = Some s' \<and> stays s s' \<and> mm s' = mm s"
proof -
  have "length (contents str) < 2 ^ 32" using contents_length [of str] assms(3) by simp
  from klog_emits [OF assms(1,2) this, of s] show ?thesis using emitted_stays by blast
qed

definition usable_memory :: "u32 \<Rightarrow> u32 \<Rightarrow> phys_mem \<Rightarrow> nat" where
  "usable_memory magic mb m =
     (if magic \<noteq> 0x2BADB002 \<or> mb = 0 \<or> load32 m mb AND 1 = 0 then 2 ^ 25
      else max (2 ^ 25) ((2 ^ 20 + 1024 * unat (load32 m (mb + 8))) mod 2 ^ 32))"

lemma detect_memory_spec:
  fixes s :: "'a sys_scheme"
  assumes "uart_ready d"
  shows "\<exists>tot s' cs. detect_memory d magic mb s = Some (tot, s') \<and> emitted cs s s' \<and> unat tot = usable_memory magic mb (memory s)"
proof -
  have f: "unat (0x2000000 :: u32) = 2 ^ 25" by simp
  consider (none) "magic \<noteq> 0x2BADB002 \<or> mb = 0" | (flag) "\<not> (magic \<noteq> 0x2BADB002 \<or> mb = 0)" "load32 (memory s) mb AND 1 = 0"
    | (ok) "\<not> (magic \<noteq> 0x2BADB002 \<or> mb = 0)" "load32 (memory s) mb AND 1 \<noteq> 0" by blast
  then show ?thesis
  proof cases
    case none
    from klog_emits [OF assms, of "bytes ''[mem] Sem multiboot valido '' @ [0xE2, 0x80, 0x94] @ bytes '' fallback de 32 MiB'' @ [10, 0]" s]
    obtain s' cs where "klog d (bytes ''[mem] Sem multiboot valido '' @ [0xE2, 0x80, 0x94] @ bytes '' fallback de 32 MiB'' @ [10, 0]) s = Some s'" "emitted cs s s'"
      by (auto simp: bytes_def)
    with none show ?thesis by (auto simp: detect_memory_def usable_memory_def)
  next
    case flag
    from klog_emits [OF assms, of "bytes ''[mem] multiboot sem meminfo '' @ [0xE2, 0x80, 0x94] @ bytes '' fallback de 32 MiB'' @ [10, 0]" s]
    obtain s' cs where "klog d (bytes ''[mem] multiboot sem meminfo '' @ [0xE2, 0x80, 0x94] @ bytes '' fallback de 32 MiB'' @ [10, 0]) s = Some s'" "emitted cs s s'"
      by (auto simp: bytes_def)
    with flag show ?thesis by (auto simp: detect_memory_def usable_memory_def)
  next
    case ok
    define up where "up = load32 (memory s) (mb + 8)"
    define tot where "tot = (if 0x100000 + up * 1024 < 0x2000000 then 0x2000000 else 0x100000 + up * 1024)"
    have "unat (0x100000 + up * 1024) = (2 ^ 20 + 1024 * unat up) mod 2 ^ 32"
      by (simp add: unat_word_ariths mod_simps mult.commute)
    then have u: "unat tot = max (2 ^ 25) ((2 ^ 20 + 1024 * unat up) mod 2 ^ 32)"
      by (simp add: tot_def word_less_nat_alt max_def)
    obtain s1 where s1: "klog d (cstr ''[mem] Detectado via multiboot: '') s = Some s1" "emitted (bytes ''[mem] Detectado via multiboot: '') s s1"
      using klog_text [OF assms, of "bytes ''[mem] Detectado via multiboot: ''" "[]" s] by (auto simp: cstr_def bytes_def)
    obtain s2 where s2: "klog_uint d (tot div 0x100000) s1 = Some s2" "emitted (numeral_string 10 (unat (tot div 0x100000))) s1 s2"
      using klog_uint_emits [OF assms] by metis
    obtain s3 where s3: "klog d (bytes '' MiB'' @ [10, 0]) s2 = Some s3" "emitted (bytes '' MiB'' @ [10]) s2 s3"
      using klog_line [OF assms, of "bytes '' MiB''" s2] by (auto simp: bytes_def)
    have "detect_memory d magic mb s = Some (tot, s3)"
      using ok s1(1) s2(1) s3(1)
      by (cases "0x100000 + up * 1024 < 0x2000000") (simp_all add: detect_memory_def up_def [symmetric] tot_def Let_def)
    then show ?thesis using emitted_append [OF s1(2) emitted_append [OF s2(2) s3(2)]] u ok
      by (auto simp: usable_memory_def up_def)
  qed
qed

lemma memory_init_ready:
  assumes "0x304000 \<le> n" and "\<not> heap_locked (mm s)"
  shows "\<exists>s'. memory_init d n s = Some (Inr s') \<and> fresh_heap (mm s') \<and> stays s s' \<and> eflags (mm s') = eflags (mm s) \<and> memory_boot n (mm s) = Inr (mm s')"
proof -
  obtain m where m: "memory_boot n (mm s) = Inr m" "eflags m = eflags (mm s)" by (rule memory_boot_spec [OF assms])
  then have h: "heap_init (vmm_init (pmm_init n (mm s))) = Inr m" by (simp add: memory_boot_def)
  obtain t1 where t1: "tprint (cstr (''[OK] Inicializando PMM...'' @ nl)) s = Some (s\<lparr>vga := t1\<rparr>)"
    using tprint_total [of "''[OK] Inicializando PMM...'' @ nl" s] by (auto simp: nl_def)
  let ?s1 = "s\<lparr>vga := t1, mm := pmm_init n (mm s)\<rparr>"
  obtain t2 where t2: "tprint (cstr (''[OK] Inicializando VMM + paginacao...'' @ nl)) ?s1 = Some (?s1\<lparr>vga := t2\<rparr>)"
    using tprint_total [of "''[OK] Inicializando VMM + paginacao...'' @ nl" ?s1] by (auto simp: nl_def)
  let ?s2 = "?s1\<lparr>vga := t2, mm := vmm_init (pmm_init n (mm s))\<rparr>"
  obtain t3 where t3: "tprint (cstr (''[OK] Inicializando heap (backend: Rust)...'' @ nl)) ?s2 = Some (?s2\<lparr>vga := t3\<rparr>)"
    using tprint_total [of "''[OK] Inicializando heap (backend: Rust)...'' @ nl" ?s2] by (auto simp: nl_def)
  have "memory_init d n s = Some (Inr (?s2\<lparr>vga := t3, mm := m\<rparr>))"
    using t1 t2 t3 h by (simp add: memory_init_def Let_def)
  then show ?thesis using heap_init_fresh [OF h] m by (simp add: stays_def)
qed

lemma boot_spin_spec: "boot_spin n irq i t0 t0 = (if \<exists>j < n. irq (i + j) then t0 + 1 else t0)"
proof (induction n arbitrary: i)
  case (Suc n)
  show ?case
  proof (cases "irq i")
    case True
    have "boot_spin n irq (Suc i) t0 (t0 + 1) = t0 + 1" by (cases n) simp_all
    moreover have "\<exists>j < Suc n. irq (i + j)" using True by (intro exI [of _ 0]) simp
    ultimately show ?thesis using True by (simp add: timer_callback_def)
  next
    case False
    then have "(\<exists>j < Suc n. irq (i + j)) \<longleftrightarrow> (\<exists>j < n. irq (Suc i + j))"
      by (metis Suc_less_eq add_Suc_shift add.right_neutral not0_implies_Suc zero_less_Suc)
    then show ?thesis using Suc False by simp
  qed
qed simp

lemma boot_selfcheck_passes:
  assumes "uart_ready (dev e)" and "irq0 e i" and "i < 500000000" and "timer_ticks s = 0"
  shows "\<exists>s'. boot_selfcheck e s = Some (Inr s') \<and> timer_ticks s' = 1 \<and> stays (s\<lparr>timer_ticks := 1\<rparr>) s' \<and> mm s' = mm s"
proof -
  obtain s1 where s1: "klog (dev e) (bytes ''[chk] Aguardando IRQ0 (timer) apos sti...'' @ [10, 0]) s = Some s1" "stays s s1" "mm s1 = mm s"
    using klog_stays [OF assms(1), of "bytes ''[chk] Aguardando IRQ0 (timer) apos sti...'' @ [10, 0]" s] by (auto simp: bytes_def)
  have "\<exists>j < 500000000. irq0 e (0 + j)" using assms(2,3) by auto
  then have b: "boot_spin 500000000 (irq0 e) 0 0 0 = 1" using boot_spin_spec [of 500000000 "irq0 e" 0 0] by simp
  have t: "timer_ticks s1 = 0" using s1(2) assms(4) by (simp add: stays_def)
  let ?s2 = "s1\<lparr>timer_ticks := 1\<rparr>"
  obtain s3 where s3: "klog (dev e) (cstr ''[chk] IRQ0 OK: timer avancou para '') ?s2 = Some s3" "stays ?s2 s3" "mm s3 = mm s"
    using klog_stays [OF assms(1), of "cstr ''[chk] IRQ0 OK: timer avancou para ''" ?s2] s1(3) by (auto simp: cstr_def bytes_def)
  obtain s4 where s4: "klog_uint (dev e) 1 s3 = Some s4" "stays s3 s4" "mm s4 = mm s"
    using klog_uint_emits [OF assms(1), of 1 s3] emitted_stays s3(3) by force
  obtain s5 where s5: "klog (dev e) (bytes '' tick(s) via interrupcao.'' @ [10, 0]) s4 = Some s5" "stays s4 s5" "mm s5 = mm s"
    using klog_stays [OF assms(1), of "bytes '' tick(s) via interrupcao.'' @ [10, 0]" s4] s4(3) by (auto simp: bytes_def)
  have "boot_selfcheck e s = Some (Inr s5)"
    using s1(1) s3(1) s4(1) s5(1) t b by (simp add: boot_selfcheck_def timer_get_ticks_def Let_def del: boot_spin.simps)
  moreover have "stays (s\<lparr>timer_ticks := 1\<rparr>) ?s2" using s1(2) by (simp add: stays_def)
  then have st: "stays (s\<lparr>timer_ticks := 1\<rparr>) s5" by (rule stays_trans [OF _ stays_trans [OF s3(2) stays_trans [OF s4(2) s5(2)]]])
  moreover have "timer_ticks s5 = 1" using st by (simp add: stays_def)
  ultimately show ?thesis using s5(3) by blast
qed

lemma boot_selfcheck_fails:
  assumes "uart_ready (dev e)" and "\<forall>i < 500000000. \<not> irq0 e i"
  shows "\<exists>s1. boot_selfcheck e s = panic ''[chk] timer nao avancou: IRQ/PIC/sti falhou'' s1"
proof -
  obtain s1 where s1: "klog (dev e) (bytes ''[chk] Aguardando IRQ0 (timer) apos sti...'' @ [10, 0]) s = Some s1"
    using klog_stays [OF assms(1), of "bytes ''[chk] Aguardando IRQ0 (timer) apos sti...'' @ [10, 0]" s] by (auto simp: bytes_def)
  have "boot_spin 500000000 (irq0 e) 0 t t = t" for t using assms(2) boot_spin_spec [of 500000000 "irq0 e" 0 t] by simp
  then show ?thesis using s1 by (auto simp: boot_selfcheck_def timer_get_ticks_def Let_def simp del: boot_spin.simps)
qed

lemma libk_checks:
  "libk_strcmp_ok = Some True" "libk_strncmp_ok = Some True" "libk_utoa_ok = Some True" "libk_ctype_ok = Some True"
  "libk_format_ok = Some True" "libk_pad_ok = Some True" "libk_bounds_ok = Some True"
  by code_simp+

lemma libk_selfcheck_passes:
  assumes "uart_ready d"
  shows "\<exists>s'. libk_selfcheck d s = Some (Inr s') \<and> stays s s' \<and> mm s' = mm s"
proof -
  obtain s' where s': "klog d (bytes ''[libk] string/conv/ctype/printf: OK'' @ [10, 0]) s = Some s'" "stays s s'" "mm s' = mm s"
    using klog_stays [OF assms, of "bytes ''[libk] string/conv/ctype/printf: OK'' @ [10, 0]" s] by (auto simp: bytes_def)
  then show ?thesis by (simp add: libk_selfcheck_def libk_checks)
qed

lemma drivers_init_ready:
  assumes "uart_ready (dev e)"
  shows "\<exists>s'. drivers_init e s = Some (Inr s') \<and> timer_ticks s' = 0 \<and> keyboard s' = fst (keyboard_init (keyboard s, irq_handlers s)) \<and>
    irq_handlers s' = (irq_handlers s)(32 := Some Timer_callback, 33 := Some Keyboard_handler) \<and> files s' = files s \<and> sector_cache s' = sector_cache s \<and>
    mm s' = (mm s)\<lparr>eflags := eflags (mm s) OR 0x200\<rparr> \<and> (\<forall>x. unat x < 0xC0000000 \<longrightarrow> memory s' x = memory s x)"
proof -
  obtain ticks hs h where ti: "timer_init 100 (timer_ticks s, irq_handlers s, ports s) = Some (ticks, hs, h)"
    "ticks = 0" "hs = (irq_handlers s)(32 := Some Timer_callback)"
    by (simp add: timer_init_def register_interrupt_handler_def Let_def)
  let ?s1 = "s\<lparr>timer_ticks := ticks, irq_handlers := hs, ports := h\<rparr>"
  obtain s2 where s2: "klog (dev e) (bytes ''[OK] Timer PIT @ 100 Hz (IRQ0)'' @ [10, 0]) ?s1 = Some s2" "stays ?s1 s2" "mm s2 = mm s"
    using klog_stays [OF assms, of "bytes ''[OK] Timer PIT @ 100 Hz (IRQ0)'' @ [10, 0]" ?s1] by (auto simp: bytes_def)
  obtain k hs' where ki: "keyboard_init (keyboard s2, irq_handlers s2) = (k, hs')" by (cases "keyboard_init (keyboard s2, irq_handlers s2)")
  have f: "keyboard s2 = keyboard s" "irq_handlers s2 = hs" "files s2 = files s" "timer_ticks s2 = 0"
    "sector_cache s2 = sector_cache s" "\<forall>x. unat x < 0xC0000000 \<longrightarrow> memory s2 x = memory s x" using s2(2) ti(2) by (simp_all add: stays_def)
  let ?s3 = "s2\<lparr>keyboard := k, irq_handlers := hs'\<rparr>"
  obtain s4 where s4: "klog (dev e) (bytes ''[OK] Teclado PS/2 (IRQ1)'' @ [10, 0]) ?s3 = Some s4" "stays ?s3 s4" "mm s4 = mm s"
    using klog_stays [OF assms, of "bytes ''[OK] Teclado PS/2 (IRQ1)'' @ [10, 0]" ?s3] s2(3) by (auto simp: bytes_def)
  let ?s5 = "s4\<lparr>mm := (mm s4)\<lparr>eflags := eflags (mm s4) OR 0x200\<rparr>\<rparr>"
  obtain s6 where s6: "klog (dev e) (bytes ''[OK] Interrupcoes habilitadas (sti)'' @ [10, 0]) ?s5 = Some s6" "stays ?s5 s6" "mm s6 = mm ?s5"
    using klog_stays [OF assms, of "bytes ''[OK] Interrupcoes habilitadas (sti)'' @ [10, 0]" ?s5] by (auto simp: bytes_def)
  have d: "drivers_init e s = Some (Inr s6)"
    using ti(1) s2(1) ki s4(1) s6(1) by (simp add: drivers_init_def Let_def)
  have kk: "k = fst (keyboard_init (keyboard s, irq_handlers s))" "hs' = hs(33 := Some Keyboard_handler)"
    using ki f(1,2) by (auto simp: keyboard_init_def register_interrupt_handler_def)
  show ?thesis using d s6(2,3) s4(2,3) f kk ti(3) by (auto simp: stays_def)
qed

lemma vfs_init_ready:
  assumes "uart_ready (dev e)"
  shows "\<exists>s'. vfs_init e s = Some (Inr s') \<and> files s' = munux_rs_vfs_init (files s') \<and> stays (s\<lparr>files := files s'\<rparr>) s' \<and> mm s' = mm s"
proof -
  obtain fs where fs: "munux_rs_vfs_selftest (files s) = (0, fs)" using munux_rs_vfs_selftest_ok by blast
  let ?s1 = "s\<lparr>files := fs\<rparr>"
  obtain s2 where s2: "klog (dev e) (bytes ''[vfs] tmpfs (criar/escrever/ler/listar): OK'' @ [10, 0]) ?s1 = Some s2" "stays ?s1 s2" "mm s2 = mm s"
    using klog_stays [OF assms, of "bytes ''[vfs] tmpfs (criar/escrever/ler/listar): OK'' @ [10, 0]" ?s1] by (auto simp: bytes_def)
  let ?s' = "s2\<lparr>files := munux_rs_vfs_init (files s2)\<rparr>"
  have v: "vfs_init e s = Some (Inr ?s')" using fs s2(1) by (simp add: vfs_init_def)
  have i: "munux_rs_vfs_init a = munux_rs_vfs_init b" for a b :: vfs
    by (cases a; cases b) (simp add: munux_rs_vfs_init_def init_default_def mount_tmpfs_root_def Let_def)
  show ?thesis using v s2(2,3) i by (auto simp: stays_def)
qed

text \<open>The files after \<^verbatim>\<open>munux_rs_vfs_init\<close>.\<close>

definition default_files :: vfs where
  "default_files = munux_rs_vfs_init \<lparr>ROOT = None, FDS = None\<rparr>"

abbreviation motd :: "u8 list" where
  "motd \<equiv> bytes ''Munux v0.4'' @ [10]"

lemma default_files_eq: "munux_rs_vfs_init v = default_files"
  unfolding default_files_def by (cases v) (simp add: munux_rs_vfs_init_def init_default_def mount_tmpfs_root_def Let_def)

lemma default_files_facts:
  "FDS default_files = Some []" "\<exists>fs. ROOT default_files = Some fs \<and> fs_contents motd_path fs = Some motd"
proof -
  show "FDS default_files = Some []" by code_simp
  have "(case ROOT default_files of Some fs \<Rightarrow> fs_contents motd_path fs | None \<Rightarrow> None) = Some motd" by code_simp
  then show "\<exists>fs. ROOT default_files = Some fs \<and> fs_contents motd_path fs = Some motd" by (auto split: option.splits)
qed

lemma literal_lengths: "length sys_msg = 27" "length motd_path = 9" "length motd = 11" "valid_utf8 motd_path" "0 \<notin> set motd"
  by (simp_all add: sys_msg_def motd_path_def bytes_def)

lemma do_syscall_write:
  fixes s :: kernel
  assumes "uart_ready d" and "a \<noteq> 0"
  shows "\<exists>s'. do_syscall d fr SYS_WRITE 1 a n s = Some (n, s') \<and> stays s s' \<and> mm s' = mm s"
proof -
  obtain s' where "sys_write_loop d (unat n) a s = Some s'" "emitted (mem_bytes (memory s) a (unat n)) s s'"
    using sys_write_loop_emits [OF assms(1)] by blast
  then show ?thesis using assms(2) emitted_stays by (auto simp: do_syscall_def syscall_handler_def sys_write_def)
qed

lemma store8_mem_bytes:
  assumes "unat a + n \<le> 2 ^ 32" and "i < n"
  shows "mem_bytes (store8 m (a + word_of_nat i) v) a n = (mem_bytes m a n)[i := v]"
proof (rule nth_equalityI)
  fix j assume "j < length (mem_bytes (store8 m (a + word_of_nat i) v) a n)"
  then have j: "j < n" by simp
  have "a + word_of_nat j = a + word_of_nat i \<longleftrightarrow> j = i"
    using slice_addr [OF assms(1) j] slice_addr [OF assms(1,2)] by (metis add_left_cancel)
  then show "mem_bytes (store8 m (a + word_of_nat i) v) a n ! j = (mem_bytes m a n)[i := v] ! j"
    using j assms(2) by (simp add: mem_bytes_def store8_def nth_list_update)
qed simp

lemma mem_bytes_low:
  assumes "\<forall>x. unat x < 0xC0000000 \<longrightarrow> m' x = m x" and "unat a + n \<le> 0xC0000000"
  shows "mem_bytes m' a n = mem_bytes m a n"
proof -
  have b: "unat a + n \<le> 2 ^ 32" using assms(2) by simp
  have "m' (a + word_of_nat i) = m (a + word_of_nat i)" if "i < n" for i
    using assms slice_addr [OF b that] that by simp
  then show ?thesis by (simp add: mem_bytes_def)
qed

text \<open>The message of the day, read into a buffer and terminated there, compares equal to the expected
  one; closing a descriptor does not depend on the memory.\<close>

lemma motd_compares:
  assumes b: "unat a + 32 \<le> 2 ^ 32" and m: "mem_bytes m a 32 = motd @ drop 11 old" "length old = 32"
  shows "strcmp (mem_bytes (store8 m (a + 11) 0) a 32) (bytes ''Munux v0.4'' @ [10, 0]) = Some 0"
proof -
  have "mem_bytes (store8 m (a + 11) 0) a 32 = (motd @ drop 11 old)[11 := 0]"
    using store8_mem_bytes [OF b, of 11 m 0] m(1) by simp
  also have "drop 11 old = old ! 11 # drop 12 old" using m(2) by (simp add: Cons_nth_drop_Suc [symmetric])
  also have "(motd @ old ! 11 # drop 12 old)[11 := 0] = motd @ 0 # drop 12 old"
    using list_update_length [of motd "old ! 11" "drop 12 old" 0] unfolding literal_lengths(3) .
  finally have rb: "mem_bytes (store8 m (a + 11) 0) a 32 = motd @ 0 # drop 12 old" .
  have "terminated (motd @ 0 # drop 12 old)" "contents (motd @ 0 # drop 12 old) = motd" "terminated (motd @ [0])" "contents (motd @ [0]) = motd"
    using literal_lengths(5) contents_append [OF literal_lengths(5)] by simp_all
  then have "strcmp (motd @ 0 # drop 12 old) (motd @ [0]) = Some 0" using strcmp_zero [of "motd @ 0 # drop 12 old" "motd @ [0]"] by auto
  then show ?thesis unfolding rb by simp
qed

lemma do_syscall_close_memory:
  assumes "do_syscall d c SYS_CLOSE fd 0 0 s = Some (r, s\<lparr>files := fs\<rparr>)"
  shows "do_syscall d c SYS_CLOSE fd 0 0 (s\<lparr>memory := m\<rparr>) = Some (r, s\<lparr>memory := m, files := fs\<rparr>)"
proof -
  obtain x1 x2 where x: "munux_rs_vfs_close (sint fd) (files s) = (x1, x2)" by (cases "munux_rs_vfs_close (sint fd) (files s)")
  then have "word_of_int x1 = r" and q: "s\<lparr>files := x2\<rparr> = s\<lparr>files := fs\<rparr>"
    using assms by (auto simp: do_syscall_def syscall_handler_def)
  moreover have "x2 = fs" using arg_cong [OF q, of files] by simp
  ultimately show ?thesis using x by (simp add: do_syscall_def syscall_handler_def)
qed

lemma syscall_selfcheck_passes:
  assumes "uart_ready (dev e)" and "msg_addr e \<noteq> 0" and "slice_ok (path_addr e) 9" and "slice_ok (rbuf_addr e) 32"
    and "mem_bytes (memory s) (path_addr e) 9 = motd_path" and "unat (path_addr e) + 9 \<le> 0xC0000000" and "files s = default_files"
  shows "\<exists>s'. syscall_selfcheck e s = Some (Inr s') \<and> files s' = default_files \<and> keyboard s' = keyboard s \<and>
    irq_handlers s' = irq_handlers s \<and> timer_ticks s' = timer_ticks s \<and> mm s' = mm s \<and> sector_cache s' = sector_cache s"
proof -
  let ?sc = "do_syscall (dev e) (caller e)"
  obtain s1 where s1: "?sc SYS_WRITE 1 (msg_addr e) 27 s = Some (27, s1)" "stays s s1" "mm s1 = mm s"
    using do_syscall_write [OF assms(1,2)] by blast
  have u: "?sc 9999 0 0 0 s1 = Some (- 1, s1)" "?sc SYS_GET_TICKS 0 0 0 s1 = Some (timer_ticks s1, s1)"
    by (simp_all add: do_syscall_def syscall_handler_def timer_get_ticks_def)
  obtain fs where fs: "ROOT (files s1) = Some fs" "fs_contents motd_path fs = Some motd" "FDS (files s1) = Some []"
    using default_files_facts s1(2) assms(7) by (auto simp: stays_def)
  have m1: "mem_bytes (memory s1) (path_addr e) 9 = motd_path"
    using mem_bytes_low [of "memory s1" "memory s", OF _ assms(6)] s1(2) assms(5) by (simp add: stays_def)
  have u9: "unat (9 :: u32) = 9" "unat (32 :: u32) = 32" by simp_all
  have pre: "valid_utf8 (mem_bytes (memory s1) (path_addr e) (unat (9 :: u32)))"
    "fs_contents (mem_bytes (memory s1) (path_addr e) (unat (9 :: u32))) fs = Some motd" "length motd < 2 ^ 31"
    using m1 fs(2) literal_lengths unfolding u9 by simp_all
  have l0: "length ([] :: (int \<times> path \<times> nat) list) < 2 ^ 31 - 3" by simp
  obtain fd s2 n s3 s4 where r: "?sc SYS_OPEN (path_addr e) 9 0 s1 = Some (fd, s2)" "3 \<le> sint fd"
    "?sc SYS_READ fd (rbuf_addr e) 32 s2 = Some (word_of_nat n, s3)" "n = min (length motd) (unat (32 :: u32))"
    "mem_bytes (memory s3) (rbuf_addr e) (unat (32 :: u32)) = take n motd @ drop n (mem_bytes (memory s1) (rbuf_addr e) (unat (32 :: u32)))"
    "?sc SYS_CLOSE fd 0 0 s3 = Some (0, s4)" "s4 = s3\<lparr>files := files s1\<rparr>" "s3 = s1\<lparr>memory := memory s3, files := files s3\<rparr>"
    using do_syscall_session [OF fs(1,3) l0 assms(3,4) pre, of "dev e" "caller e"] by blast
  have n: "n = 11" using r(4) literal_lengths(3) by simp
  let ?s5 = "s3\<lparr>memory := store8 (memory s3) (rbuf_addr e + 11) 0\<rparr>"
  have b: "unat (rbuf_addr e) + 32 \<le> 2 ^ 32" using assms(4) by (simp add: slice_ok_def)
  have "mem_bytes (memory s3) (rbuf_addr e) 32 = motd @ drop 11 (mem_bytes (memory s1) (rbuf_addr e) 32)"
    using r(5) n literal_lengths(3) by (simp add: u9)
  from motd_compares [OF b this]
  have sc: "strcmp (mem_bytes (memory ?s5) (rbuf_addr e) 32) (bytes ''Munux v0.4'' @ [10, 0]) = Some 0" by simp
  have c: "?sc SYS_CLOSE fd 0 0 ?s5 = Some (0, ?s5\<lparr>files := files s1\<rparr>)"
    using do_syscall_close_memory [of "dev e" "caller e" fd s3 0 "files s1"] r(6,7) by simp
  let ?s6 = "?s5\<lparr>files := files s1\<rparr>"
  obtain s7 where s7: "klog (dev e) (bytes ''[sys] syscalls (int 0x80): OK'' @ [10, 0]) ?s6 = Some s7" "stays ?s6 s7" "mm s7 = mm ?s6"
    using klog_stays [OF assms(1), of "bytes ''[sys] syscalls (int 0x80): OK'' @ [10, 0]" ?s6] by (auto simp: bytes_def)
  have sn: "sint (11 :: u32) = 11" using sint_count [of 11] by simp
  have "syscall_selfcheck e s = Some (Inr s7)"
    using s1(1) u r(1-3) sc c s7(1) n sn by (simp add: syscall_selfcheck_def literal_lengths Let_def)
  moreover have "keyboard s3 = keyboard s1" "irq_handlers s3 = irq_handlers s1" "timer_ticks s3 = timer_ticks s1" "mm s3 = mm s1"
      "sector_cache s3 = sector_cache s1"
    using arg_cong [OF r(8), of keyboard] arg_cong [OF r(8), of irq_handlers] arg_cong [OF r(8), of timer_ticks]
      arg_cong [OF r(8), of mm] arg_cong [OF r(8), of sector_cache] by simp_all
  ultimately show ?thesis using s7(2,3) s1(2,3) assms(7) by (auto simp: stays_def)
qed

lemma disk_tests_absent:
  assumes "uart_ready (dev e)" and "\<And>h. dev_inb (dev e) h 0x1F7 \<in> {0x00, 0xFF}"
  shows "\<exists>s'. disk_tests e s = Some (Inr s') \<and> stays s s' \<and> mm s' = mm s"
proof -
  have "fst (disk_present (dev e) h) = 0" for h
    using assms(2) [of "io_wait (outb ATA_PRIMARY_DRIVE 0xA0 h)"] by (auto simp: disk_present_def inb_def Let_def)
  then obtain h where h: "disk_present (dev e) (disk_init (ports s)) = (0, h)" by (metis prod.collapse)
  let ?s = "s\<lparr>ports := h\<rparr>" and ?m = "bytes ''[ext2] sem disco anexado '' @ [0xE2, 0x80, 0x94] @ bytes '' pulado'' @ [10, 0]"
  obtain s' where "klog (dev e) ?m ?s = Some s'" "stays ?s s'" "mm s' = mm s"
    using klog_stays [OF assms(1), of ?m ?s] by (auto simp: bytes_def)
  then show ?thesis using h by (auto simp: disk_tests_def stays_def)
qed

text \<open>Either no disk answers, or one that holds an image with the files the self test looks for.\<close>

definition disk_ok :: "device \<Rightarrow> bool" where
  "disk_ok d \<longleftrightarrow> (\<forall>h. dev_inb d h 0x1F7 \<in> {0x00, 0xFF}) \<or>
     (\<forall>h. dev_inb d h 0x1F7 \<notin> {0x00, 0xFF}) \<and>
     (\<exists>img. holds_image d img \<and> image_ok img \<and> image_passes img \<and> image_reads img + 2 < 2 ^ 32)"

text \<open>With a disk that holds an image, the tests end in the decision on the image.\<close>

abbreviation ext2_failed :: string where
  "ext2_failed \<equiv> ''[ext2] leitura da imagem falhou''"

lemma disk_tests_image:
  assumes u: "uart_ready (dev e)" and p: "\<And>h. dev_inb (dev e) h 0x1F7 \<notin> {0x00, 0xFF}" and c: "sector_cache s = None"
    and img: "holds_image (dev e) img" "is_ext2 img \<Longrightarrow> image_ok img" "image_reads img + 2 < 2 ^ 32"
  obtains s' where "disk_tests e s = run_then (ensure (Some (image_passes img)) ext2_failed s') (\<lambda>s.
      go (klog (dev e) (bytes ''[ext2] montar + ler /hello.txt: OK'' @ [10, 0]) s))"
    and "stays (s\<lparr>sector_cache := sector_cache s'\<rparr>) s'" and "mm s' = mm s"
proof -
  let ?m1 = "bytes ''[bcache] cache de setores (hit/miss): OK'' @ [10, 0]"
  have "fst (disk_present (dev e) h) = 1" for h
    using p [of "io_wait (outb ATA_PRIMARY_DRIVE 0xA0 h)"] by (auto simp: disk_present_def inb_def Let_def)
  then obtain h where h: "disk_present (dev e) (disk_init (ports s)) = (1, h)" by (metis prod.collapse)
  obtain c1 k1 where b: "munux_rs_bcache_selftest (dev e) (None, h) = Some (0, Some c1, h @ k1)" "cache_ok img c1" "accesses (Some c1) = 2"
    by (rule bcache_selftest_ok [of "dev e" img h]) (use img(1) in \<open>simp_all add: holds_image_def\<close>)
  let ?s1 = "s\<lparr>sector_cache := Some c1, ports := h @ k1\<rparr>"
  obtain s2 where s2: "klog (dev e) ?m1 ?s1 = Some s2" "stays ?s1 s2" "mm s2 = mm s"
    using klog_stays [OF u, of ?m1 ?s1] by (auto simp: bytes_def)
  have sc: "sector_cache s2 = Some c1" using s2(2) by (simp add: stays_def)
  obtain c2 k2 where e: "ext2_selftest (dev e) (Some c1, ports s2) = Some (image_passes img, c2, ports s2 @ k2)"
    by (rule yieldsE [OF ext2_selftest_image [OF img(1,2)], of "Some c1"]) (use b(2,3) img(3) in auto)
  then have x: "munux_rs_ext2_selftest (dev e) (Some c1, ports s2) = Some (if image_passes img then 0 else 1, c2, ports s2 @ k2)"
    by (simp add: munux_rs_ext2_selftest_def)
  show thesis
    by (rule that [of "s2\<lparr>sector_cache := c2, ports := ports s2 @ k2\<rparr>"])
      (use h b(1) c s2 sc x in \<open>auto simp: disk_tests_def stays_def\<close>)
qed

lemma disk_tests_present:
  assumes "uart_ready (dev e)" and "\<And>h. dev_inb (dev e) h 0x1F7 \<notin> {0x00, 0xFF}" and "sector_cache s = None"
    and "holds_image (dev e) img" and "image_ok img" and "image_passes img" and "image_reads img + 2 < 2 ^ 32"
  shows "\<exists>s'. disk_tests e s = Some (Inr s') \<and> stays (s\<lparr>sector_cache := sector_cache s'\<rparr>) s' \<and> mm s' = mm s"
proof -
  let ?m2 = "bytes ''[ext2] montar + ler /hello.txt: OK'' @ [10, 0]"
  obtain s1 where s1: "disk_tests e s = run_then (ensure (Some (image_passes img)) ext2_failed s1) (\<lambda>s. go (klog (dev e) ?m2 s))"
    "stays (s\<lparr>sector_cache := sector_cache s1\<rparr>) s1" "mm s1 = mm s"
    by (rule disk_tests_image [OF assms(1-4,5,7)]) (rule that)
  obtain s2 where "klog (dev e) ?m2 s1 = Some s2" "stays s1 s2" "mm s2 = mm s1"
    using klog_stays [OF assms(1), of ?m2 s1] by (auto simp: bytes_def)
  then show ?thesis using s1 assms(6) by (auto simp: stays_def)
qed

lemma panic_stops: "length msg < 2 ^ 31 \<Longrightarrow> \<exists>t. (panic msg s :: kernel boot) = Some (Inl t) \<and> kernel_panic (Some (cstr msg)) (vga s) = Some t"
  using kernel_panic_total [of msg "vga s"] by (auto simp: panic_def)

lemma disk_tests_reject:
  assumes "uart_ready (dev e)" and "\<And>h. dev_inb (dev e) h 0x1F7 \<notin> {0x00, 0xFF}" and "sector_cache s = None"
    and "holds_image (dev e) img" and "is_ext2 img \<Longrightarrow> image_ok img" and "\<not> image_passes img" and "image_reads img + 2 < 2 ^ 32"
  shows "\<exists>v t. disk_tests e s = Some (Inl t) \<and> kernel_panic (Some (cstr ext2_failed)) v = Some t"
proof -
  obtain s1 where "disk_tests e s = run_then (ensure (Some (image_passes img)) ext2_failed s1) (\<lambda>s.
      go (klog (dev e) (bytes ''[ext2] montar + ler /hello.txt: OK'' @ [10, 0]) s))"
    by (rule disk_tests_image [OF assms(1-5,7)])
  then show ?thesis using assms(6) panic_stops [of ext2_failed s1] by (auto simp: ensure_def)
qed

lemma disk_tests_pass:
  assumes "uart_ready (dev e)" and "disk_ok (dev e)" and "sector_cache s = None"
  shows "\<exists>s'. disk_tests e s = Some (Inr s') \<and> stays (s\<lparr>sector_cache := sector_cache s'\<rparr>) s' \<and> mm s' = mm s"
  using assms(2) unfolding disk_ok_def
proof
  assume "\<forall>h. dev_inb (dev e) h 0x1F7 \<in> {0x00, 0xFF}"
  then show ?thesis using disk_tests_absent [OF assms(1), of s] by (auto simp: stays_def)
next
  assume "(\<forall>h. dev_inb (dev e) h 0x1F7 \<notin> {0x00, 0xFF}) \<and>
     (\<exists>img. holds_image (dev e) img \<and> image_ok img \<and> image_passes img \<and> image_reads img + 2 < 2 ^ 32)"
  then show ?thesis using disk_tests_present [OF assms(1) _ assms(3)] by blast
qed

lemma run_then_assoc: "run_then (run_then r f) g = run_then r (\<lambda>x. run_then (f x) g)"
  by (simp add: run_then_def split: option.splits sum.splits)

text \<open>From the reset up to the heap: the screen, the serial port, the interrupt table, the memory.\<close>

lemma memory_stages:
  assumes "uart_ready (dev e)" and "\<not> heap_locked (mm s0)"
  obtains s n s' where "screen_ops welcome_ops (s0\<lparr>vga := terminal_clear (vga s0), ports := snd (serial_init (dev e) COM1 (ports s0))\<rparr>) = Some s"
    and "detect_memory (dev e) magic mb (s\<lparr>idt_table := fst (idt_init (stubs e) (idt_addr e) (idt_table s, ports s)),
           ports := snd (idt_init (stubs e) (idt_addr e) (idt_table s, ports s))\<rparr>) = Some (n, s')"
    and "unat n = usable_memory magic mb (memory s0)" and "stays s0 s'" and "mm s' = mm s0"
proof -
  let ?s = "s0\<lparr>vga := terminal_clear (vga s0), ports := snd (serial_init (dev e) COM1 (ports s0))\<rparr>"
  obtain t where t: "screen_ops welcome_ops ?s = Some (?s\<lparr>vga := t\<rparr>)"
    using screen_ops_total [of welcome_ops ?s] by (auto simp: welcome_ops_def nl_def)
  let ?t = "?s\<lparr>vga := t\<rparr>"
  let ?i = "idt_init (stubs e) (idt_addr e) (idt_table ?t, ports ?t)"
  let ?u = "?t\<lparr>idt_table := fst ?i, ports := snd ?i\<rparr>"
  obtain n s' cs where d: "detect_memory (dev e) magic mb ?u = Some (n, s')" "emitted cs ?u s'" "unat n = usable_memory magic mb (memory ?u)"
    using detect_memory_spec [OF assms(1)] by metis
  have m: "memory ?u = memory s0" by simp
  have "stays s0 ?u" "mm ?u = mm s0" by (simp_all add: stays_def)
  moreover have "stays ?u s'" "mm s' = mm ?u" using emitted_stays [OF d(2)] by simp_all
  ultimately have "stays s0 s'" "mm s' = mm s0" using stays_trans by simp_all
  with that [OF t d(1)] show thesis using d(3) m by simp
qed

lemma usable_memory_min: "2 ^ 25 \<le> usable_memory magic mb m"
  by (simp add: usable_memory_def)

lemma fresh_heap_eflags [simp]: "fresh_heap (m\<lparr>eflags := v\<rparr>) \<longleftrightarrow> fresh_heap m"
  by (simp add: heap_shows_def)

text \<open>The hypotheses on the machine and on the state at reset: no scancode before the interrupts are on, the
  string literal and the arrays of the self test are in addressable memory below the heap.\<close>

definition machine_ok :: "boot_env \<Rightarrow> kernel \<Rightarrow> bool" where
  "machine_ok e s0 \<longleftrightarrow> \<not> heap_locked (mm s0) \<and> sector_cache s0 = None \<and> length (keyboard_buffer (keyboard s0)) = 256 \<and> \<not> kbd_extended (keyboard s0) \<and>
     length (line_buffer e) = 128 \<and> msg_addr e \<noteq> 0 \<and> slice_ok (path_addr e) 9 \<and> slice_ok (rbuf_addr e) 32 \<and>
     unat (path_addr e) + 9 \<le> 0xC0000000 \<and> mem_bytes (memory s0) (path_addr e) 9 = motd_path"

lemma tests_pass:
  assumes "uart_ready (dev e)" and "irq0 e i" and "i < 500000000" and "machine_ok e s0" and "stays s0 s1" and "mm s1 = m"
  shows "\<exists>s'. run_then (drivers_init e s1) (\<lambda>s. run_then (boot_selfcheck e s) (\<lambda>s. run_then (libk_selfcheck (dev e) s) (\<lambda>s.
      run_then (vfs_init e s) (syscall_selfcheck e)))) = Some (Inr s') \<and>
    files s' = default_files \<and> timer_ticks s' = 1 \<and> keyboard s' = fst (keyboard_init (keyboard s0, irq_handlers s0)) \<and>
    irq_handlers s' = (irq_handlers s0)(32 := Some Timer_callback, 33 := Some Keyboard_handler) \<and>
    mm s' = m\<lparr>eflags := eflags m OR 0x200\<rparr> \<and> sector_cache s' = None"
proof -
  note ok = assms(4) [unfolded machine_ok_def]
  note st = assms(5) [unfolded stays_def]
  obtain s2 where s2: "drivers_init e s1 = Some (Inr s2)" "timer_ticks s2 = 0" "keyboard s2 = fst (keyboard_init (keyboard s1, irq_handlers s1))"
    "irq_handlers s2 = (irq_handlers s1)(32 := Some Timer_callback, 33 := Some Keyboard_handler)"
    "mm s2 = (mm s1)\<lparr>eflags := eflags (mm s1) OR 0x200\<rparr>" "\<forall>x. unat x < 0xC0000000 \<longrightarrow> memory s2 x = memory s1 x"
    "sector_cache s2 = sector_cache s1"
    using drivers_init_ready [OF assms(1), of s1] by blast
  obtain s3 where s3: "boot_selfcheck e s2 = Some (Inr s3)" "timer_ticks s3 = 1" "stays (s2\<lparr>timer_ticks := 1\<rparr>) s3" "mm s3 = mm s2"
    using boot_selfcheck_passes [OF assms(1-3) s2(2)] by blast
  obtain s4 where s4: "libk_selfcheck (dev e) s3 = Some (Inr s4)" "stays s3 s4" "mm s4 = mm s3"
    using libk_selfcheck_passes [OF assms(1)] by blast
  obtain s5 where s5: "vfs_init e s4 = Some (Inr s5)" "files s5 = munux_rs_vfs_init (files s5)" "stays (s4\<lparr>files := files s5\<rparr>) s5" "mm s5 = mm s4"
    using vfs_init_ready [OF assms(1)] by blast
  have low: "\<forall>x. unat x < 0xC0000000 \<longrightarrow> memory s5 x = memory s0 x"
    using st s2(6) s3(3) s4(2) s5(3) by (simp add: stays_def)
  have p: "mem_bytes (memory s5) (path_addr e) 9 = motd_path" using mem_bytes_low [OF low, of "path_addr e" 9] ok by simp
  have f: "files s5 = default_files" using s5(2) default_files_eq by metis
  obtain s6 where s6: "syscall_selfcheck e s5 = Some (Inr s6)" "files s6 = default_files" "keyboard s6 = keyboard s5"
    "irq_handlers s6 = irq_handlers s5" "timer_ticks s6 = timer_ticks s5" "mm s6 = mm s5"
    "sector_cache s6 = sector_cache s5"
    using syscall_selfcheck_passes [OF assms(1) _ _ _ p _ f] ok by blast
  have "timer_ticks s5 = 1" "keyboard s5 = keyboard s2" "irq_handlers s5 = irq_handlers s2" "mm s5 = mm s2" "sector_cache s5 = sector_cache s2"
    using s3 s4(2,3) s5(3,4) by (simp_all add: stays_def)
  moreover have "keyboard s2 = fst (keyboard_init (keyboard s0, irq_handlers s0))" "irq_handlers s1 = irq_handlers s0"
      "sector_cache s2 = None"
    using s2(3,7) st ok by simp_all
  ultimately show ?thesis using s2(1,4,5) s3(1) s4(1) s5(1) s6 assms(6) by simp
qed

text \<open>The start-up up to the drivers, up to the tests of the disk, and what follows from there.\<close>

definition from_disk_tests :: "boot_env \<Rightarrow> nat \<Rightarrow> kernel \<Rightarrow> kernel boot" where
  "from_disk_tests e n s = run_then (disk_tests e s) (\<lambda>s.
     run_then (go (shell_run n (dev e) (keys e, line_buffer e, s))) (\<lambda>(codes, line, s). Some (Inr s)))"

definition from_drivers :: "boot_env \<Rightarrow> nat \<Rightarrow> kernel \<Rightarrow> kernel boot" where
  "from_drivers e n s = run_then (drivers_init e s) (\<lambda>s. run_then (boot_selfcheck e s) (\<lambda>s. run_then (libk_selfcheck (dev e) s) (\<lambda>s.
     run_then (vfs_init e s) (\<lambda>s. run_then (syscall_selfcheck e s) (from_disk_tests e n)))))"

lemma boot_to_drivers:
  assumes "uart_ready (dev e)" and ok: "machine_ok e s0" and "usable_memory magic mb (memory s0) \<le> 2 ^ 27"
  obtains s5 where "\<And>n. kernel_main e n magic mb s0 = from_drivers e n s5" and "stays s0 s5" and "eflags (mm s5) = eflags (mm s0)"
proof -
  from ok have locked: "\<not> heap_locked (mm s0)" by (simp add: machine_ok_def)
  obtain s1 n s2 where s2: "screen_ops welcome_ops (s0\<lparr>vga := terminal_clear (vga s0), ports := snd (serial_init (dev e) COM1 (ports s0))\<rparr>) = Some s1"
    "detect_memory (dev e) magic mb (s1\<lparr>idt_table := fst (idt_init (stubs e) (idt_addr e) (idt_table s1, ports s1)),
        ports := snd (idt_init (stubs e) (idt_addr e) (idt_table s1, ports s1))\<rparr>) = Some (n, s2)"
    "unat n = usable_memory magic mb (memory s0)" "stays s0 s2" "mm s2 = mm s0"
    by (rule memory_stages [OF assms(1) locked])
  have "0x304000 \<le> n" using s2(3) usable_memory_min [of magic mb "memory s0"] by (simp add: word_le_nat_alt)
  then obtain s3 where s3: "memory_init (dev e) n s2 = Some (Inr s3)" "fresh_heap (mm s3)" "stays s2 s3" "eflags (mm s3) = eflags (mm s0)"
    using memory_init_ready [of n s2] locked s2(5) by auto
  obtain s4 where s4: "rust_heap_smoke (dev e) s3 = Some (Inr s4)" "fresh_heap (mm s4)" "stays s3 s4" "eflags (mm s4) = eflags (mm s0)"
    using heap_smoke_passes [OF s3(2)] s3(4) by auto
  obtain t where t: "screen_ops system_info s4 = Some (s4\<lparr>vga := t\<rparr>)"
    using screen_ops_total [of system_info s4] by (auto simp: system_info_def nl_def)
  let ?s5 = "s4\<lparr>vga := t\<rparr>"
  have "stays s4 ?s5" by (simp add: stays_def)
  then have st: "stays s0 ?s5" using s2(4) s3(3) s4(3) stays_trans by blast
  have "kernel_main e n' magic mb s0 = from_drivers e n' ?s5" for n'
    using s2(1,2) s3(1) s4(1) t
    by (simp add: kernel_main_def from_drivers_def from_disk_tests_def [abs_def] Let_def split_beta)
  then show thesis using st s4(4) by (intro that [of ?s5]) simp_all
qed

lemma boot_to_disk:
  assumes "uart_ready (dev e)" and "irq0 e i" and "i < 500000000" and "machine_ok e s0" and "usable_memory magic mb (memory s0) \<le> 2 ^ 27"
  obtains s6 where "\<And>n. kernel_main e n magic mb s0 = from_disk_tests e n s6" and "files s6 = default_files" and "timer_ticks s6 = 1"
    and "keyboard s6 = fst (keyboard_init (keyboard s0, irq_handlers s0))"
    and "irq_handlers s6 = (irq_handlers s0)(32 := Some Timer_callback, 33 := Some Keyboard_handler)"
    and "eflags (mm s6) = eflags (mm s0) OR 0x200" and "sector_cache s6 = None"
proof -
  obtain s5 where s5: "\<And>n. kernel_main e n magic mb s0 = from_drivers e n s5" "stays s0 s5" "eflags (mm s5) = eflags (mm s0)"
    by (rule boot_to_drivers [OF assms(1,4,5)]) (rule that)
  obtain s6 where s6: "run_then (drivers_init e s5) (\<lambda>s. run_then (boot_selfcheck e s) (\<lambda>s. run_then (libk_selfcheck (dev e) s) (\<lambda>s.
      run_then (vfs_init e s) (syscall_selfcheck e)))) = Some (Inr s6)" "files s6 = default_files" "timer_ticks s6 = 1"
    "keyboard s6 = fst (keyboard_init (keyboard s0, irq_handlers s0))"
    "irq_handlers s6 = (irq_handlers s0)(32 := Some Timer_callback, 33 := Some Keyboard_handler)"
    "mm s6 = (mm s5)\<lparr>eflags := eflags (mm s5) OR 0x200\<rparr>" "sector_cache s6 = None"
    using tests_pass [OF assms(1-4) s5(2) refl] by auto
  have "from_drivers e n s5 = from_disk_tests e n s6" for n
    using arg_cong [OF s6(1), of "\<lambda>r. run_then r (from_disk_tests e n)"] by (simp add: run_then_assoc from_drivers_def)
  then show thesis using s5(1,3) s6(2-7) by (intro that [of s6]) simp_all
qed

section \<open>Properties\<close>

text \<open>the memory that \<^verbatim>\<open>detect_memory\<close> reports is 32 MiB without valid Multiboot information, and otherwise the
  first MiB plus the reported upper memory in bytes, reduced modulo \<open>2\<^sup>3\<^sup>2\<close> as the C expression is, and
  at least 32 MiB; it changes nothing but the console. Hence from 4 GiB on the report is too small.\<close>

theorem detect_memory_value:
  fixes s :: kernel
  assumes "uart_ready d"
  shows "\<exists>n s' cs. detect_memory d magic mb s = Some (n, s') \<and> emitted cs s s' \<and> 2 ^ 25 \<le> unat n \<and>
    unat n = (if magic \<noteq> 0x2BADB002 \<or> mb = 0 \<or> load32 (memory s) mb AND 1 = 0 then 2 ^ 25
              else max (2 ^ 25) ((2 ^ 20 + 1024 * unat (load32 (memory s) (mb + 8))) mod 2 ^ 32))"
proof -
  obtain n s' cs where d: "detect_memory d magic mb s = Some (n, s')" "emitted cs s s'" "unat n = usable_memory magic mb (memory s)"
    using detect_memory_spec [OF assms, of magic mb s] by blast
  moreover have "2 ^ 25 \<le> unat n" using d(3) usable_memory_min [of magic mb "memory s"] by simp
  ultimately show ?thesis unfolding usable_memory_def by blast
qed

definition sample_kernel :: kernel where
  "sample_kernel = shell_sys.extend sample_shell \<lparr>mm = rheap_reset, idt_table = \<lparr>idt_entries = [], idt_limit = 0, idt_base = 0, idtr = None\<rparr>,
     irq_handlers = (\<lambda>_. None), sector_cache = None\<rparr>"

text \<open>4 GiB: the first MiB and 4193280 KiB.\<close>

theorem detect_memory_value_witness:
  "\<exists>s'. detect_memory ready_uart 0x2BADB002 0x500
     (sample_kernel\<lparr>memory := (\<lambda>_. 0)(0x500 := 1, 0x509 := 0xFC, 0x50A := 0x3F)\<rparr>) = Some (0x2000000, s')"
proof -
  let ?m = "(\<lambda>_. 0)(0x500 := 1, 0x509 := 0xFC, 0x50A := 0x3F) :: phys_mem"
  have l: "load32 ?m 0x500 AND 1 = 1" "load32 ?m 0x508 = 0x3FFC00" by (simp_all add: load32_def)
  obtain n s' where d: "detect_memory ready_uart 0x2BADB002 0x500 (sample_kernel\<lparr>memory := ?m\<rparr>) = Some (n, s')" "unat n = 2 ^ 25"
    using detect_memory_value [OF ready_uart_ready, of "0x2BADB002" "0x500" "sample_kernel\<lparr>memory := ?m\<rparr>"]
    by (simp add: l del: fun_upd_apply) blast
  have "n = 0x2000000" using d(2) by (simp add: word_unat_eq_iff)
  with d(1) show ?thesis by auto
qed

text \<open>from any state at reset the memory stages of the start-up succeed with every amount of memory from
  0x304000 bytes to 128 MiB, and the self test of the heap after them passes: its blocks do not overlap and keep what is
  written to them, aligned or not, and after its last release the heap is again one free block of the initial
  size. Nothing below the heap changes, no file, handler or key either.\<close>

theorem boot_memory_selftest:
  assumes "0x304000 \<le> n" and "n \<le> 0x8000000" and "\<not> heap_locked (mm s)"
  shows "\<exists>s'. run_then (memory_init d n s) (rust_heap_smoke d) = Some (Inr s') \<and> eflags (mm s') = eflags (mm s) \<and> stays s s' \<and>
    HEAP (mm s') = Some \<lparr>head = 0xC0000000, hend = 0xC0100000, hmax = 0xD0000000\<rparr> \<and>
    blocks (mm s') 0xC0000000 = \<lparr>bsize = 0xFFFF4, is_free = 1, bnext = 0\<rparr>"
proof -
  obtain s1 where s1: "memory_init d n s = Some (Inr s1)" "fresh_heap (mm s1)" "stays s s1" "eflags (mm s1) = eflags (mm s)"
    using memory_init_ready [OF assms(1,3)] by auto
  obtain s2 where "rust_heap_smoke d s1 = Some (Inr s2)" "fresh_heap (mm s2)" "stays s1 s2" "eflags (mm s2) = eflags (mm s1)"
    using heap_smoke_passes [OF s1(2)] by auto
  with s1 stays_trans [of s s1 s2] show ?thesis by (simp add: heap_shows_def)
qed

theorem boot_memory_selftest_witness:
  "\<exists>s'. run_then (memory_init ready_uart 0x2000000 sample_kernel) (rust_heap_smoke ready_uart) = Some (Inr s') \<and> irq_handlers s' = (\<lambda>_. None)"
proof -
  have "\<not> heap_locked (mm sample_kernel)" "irq_handlers sample_kernel = (\<lambda>_. None)"
    by (simp_all add: sample_kernel_def shell_sys.defs rheap_reset_def)
  then show ?thesis using boot_memory_selftest [of "0x2000000" sample_kernel] by (auto simp: stays_def)
qed

text \<open>The way to the shell, on which the theorem on the entry point in \<open>Multiboot\<close> rests.\<close>

lemma kernel_main_boots:
  assumes "uart_ready (dev e)" and "disk_ok (dev e)" and "irq0 e i" and "i < 500000000"
    and "machine_ok e s0" and "usable_memory magic mb (memory s0) \<le> 2 ^ 27"
    and "typed (keys e) (kbd_state kbd_reset, False) = concat (map (\<lambda>cs. cs @ [10]) ls) @ rest"
    and "\<forall>cs \<in> set ls. 10 \<notin> set cs"
  shows "\<exists>s' h k. kernel_main e (length ls) magic mb s0 = Some (Inr s') \<and> ports s' = h @ k \<and>
    writes_to COM1 k = greeting @ concat (map (turn_text 1) ls) \<and> files s' = default_files \<and> timer_ticks s' = 1 \<and>
    irq_handlers s' = (irq_handlers s0)(32 := Some Timer_callback, 33 := Some Keyboard_handler) \<and>
    eflags (mm s') = eflags (mm s0) OR 0x200"
proof -
  note ok = assms(5) [unfolded machine_ok_def]
  obtain s6 where s6: "\<And>n. kernel_main e n magic mb s0 = from_disk_tests e n s6" "files s6 = default_files" "timer_ticks s6 = 1"
    "keyboard s6 = fst (keyboard_init (keyboard s0, irq_handlers s0))"
    "irq_handlers s6 = (irq_handlers s0)(32 := Some Timer_callback, 33 := Some Keyboard_handler)"
    "eflags (mm s6) = eflags (mm s0) OR 0x200" "sector_cache s6 = None"
    by (rule boot_to_disk [OF assms(1,3-6)]) (rule that)
  obtain s7 where s7: "disk_tests e s6 = Some (Inr s7)" "stays (s6\<lparr>sector_cache := sector_cache s7\<rparr>) s7" "mm s7 = mm s6"
    using disk_tests_pass [OF assms(1,2) s6(7)] by blast
  have k: "keyboard s7 = (keyboard s0)\<lparr>buffer_read_pos := 0, buffer_write_pos := 0, kbd_state := kbd_state kbd_reset\<rparr>"
    using s7(2) s6(4) by (simp add: stays_def keyboard_init_def kbd_reset_def)
  have w: "ring_wf (keyboard s7)" "waiting (keys e) s7 = concat (map (\<lambda>cs. cs @ [10]) ls) @ rest"
    using assms(7) ok unfolding waiting_def k by (simp_all add: ring_wf_def ring_contents_def ring_count_def)
  obtain codes' line' s8 where s8: "shell_run (length ls) (dev e) (keys e, line_buffer e, s7) = Some (codes', line', s8)"
    "serial_text (greeting @ concat (map (turn_text (timer_ticks s7)) ls)) s7 s8"
    using shell_run_spec [OF assms(1) w(1) _ w(2) assms(8)] ok by blast
  have tk: "timer_ticks s7 = 1" using s7(2) s6(3) by (simp add: stays_def)
  have "kernel_main e (length ls) magic mb s0 = Some (Inr s8)" using s7(1) s8(1) by (simp add: s6(1) from_disk_tests_def)
  moreover obtain kk v kd where "s8 = s7\<lparr>vga := v, ports := ports s7 @ kk, keyboard := kd\<rparr>" "writes_to COM1 kk = greeting @ concat (map (turn_text 1) ls)"
    using s8(2) unfolding serial_text_def tk by blast
  moreover have "files s7 = default_files" "irq_handlers s7 = irq_handlers s6" using s7(2) s6(2) by (simp_all add: stays_def)
  ultimately show ?thesis using s6(5,6) s7(3) tk by auto
qed

definition sample_env :: boot_env where
  "sample_env = \<lparr>dev = image_disk hello_image,
     stubs = (\<lambda>i. word_of_nat (0x100000 + 16 * i)), idt_addr = 0x110000, irq0 = (\<lambda>i. i = 1000), caller = idle_frame,
     msg_addr = 0x3000, path_addr = 0x1000, rbuf_addr = 0x2000, keys = [0x1E, 0x1C], line_buffer = replicate 128 0\<rparr>"

lemma sample_boot:
  "uart_ready (image_disk img)" "dev_inb (image_disk img) h 0x1F7 \<notin> {0x00, 0xFF}"
  "machine_ok (sample_env\<lparr>dev := d, irq0 := q\<rparr>) sample_kernel" "machine_ok sample_env sample_kernel"
  "usable_memory 0 0 (memory sample_kernel) \<le> 2 ^ 27"
proof -
  show "uart_ready (image_disk img)" by (simp add: becomes_ready_def image_disk_def)
  show "dev_inb (image_disk img) h 0x1F7 \<notin> {0x00, 0xFF}" by (simp add: image_disk_def)
  have k: "keyboard sample_kernel = kbd_reset" "mm sample_kernel = rheap_reset" "memory sample_kernel = memory sample_sys"
      "sector_cache sample_kernel = None"
    by (simp_all add: sample_kernel_def sample_shell_def shell_sys.defs sys.defs)
  show "machine_ok (sample_env\<lparr>dev := d, irq0 := q\<rparr>) sample_kernel" "machine_ok sample_env sample_kernel"
    unfolding machine_ok_def k by (simp_all add: sample_env_def kbd_reset_def rheap_reset_def slice_ok_def sample_path motd_path_def)
  show "usable_memory 0 0 (memory sample_kernel) \<le> 2 ^ 27" by (simp add: usable_memory_def)
qed

text \<open>C22: the start-up stops with its message on the panic screen when a self test finds a fault: when no interrupt of the timer
  arrives during the waiting loop, and when a disk is there whose image does not hold the test files.\<close>

theorem kernel_main_panics:
  assumes "uart_ready (dev e)" and "machine_ok e s0" and "usable_memory magic mb (memory s0) \<le> 2 ^ 27"
  shows "((\<forall>i < 500000000. \<not> irq0 e i) \<longrightarrow>
      (\<exists>v t. kernel_main e n magic mb s0 = Some (Inl t) \<and> kernel_panic (Some (cstr ''[chk] timer nao avancou: IRQ/PIC/sti falhou'')) v = Some t)) \<and>
    ((\<exists>i < 500000000. irq0 e i) \<and> (\<forall>h. dev_inb (dev e) h 0x1F7 \<notin> {0x00, 0xFF}) \<and> holds_image (dev e) img \<and>
     (is_ext2 img \<longrightarrow> image_ok img) \<and> \<not> image_passes img \<and> image_reads img + 2 < 2 ^ 32 \<longrightarrow>
      (\<exists>v t. kernel_main e n magic mb s0 = Some (Inl t) \<and> kernel_panic (Some (cstr ''[ext2] leitura da imagem falhou'')) v = Some t))"
proof (intro conjI impI)
  assume dead: "\<forall>i < 500000000. \<not> irq0 e i"
  obtain s5 where s5: "\<And>n. kernel_main e n magic mb s0 = from_drivers e n s5"
    by (rule boot_to_drivers [OF assms]) (rule that)
  obtain s6 where "drivers_init e s5 = Some (Inr s6)" using drivers_init_ready [OF assms(1), of s5] by blast
  moreover obtain s7 where "boot_selfcheck e s6 = panic ''[chk] timer nao avancou: IRQ/PIC/sti falhou'' s7"
    using boot_selfcheck_fails [OF assms(1) dead] by blast
  ultimately show "\<exists>v t. kernel_main e n magic mb s0 = Some (Inl t) \<and>
      kernel_panic (Some (cstr ''[chk] timer nao avancou: IRQ/PIC/sti falhou'')) v = Some t"
    using panic_stops [of "''[chk] timer nao avancou: IRQ/PIC/sti falhou''" s7] by (auto simp: s5 from_drivers_def)
next
  assume d: "(\<exists>i < 500000000. irq0 e i) \<and> (\<forall>h. dev_inb (dev e) h 0x1F7 \<notin> {0x00, 0xFF}) \<and> holds_image (dev e) img \<and>
     (is_ext2 img \<longrightarrow> image_ok img) \<and> \<not> image_passes img \<and> image_reads img + 2 < 2 ^ 32"
  then obtain i where "irq0 e i" "i < 500000000" by blast
  then obtain s6 where s6: "\<And>n. kernel_main e n magic mb s0 = from_disk_tests e n s6" "sector_cache s6 = None"
    by (rule boot_to_disk [OF assms(1) _ _ assms(2,3)]) (rule that)
  show "\<exists>v t. kernel_main e n magic mb s0 = Some (Inl t) \<and> kernel_panic (Some (cstr ''[ext2] leitura da imagem falhou'')) v = Some t"
    using disk_tests_reject [OF assms(1) _ s6(2), of img] d by (auto simp: s6(1) from_disk_tests_def)
qed

theorem kernel_main_panics_witness:
  "(\<exists>t. kernel_main (sample_env\<lparr>dev := image_disk (image_of []), irq0 := (\<lambda>_. False)\<rparr>) 1 0 0 sample_kernel = Some (Inl t)) \<and>
   (\<exists>t. kernel_main (sample_env\<lparr>dev := image_disk (image_of []), irq0 := (\<lambda>i. i = 7)\<rparr>) 1 0 0 sample_kernel = Some (Inl t))"
proof -
  let ?e = "\<lambda>q. sample_env\<lparr>dev := image_disk (image_of []), irq0 := q\<rparr>"
  have u: "uart_ready (dev (?e q))" for q using sample_boot(1) by simp
  have z: "\<not> is_ext2 (image_of [])" by (simp add: is_ext2_def le16_def byte_at_image_of)
  then have r: "image_reads (image_of []) + 2 < 2 ^ 32" "\<not> image_passes (image_of [])"
    by (simp_all add: image_reads_def image_passes_def)
  have p: "\<forall>h. dev_inb (dev (?e q)) h 0x1F7 \<notin> {0x00, 0xFF}" for q using sample_boot(2) by simp
  have h: "holds_image (dev (?e q)) (image_of [])" for q using image_disk_holds by simp
  have i: "\<exists>j < 500000000. irq0 (?e (\<lambda>i. i = 7)) j" by (intro exI [of _ 7]) simp
  have f: "\<forall>j < 500000000. \<not> irq0 (?e (\<lambda>_. False)) j" by simp
  note k = kernel_main_panics [OF u sample_boot(3,5), where n = 1 and img = "image_of []"]
  show ?thesis using k [of "\<lambda>_. False"] k [of "\<lambda>i. i = 7"] f i p h z r by blast
qed

end
