(* ===== verification/Stubs.thy ===== *)
theory Stubs
  imports Syscall Interrupts
begin

text \<open>
  The interrupt stubs of \<^verbatim>\<open>interrupt.asm\<close>: the words that processor and stub push, the frame the C handler
  is given, and the way back. The machine holds the registers and the stack above \<^verbatim>\<open>esp\<close> as the list of its words;
  popping an empty list, that is reading above the memory in use, is \<^const>\<open>None\<close>. A C handler leaves any value in
  \<^verbatim>\<open>eax\<close>, \<^verbatim>\<open>ecx\<close> and \<^verbatim>\<open>edx\<close> (the parameter \<open>junk\<close>). The properties show that the stub gives the
  dispatcher of \<open>Syscall\<close> the frame that \<open>do_syscall\<close> builds, and that a hardware interrupt is invisible to the program
  it interrupts, up to the segment registers.
\<close>

section \<open>Machine\<close>

record machine =
  m_edi :: u32
  m_esi :: u32
  m_ebp :: u32
  m_esp :: u32
  m_ebx :: u32
  m_edx :: u32
  m_ecx :: u32
  m_eax :: u32
  m_eip :: u32
  m_cs :: u32
  m_eflags :: u32
  m_ds :: u16
  m_es :: u16
  m_fs :: u16
  m_gs :: u16
  stack :: "u32 list"

definition push :: "u32 \<Rightarrow> machine \<Rightarrow> machine" where
  "push v m = m\<lparr>m_esp := m_esp m - 4, stack := v # stack m\<rparr>"

definition pop :: "machine \<Rightarrow> (u32 \<times> machine) option" where
  "pop m = (case stack m of [] \<Rightarrow> None | v # vs \<Rightarrow> Some (v, m\<lparr>m_esp := m_esp m + 4, stack := vs\<rparr>))"

text \<open>\<^verbatim>\<open>add esp, 4 * n\<close>\<close>

definition discard :: "nat \<Rightarrow> machine \<Rightarrow> machine" where
  "discard n m = m\<lparr>m_esp := m_esp m + 4 * word_of_nat n, stack := drop n (stack m)\<rparr>"

definition pusha :: "machine \<Rightarrow> machine" where
  "pusha m = push (m_edi m) (push (m_esi m) (push (m_ebp m) (push (m_esp m)
     (push (m_ebx m) (push (m_edx m) (push (m_ecx m) (push (m_eax m) m)))))))"

text \<open>\<^verbatim>\<open>popa\<close> skips the saved \<^verbatim>\<open>esp\<close>.\<close>

definition popa :: "machine \<Rightarrow> machine option" where
  "popa m =
     do {
       (v, m) \<leftarrow> pop m; let m = m\<lparr>m_edi := v\<rparr>;
       (v, m) \<leftarrow> pop m; let m = m\<lparr>m_esi := v\<rparr>;
       (v, m) \<leftarrow> pop m; let m = m\<lparr>m_ebp := v\<rparr>;
       (v, m) \<leftarrow> pop m;
       (v, m) \<leftarrow> pop m; let m = m\<lparr>m_ebx := v\<rparr>;
       (v, m) \<leftarrow> pop m; let m = m\<lparr>m_edx := v\<rparr>;
       (v, m) \<leftarrow> pop m; let m = m\<lparr>m_ecx := v\<rparr>;
       (v, m) \<leftarrow> pop m; Some (m\<lparr>m_eax := v\<rparr>)
     }"

definition set_ax :: "u16 \<Rightarrow> machine \<Rightarrow> machine" where
  "set_ax v m = m\<lparr>m_eax := (m_eax m AND 0xFFFF0000) OR ucast v\<rparr>"

definition load_segments :: "machine \<Rightarrow> machine" where
  "load_segments m = (let v = ucast (m_eax m) in m\<lparr>m_ds := v, m_es := v, m_fs := v, m_gs := v\<rparr>)"

text \<open>Entry through an interrupt gate of the same privilege level: the processor saves where it was and clears
  the interrupt flag; and \<^verbatim>\<open>iret\<close>.\<close>

definition enter :: "machine \<Rightarrow> machine" where
  "enter m = (push (m_eip m) (push (m_cs m) (push (m_eflags m) m)))\<lparr>m_eflags := m_eflags m AND NOT 0x200\<rparr>"

definition iret :: "machine \<Rightarrow> machine option" where
  "iret m =
     do {
       (v, m) \<leftarrow> pop m; let m = m\<lparr>m_eip := v\<rparr>;
       (v, m) \<leftarrow> pop m; let m = m\<lparr>m_cs := v\<rparr>;
       (v, m) \<leftarrow> pop m; Some (m\<lparr>m_eflags := v\<rparr>)
     }"

section \<open>The common stub\<close>

text \<open>The structure \<^verbatim>\<open>registers_t\<close> at the top of the stack, read and stored.\<close>

definition frame_of :: "u32 list \<Rightarrow> (registers_t \<times> u32 list) option" where
  "frame_of ws =
     (if length ws < 16 then None
      else Some (\<lparr>reg_ds = ws ! 0, reg_edi = ws ! 1, reg_esi = ws ! 2, reg_ebp = ws ! 3, reg_esp = ws ! 4, reg_ebx = ws ! 5,
             reg_edx = ws ! 6, reg_ecx = ws ! 7, reg_eax = ws ! 8, int_no = ws ! 9, err_code = ws ! 10, reg_eip = ws ! 11,
             reg_cs = ws ! 12, reg_eflags = ws ! 13, reg_useresp = ws ! 14, reg_ss = ws ! 15\<rparr>, drop 16 ws))"

definition frame_words :: "registers_t \<Rightarrow> u32 list" where
  "frame_words r = [reg_ds r, reg_edi r, reg_esi r, reg_ebp r, reg_esp r, reg_ebx r, reg_edx r, reg_ecx r, reg_eax r, int_no r,
     err_code r, reg_eip r, reg_cs r, reg_eflags r, reg_useresp r, reg_ss r]"

text \<open>Up to the call: the saved registers, the data segment below them, and the pointer to the frame as argument.\<close>

definition stub_save :: "machine \<Rightarrow> machine" where
  "stub_save m =
     (let m = pusha m;
          m = set_ax (m_ds m) m;
          m = push (m_eax m) m;
          m = load_segments (set_ax 0x10 m)
      in push (m_esp m) m)"

text \<open>The three common stubs differ in the handler they call; the call itself pushes and pops the return address.\<close>

definition common_stub ::
    "(registers_t \<times> 's \<Rightarrow> (registers_t \<times> 's) option) \<Rightarrow> u32 \<times> u32 \<times> u32 \<Rightarrow> machine \<times> 's \<Rightarrow> (machine \<times> 's) option" where
  "common_stub handler junk = (\<lambda>(m, s).
     let m = stub_save m
     in do {
       (regs, above) \<leftarrow> frame_of (tl (stack m));
       (regs, s) \<leftarrow> handler (regs, s);
       let m = m\<lparr>stack := hd (stack m) # frame_words regs @ above, m_eax := fst junk, m_ecx := fst (snd junk), m_edx := snd (snd junk)\<rparr>;
       let m = discard 1 m;
       (v, m) \<leftarrow> pop m;
       let m = load_segments (m\<lparr>m_eax := v\<rparr>);
       m \<leftarrow> popa m;
       let m = discard 2 m;
       let m = m\<lparr>m_eflags := m_eflags m OR 0x200\<rparr>;
       m \<leftarrow> iret m;
       Some (m, s)
     })"

section \<open>Entries\<close>

text \<open>\<^verbatim>\<open>isr128\<close> and the entries of the macro \<^verbatim>\<open>IRQ\<close>: the gate, \<^verbatim>\<open>cli\<close>, a zero error code, the vector.\<close>

definition isr128 :: "device \<Rightarrow> u32 \<times> u32 \<times> u32 \<Rightarrow> machine \<times> 'a sys_scheme \<Rightarrow> (machine \<times> 'a sys_scheme) option" where
  "isr128 d junk = (\<lambda>(m, s). common_stub (syscall_handler d) junk (push 0x80 (push 0 (enter m)), s))"

text \<open>\<^verbatim>\<open>push byte\<close> extends the sign of the vector.\<close>

definition irq_entry ::
    "device \<Rightarrow> (isr_t \<Rightarrow> 's \<times> history \<Rightarrow> 's \<times> history) \<Rightarrow> handlers \<Rightarrow> u8 \<Rightarrow> u32 \<times> u32 \<times> u32 \<Rightarrow> machine \<times> 's \<times> history \<Rightarrow>
      (machine \<times> 's \<times> history) option" where
  "irq_entry d run t n junk = (\<lambda>(m, x).
     common_stub (\<lambda>(regs, x). map_option (Pair regs) (irq_handler d run t (int_no regs) x)) junk (push (scast n) (push 0 (enter m)), x))"

text \<open>The exceptions: \<open>code\<close> is the error code if the processor pushes one; the stubs of the macro
  \<^verbatim>\<open>ISR_ERRCODE\<close> rely on it. The handler does not return.\<close>

definition ISR_ERRCODE :: "u8 list" where
  "ISR_ERRCODE = [8, 10, 11, 12, 13, 14, 17, 30]"

definition isr_entry :: "u8 \<Rightarrow> u32 option \<Rightarrow> machine \<times> terminal \<Rightarrow> (registers_t \<times> terminal) option" where
  "isr_entry n code = (\<lambda>(m, t).
     let m = enter m;
         m = (case code of None \<Rightarrow> m | Some c \<Rightarrow> push c m);
         m = (if n \<in> set ISR_ERRCODE then m else push 0 m);
         m = stub_save (push (scast n) m)
     in do {
       (regs, above) \<leftarrow> frame_of (tl (stack m));
       t \<leftarrow> kernel_panic (Some (cstr (isr_handler (int_no regs)))) t;
       Some (regs, t)
     })"

section \<open>Correctness\<close>

lemma pop_Cons [simp]: "stack m = v # vs \<Longrightarrow> pop m = Some (v, m\<lparr>m_esp := m_esp m + 4, stack := vs\<rparr>)"
  by (simp add: pop_def)

lemmas stub_defs = stub_save_def push_def pusha_def popa_def discard_def set_ax_def load_segments_def enter_def iret_def frame_of_def frame_words_def Let_def

lemma ax_low [simp]: "ucast ((x AND 0xFFFF0000) OR ucast v :: u32) = (v :: u16)"
proof (rule bit_word_eqI)
  have m: "(0xFFFF0000 :: u32) = push_bit 16 (mask 16)" by (simp add: mask_numeral push_bit_eq_mult)
  fix n assume "n < LENGTH(16)"
  then show "bit (ucast ((x AND 0xFFFF0000) OR ucast v :: u32) :: u16) n = bit v n"
    unfolding m by (simp add: bit_simps)
qed

text \<open>The frame the handler sees when \<open>m\<close> is interrupted: the machine's registers, the vector, and two words of the
  interrupted stack in the place of a user stack pointer.\<close>

definition saved_frame :: "machine \<Rightarrow> u32 \<Rightarrow> u32 \<Rightarrow> registers_t" where
  "saved_frame m err n = \<lparr>reg_ds = (m_eax m AND 0xFFFF0000) OR ucast (m_ds m), reg_edi = m_edi m, reg_esi = m_esi m, reg_ebp = m_ebp m,
     reg_esp = m_esp m - 20, reg_ebx = m_ebx m, reg_edx = m_edx m, reg_ecx = m_ecx m, reg_eax = m_eax m, int_no = n, err_code = err,
     reg_eip = m_eip m, reg_cs = m_cs m, reg_eflags = m_eflags m, reg_useresp = stack m ! 0, reg_ss = stack m ! 1\<rparr>"

text \<open>What is left of an interrupt in the machine: the result register and the segments.\<close>

definition resumed :: "u32 \<Rightarrow> machine \<Rightarrow> machine" where
  "resumed r m = m\<lparr>m_eax := r, m_es := m_ds m, m_fs := m_ds m, m_gs := m_ds m\<rparr>"

lemma common_stub_spec:
  assumes "2 \<le> length (stack m)"
    and "handler (saved_frame m err n, s) = (case r of None \<Rightarrow> None | Some (v, s') \<Rightarrow> Some ((saved_frame m err n)\<lparr>reg_eax := v\<rparr>, s'))"
  shows "common_stub handler junk (push n (push err (enter m)), s) = map_option (\<lambda>(v, s'). (resumed v m, s')) r"
proof -
  obtain u v ws where st: "stack m = u # v # ws" using assms(1) by (metis Suc_le_length_iff numeral_2_eq_2)
  obtain edi esi ebp esp ebx edx ecx eax eip cs fl ds es fs gs where
    m: "m = \<lparr>m_edi = edi, m_esi = esi, m_ebp = ebp, m_esp = esp, m_ebx = ebx, m_edx = edx, m_ecx = ecx, m_eax = eax, m_eip = eip,
       m_cs = cs, m_eflags = fl, m_ds = ds, m_es = es, m_fs = fs, m_gs = gs, stack = u # v # ws\<rparr>"
    using st by (cases m) simp
  show ?thesis
    using assms(2) unfolding m by (cases r) (auto simp: common_stub_def stub_defs saved_frame_def resumed_def)
qed

lemma isr_entry_frame:
  assumes "2 \<le> length (stack m)" and "code \<noteq> None \<longleftrightarrow> n \<in> set ISR_ERRCODE"
  shows "isr_entry n code (m, t) =
    (let regs = saved_frame m (case code of None \<Rightarrow> 0 | Some c \<Rightarrow> c) (scast n)
     in do { t' \<leftarrow> kernel_panic (Some (cstr (isr_handler (scast n)))) t; Some (regs, t') })"
proof -
  obtain u v ws where st: "stack m = u # v # ws" using assms(1) by (metis Suc_le_length_iff numeral_2_eq_2)
  obtain edi esi ebp esp ebx edx ecx eax eip cs fl ds es fs gs where
    m: "m = \<lparr>m_edi = edi, m_esi = esi, m_ebp = ebp, m_esp = esp, m_ebx = ebx, m_edx = edx, m_ecx = ecx, m_eax = eax, m_eip = eip,
       m_cs = cs, m_eflags = fl, m_ds = ds, m_es = es, m_fs = fs, m_gs = gs, stack = u # v # ws\<rparr>"
    using st by (cases m) simp
  show ?thesis
    using assms(2) unfolding m by (cases code) (auto simp: isr_entry_def stub_defs saved_frame_def)
qed

lemma unat_vector: "unat (ucast n :: u32) = unat n" "unat n < 256" for n :: u8
proof -
  have "unat n < 2 ^ LENGTH(8)" by (rule unsigned_less)
  then show b: "unat n < 256" by simp
  show "unat (ucast n :: u32) = unat n" using b by (simp add: unsigned_ucast_eq take_bit_nat_eq_self)
qed

lemma vector_small:
  fixes n :: u8
  assumes "n < 48"
  shows "scast n = (ucast n :: u32)"
proof (rule bit_word_eqI)
  have "\<not> bit (unat n) 7" using assms by (simp add: bit_iff_odd word_less_nat_alt)
  then have b: "\<not> bit n 7" by (simp add: bit_simps)
  fix k assume "k < LENGTH(32)"
  then show "bit (scast n :: u32) k = bit (ucast n :: u32) k"
    using b bit_imp_le_length [of n k] by (cases "k \<le> 7") (auto simp: bit_simps min_def)
qed

section \<open>Properties\<close>

text \<open>C16: \<^verbatim>\<open>int 0x80\<close> is the call of the dispatcher that \<^verbatim>\<open>do_syscall\<close> stands for. Whatever the handler leaves in the
  scratch registers, the stub hands it the frame with the caller's registers, puts its result into \<^verbatim>\<open>eax\<close>, and gives all
  other registers, the flags, the stack and the place of execution back as they were; only \<^verbatim>\<open>es\<close>, \<^verbatim>\<open>fs\<close> and \<^verbatim>\<open>gs\<close>
  come back with the selector of \<^verbatim>\<open>ds\<close>.\<close>

theorem int80_refines_do_syscall:
  assumes "2 \<le> length (stack m)"
  shows "isr128 d junk (m, s) =
    map_option (\<lambda>(r, s'). (m\<lparr>m_eax := r, m_es := m_ds m, m_fs := m_ds m, m_gs := m_ds m\<rparr>, s'))
      (do_syscall d (saved_frame m 0 0x80) (m_eax m) (m_ebx m) (m_ecx m) (m_edx m) s)"
proof -
  let ?f = "saved_frame m 0 0x80"
  have f: "?f\<lparr>reg_eax := m_eax m, reg_ebx := m_ebx m, reg_ecx := m_ecx m, reg_edx := m_edx m\<rparr> = ?f"
    by (simp add: saved_frame_def)
  have "syscall_handler d (?f, s) =
      (case do_syscall d ?f (m_eax m) (m_ebx m) (m_ecx m) (m_edx m) s of None \<Rightarrow> None | Some (v, s') \<Rightarrow> Some (?f\<lparr>reg_eax := v\<rparr>, s'))"
    unfolding do_syscall_def f by (auto simp: syscall_handler_def split: option.splits prod.splits bind_splits)
  from common_stub_spec [of m "syscall_handler d" 0 "0x80" s, OF assms this, of junk] show ?thesis by (simp add: isr128_def resumed_def)
qed

definition sample_machine :: machine where
  "sample_machine = \<lparr>m_edi = 1, m_esi = 2, m_ebp = 3, m_esp = 0x90000, m_ebx = 0, m_edx = 0, m_ecx = 0, m_eax = 2, m_eip = 0x101234,
     m_cs = 8, m_eflags = 0x202, m_ds = 0x10, m_es = 0x10, m_fs = 0x10, m_gs = 0x10, stack = [5, 6, 7]\<rparr>"

text \<open>The call for the ticks.\<close>

theorem int80_refines_do_syscall_witness:
  "isr128 ready_uart (9, 9, 9) (sample_machine, sample_sys) = Some (sample_machine\<lparr>m_eax := 7\<rparr>, sample_sys)"
proof -
  have "2 \<le> length (stack sample_machine)" by (simp add: sample_machine_def)
  from int80_refines_do_syscall [OF this, of ready_uart "(9, 9, 9)" sample_sys] show ?thesis
    by (simp add: sample_machine_def do_syscall_def syscall_handler_def timer_get_ticks_def sample_sys_def)
qed

text \<open>C17: a hardware interrupt is invisible to the program it interrupts. For each of the sixteen vectors the C dispatcher is called
  once, with the right vector, and afterwards every register, the flags (so the interrupts are on again
  exactly when they were), the stack and the place of execution are as before the interrupt; only \<^verbatim>\<open>es\<close>, \<^verbatim>\<open>fs\<close>
  and \<^verbatim>\<open>gs\<close> come back with the selector of \<^verbatim>\<open>ds\<close>.\<close>

theorem irq_entry_transparent:
  assumes "2 \<le> length (stack m)" and "32 \<le> n" and "n < 48"
  shows "\<exists>x'. irq_handler d run t (ucast n) x = Some x' \<and>
    irq_entry d run t n junk (m, x) = Some (m\<lparr>m_es := m_ds m, m_fs := m_ds m, m_gs := m_ds m\<rparr>, x')"
proof -
  have "unat (ucast n :: u32) < 256" by (simp add: unat_vector)
  moreover have "irq_dispatch run t v y \<noteq> None" if "unat v < 256" for v y using that by (simp add: irq_dispatch_def Let_def split_def)
  ultimately have "irq_handler d run t (ucast n) x \<noteq> None"
    by (cases x) (simp add: irq_handler_def Let_def split_def del: not_None_eq)
  then obtain x' where x': "irq_handler d run t (ucast n) x = Some x'" by blast
  let ?f = "saved_frame m 0 (scast n)" and ?h = "\<lambda>(regs, x). map_option (Pair regs) (irq_handler d run t (int_no regs) x)"
  have f: "?f\<lparr>reg_eax := m_eax m\<rparr> = ?f" "int_no ?f = ucast n" using vector_small [OF assms(3)] by (simp_all add: saved_frame_def)
  then have "?h (?f, x) = (case Some (m_eax m, x') of None \<Rightarrow> None | Some (v, s') \<Rightarrow> Some (?f\<lparr>reg_eax := v\<rparr>, s'))"
    using x' by simp
  from common_stub_spec [of m ?h 0 "scast n" x, OF assms(1) this, of junk] x'
  show ?thesis by (simp add: irq_entry_def resumed_def)
qed

theorem irq_entry_transparent_witness:
  "irq_entry quiet_device (\<lambda>f (n, h). (Suc n, h)) ((\<lambda>_. None)(32 := Some Timer_callback)) 32 (9, 9, 9) (sample_machine, 0, []) =
     Some (sample_machine, 1, [Outb 0x20 0x20])"
proof -
  have "2 \<le> length (stack sample_machine)" by (simp add: sample_machine_def)
  from irq_entry_transparent [OF this, of 32 quiet_device "\<lambda>f (n, h). (Suc n, h)" "(\<lambda>_. None)(32 := Some Timer_callback)" "(0, [])" "(9, 9, 9)"]
  show ?thesis by (simp add: irq_handler_def irq_dispatch_def outb_def sample_machine_def)
qed

text \<open>for every exception whose error code the processor pushes exactly when its stub expects one, the handler stops the
  kernel with the message of that exception, and the frame it is given holds the registers at the exception, the vector and
  the error code (0 without one).\<close>

theorem isr_entry_reports:
  assumes "2 \<le> length (stack m)" and "n < 32" and "code \<noteq> None \<longleftrightarrow> n \<in> set ISR_ERRCODE"
  shows "\<exists>t'. kernel_panic (Some (cstr (exception_messages ! unat n))) t = Some t' \<and>
    isr_entry n code (m, t) = Some (saved_frame m (case code of None \<Rightarrow> 0 | Some c \<Rightarrow> c) (ucast n), t')"
proof -
  have n: "unat n < 32" using assms(2) by (simp add: word_less_nat_alt)
  have "n < 48" using n by (simp add: word_less_nat_alt)
  note v = vector_small [OF this]
  note u = unat_vector [of n]
  have l: "length exception_messages = 32" by (simp add: exception_messages_def)
  then have i: "isr_handler (ucast n) = exception_messages ! unat n" using n u by (simp add: isr_handler_def)
  have "list_all (\<lambda>msg. length msg < 100) exception_messages" by code_simp
  then have "length (exception_messages ! unat n) < 100" using n l by (simp add: list_all_length)
  then have "length (exception_messages ! unat n) < 2 ^ 31" by simp
  then obtain t' where "kernel_panic (Some (cstr (exception_messages ! unat n))) t = Some t'"
    using kernel_panic_total by blast
  then show ?thesis unfolding isr_entry_frame [OF assms(1,3)] v i by simp
qed

theorem isr_entry_reports_witness:
  "\<exists>regs t'. isr_entry 14 (Some 2) (sample_machine, blank_terminal) = Some (regs, t') \<and> int_no regs = 14 \<and> err_code regs = 2"
proof -
  have "2 \<le> length (stack sample_machine)" by (simp add: sample_machine_def)
  from isr_entry_reports [OF this, of 14 "Some 2" blank_terminal] show ?thesis
    by (auto simp: ISR_ERRCODE_def saved_frame_def)
qed

end
