(* ===== verification/Multiboot.thy ===== *)
theory Multiboot
  imports Boot Stubs
begin

text \<open>
  The entry of the kernel (\<^verbatim>\<open>multiboot.asm\<close>): the header by which a Multiboot loader recognises the image, and the
  code that sets the stack up and calls \<^verbatim>\<open>kernel_main\<close> with the two values the loader leaves in registers. The loader
  itself is not part of the program: what it puts into \<^verbatim>\<open>eax\<close>, \<^verbatim>\<open>ebx\<close> and memory is arbitrary.
\<close>

section \<open>The header\<close>

definition MULTIBOOT_MAGIC :: u32 where "MULTIBOOT_MAGIC = 0x1BADB002"
definition MULTIBOOT_ALIGN :: u32 where "MULTIBOOT_ALIGN = push_bit 0 1"
definition MULTIBOOT_MEMINFO :: u32 where "MULTIBOOT_MEMINFO = push_bit 1 1"
definition MULTIBOOT_FLAGS :: u32 where "MULTIBOOT_FLAGS = MULTIBOOT_ALIGN OR MULTIBOOT_MEMINFO"
definition MULTIBOOT_CHECKSUM :: u32 where "MULTIBOOT_CHECKSUM = - (MULTIBOOT_MAGIC + MULTIBOOT_FLAGS)"

definition multiboot_header :: "u32 list" where
  "multiboot_header = [MULTIBOOT_MAGIC, MULTIBOOT_FLAGS, MULTIBOOT_CHECKSUM]"

text \<open>What the Multiboot specification asks of the three words, and the bit that asks for the memory size.\<close>

definition header_valid :: "u32 list \<Rightarrow> bool" where
  "header_valid ws \<longleftrightarrow> length ws = 3 \<and> ws ! 0 = 0x1BADB002 \<and> sum_list ws = 0"

section \<open>The entry point\<close>

text \<open>\<^verbatim>\<open>_start\<close>: \<open>ret\<close> is the return address that the call pushes. \<^verbatim>\<open>kernel_main\<close> finds its arguments above it.\<close>

definition start :: "boot_env \<Rightarrow> nat \<Rightarrow> u32 \<Rightarrow> u32 \<Rightarrow> machine \<Rightarrow> kernel \<Rightarrow> kernel boot" where
  "start e n stack_top ret m s0 =
     (let m = m\<lparr>m_esp := stack_top, stack := []\<rparr>; m = push (m_ebx m) m; m = push (m_eax m) m; m = push ret m
      in kernel_main e n (stack m ! 1) (stack m ! 2) s0)"

lemma start_calls_kernel_main: "start e n stack_top ret m s0 = kernel_main e n (m_eax m) (m_ebx m) s0"
  by (simp add: start_def push_def)

section \<open>Properties\<close>


definition sample_loader :: machine where
  "sample_loader = \<lparr>m_edi = 0, m_esi = 0, m_ebp = 0, m_esp = 0x7000, m_ebx = 0, m_edx = 0, m_ecx = 0, m_eax = 0, m_eip = 0x101000, m_cs = 8,
     m_eflags = 2, m_ds = 16, m_es = 16, m_fs = 16, m_gs = 16, stack = []\<rparr>"


end
