(* ===== verification/Sync.thy ===== *)
theory Sync
  imports Heap Vfs
begin

text \<open>
  The lock of the Rust code (\<^verbatim>\<open>rust/munux-rs/src/sync.rs\<close>): a spin lock inside \<^verbatim>\<open>IrqMutex\<close>, which masks the
  interrupts while it is held. The other theories call the locked operations as if they were atomic; here
  they are sequences of steps, an access to the protected data is a load and a store, and an interrupt can
  arrive between any two steps when the interrupt flag is set, with a handler that takes locks itself. The
  kernel runs on one processor. Locks nest: the file system allocates memory while it holds its own lock.
  The lemmas show that no context ever waits for a lock, that no update is lost, and that the heap keeps its
  invariant under every interleaving.
\<close>

section \<open>Tasks\<close>

text \<open>The four static mutexes. A task is the rest of its code, the guards that it holds with the flags they
  restore, innermost first, and where it is inside a call.\<close>

datatype mutex = HEAP_MUTEX | ROOT_MUTEX | FDS_MUTEX | CACHE_MUTEX

datatype 'a instr = Lock mutex | Access "'a \<Rightarrow> 'a" | Drop_guard

datatype 'a phase = Between | Acquiring u32 | Loaded 'a | Restoring u32

record 'a task =
  code :: "'a instr list"
  guards :: "(mutex \<times> u32) list"
  phase :: "'a phase"

text \<open>The processor: the flags, the bits of the spin locks, the protected data, the task that runs and those
  it interrupted, with the flags saved by the interrupt. \<open>done\<close> records the accesses in the order of their
  stores.\<close>

record 'a cpu =
  cpu_flags :: u32
  locked :: "mutex \<Rightarrow> bool"
  shared :: 'a
  running :: "'a task"
  preempted :: "('a task \<times> u32) list"
  accesses_done :: "('a \<Rightarrow> 'a) list"

definition IF_set :: "u32 \<Rightarrow> bool" where
  "IF_set f \<longleftrightarrow> f AND 0x200 \<noteq> 0"

section \<open>Operations\<close>

text \<open>\<^verbatim>\<open>IrqMutex::lock\<close>, first half: \<^verbatim>\<open>munux_c_irq_save\<close>.\<close>

definition lock_save :: "'a cpu \<Rightarrow> 'a cpu" where
  "lock_save m = m\<lparr>cpu_flags := cpu_flags m AND NOT 0x200, running := (running m)\<lparr>phase := Acquiring (cpu_flags m)\<rparr>\<rparr>"

text \<open>One round of \<^verbatim>\<open>SpinLock::acquire\<close>; the weak exchange may fail on a free lock. Success ends \<^verbatim>\<open>lock\<close> with the
  guard.\<close>

definition compare_exchange_weak :: "bool \<Rightarrow> mutex \<Rightarrow> 'a cpu \<Rightarrow> bool \<times> 'a cpu" where
  "compare_exchange_weak spurious l m =
     (if locked m l \<or> spurious then (False, m) else (True, m\<lparr>locked := (locked m)(l := True)\<rparr>))"

definition acquire_round :: "bool \<Rightarrow> mutex \<Rightarrow> u32 \<Rightarrow> 'a cpu \<Rightarrow> 'a cpu" where
  "acquire_round spurious l fl m =
     (let (got, m1) = compare_exchange_weak spurious l m; t = running m
      in if got then m1\<lparr>running := t\<lparr>code := tl (code t), guards := (l, fl) # guards t, phase := Between\<rparr>\<rparr> else m1)"

text \<open>\<^verbatim>\<open>Deref\<close> and \<^verbatim>\<open>DerefMut\<close> of the guard: the data is read, and written later.\<close>

definition load :: "'a cpu \<Rightarrow> 'a cpu" where
  "load m = m\<lparr>running := (running m)\<lparr>phase := Loaded (shared m)\<rparr>\<rparr>"

definition store :: "('a \<Rightarrow> 'a) \<Rightarrow> 'a \<Rightarrow> 'a cpu \<Rightarrow> 'a cpu" where
  "store f v m = m\<lparr>shared := f v, accesses_done := accesses_done m @ [f],
     running := (running m)\<lparr>code := tl (code (running m)), phase := Between\<rparr>\<rparr>"

text \<open>\<^verbatim>\<open>IrqGuard::drop\<close>: \<^verbatim>\<open>SpinLock::release\<close>, then \<^verbatim>\<open>munux_c_irq_restore\<close>.\<close>

definition guard_release :: "mutex \<Rightarrow> u32 \<Rightarrow> 'a cpu \<Rightarrow> 'a cpu" where
  "guard_release l fl m = m\<lparr>locked := (locked m)(l := False),
     running := (running m)\<lparr>code := tl (code (running m)), guards := tl (guards (running m)), phase := Restoring fl\<rparr>\<rparr>"

definition guard_restore :: "u32 \<Rightarrow> 'a cpu \<Rightarrow> 'a cpu" where
  "guard_restore fl m = m\<lparr>cpu_flags := fl, running := (running m)\<lparr>phase := Between\<rparr>\<rparr>"

text \<open>The next step of the running task, if it has one; \<open>spurious\<close> is the failure of the weak exchange.\<close>

definition exec :: "bool \<Rightarrow> 'a cpu \<Rightarrow> 'a cpu option" where
  "exec spurious m =
     (case (phase (running m), code (running m)) of
        (Between, Lock l # _) \<Rightarrow> Some (lock_save m)
      | (Between, Access f # _) \<Rightarrow> Some (load m)
      | (Between, Drop_guard # _) \<Rightarrow> (case guards (running m) of [] \<Rightarrow> None | (l, fl) # _ \<Rightarrow> Some (guard_release l fl m))
      | (Acquiring fl, Lock l # _) \<Rightarrow> Some (acquire_round spurious l fl m)
      | (Loaded v, Access f # _) \<Rightarrow> Some (store f v m)
      | (Restoring fl, _) \<Rightarrow> Some (guard_restore fl m)
      | _ \<Rightarrow> None)"

text \<open>The interrupt gates clear the flag and keep the old flags on the stack; \<^verbatim>\<open>iret\<close> restores them.\<close>

definition take_interrupt :: "'a instr list \<Rightarrow> 'a cpu \<Rightarrow> 'a cpu" where
  "take_interrupt handler m = m\<lparr>cpu_flags := cpu_flags m AND NOT 0x200, preempted := (running m, cpu_flags m) # preempted m,
     running := \<lparr>code = handler, guards = [], phase = Between\<rparr>\<rparr>"

text \<open>Code of a task holding the mutexes \<open>hs\<close>: data is accessed under a guard, guards are dropped in reverse order,
  and no mutex is locked twice.\<close>

fun scoped :: "mutex list \<Rightarrow> 'a instr list \<Rightarrow> bool" where
  "scoped hs [] \<longleftrightarrow> hs = []"
| "scoped hs (Lock l # is) \<longleftrightarrow> l \<notin> set hs \<and> scoped (l # hs) is"
| "scoped hs (Access f # is) \<longleftrightarrow> hs \<noteq> [] \<and> scoped hs is"
| "scoped hs (Drop_guard # is) \<longleftrightarrow> hs \<noteq> [] \<and> scoped (tl hs) is"

inductive sync_step :: "('a \<Rightarrow> 'a) set \<Rightarrow> 'a cpu \<Rightarrow> 'a cpu \<Rightarrow> bool" for F where
  run: "exec spurious m = Some m' \<Longrightarrow> sync_step F m m'"
| interrupt: "IF_set (cpu_flags m) \<Longrightarrow> scoped [] handler \<Longrightarrow> (\<And>f. Access f \<in> set handler \<Longrightarrow> f \<in> F) \<Longrightarrow>
    sync_step F m (take_interrupt handler m)"
| iret: "code (running m) = [] \<Longrightarrow> phase (running m) = Between \<Longrightarrow> preempted m = (t, fl) # ts \<Longrightarrow>
    sync_step F m (m\<lparr>cpu_flags := fl, running := t, preempted := ts\<rparr>)"

section \<open>The invariant\<close>

text \<open>Flags with which the guards \<open>gs\<close> were taken: under another guard the interrupts were already off.\<close>

fun masked_inside :: "(mutex \<times> u32) list \<Rightarrow> bool" where
  "masked_inside [] \<longleftrightarrow> True"
| "masked_inside ((l, fl) # gs) \<longleftrightarrow> (gs \<noteq> [] \<longrightarrow> \<not> IF_set fl) \<and> masked_inside gs"

definition phase_ok :: "'a cpu \<Rightarrow> bool" where
  "phase_ok m \<longleftrightarrow> (let t = running m in
     case phase t of
       Between \<Rightarrow> guards t \<noteq> [] \<longrightarrow> \<not> IF_set (cpu_flags m)
     | Acquiring fl \<Rightarrow> (\<exists>l is. code t = Lock l # is) \<and> \<not> IF_set (cpu_flags m) \<and> (guards t \<noteq> [] \<longrightarrow> \<not> IF_set fl)
     | Loaded v \<Rightarrow> (\<exists>f is. code t = Access f # is) \<and> \<not> IF_set (cpu_flags m) \<and> v = shared m
     | Restoring fl \<Rightarrow> \<not> IF_set (cpu_flags m) \<and> (guards t \<noteq> [] \<longrightarrow> \<not> IF_set fl))"

definition sync_inv :: "('a \<Rightarrow> 'a) set \<Rightarrow> 'a \<Rightarrow> 'a cpu \<Rightarrow> bool" where
  "sync_inv F v0 m \<longleftrightarrow> phase_ok m \<and> masked_inside (guards (running m)) \<and>
     scoped (map fst (guards (running m))) (code (running m)) \<and>
     (\<forall>l. locked m l \<longleftrightarrow> l \<in> set (map fst (guards (running m)))) \<and> distinct (map fst (guards (running m))) \<and>
     (\<forall>(t, fl) \<in> set (preempted m). guards t = [] \<and> phase t = Between \<and> scoped [] (code t)) \<and>
     shared m = fold (\<lambda>f. f) (accesses_done m) v0 \<and> set (accesses_done m) \<subseteq> F \<and>
     (\<forall>f. Access f \<in> set (code (running m)) \<or> (\<exists>(t, fl) \<in> set (preempted m). Access f \<in> set (code t)) \<longrightarrow> f \<in> F)"

lemma IF_set_cleared [simp]: "\<not> IF_set (f AND NOT 0x200)" "\<not> IF_set (f AND - 513)"
  by (simp_all add: IF_set_def and.assoc)

lemmas sync_inv_defs = sync_inv_def phase_ok_def Let_def

lemma lock_save_inv:
  assumes "sync_inv F v0 m" and "phase (running m) = Between" and "code (running m) = Lock l # is"
  shows "sync_inv F v0 (lock_save m)"
  using assms by (auto simp: sync_inv_defs lock_save_def)

lemma acquire_round_inv:
  assumes "sync_inv F v0 m" and "phase (running m) = Acquiring fl" and "code (running m) = Lock l # is"
  shows "sync_inv F v0 (acquire_round spurious l fl m)"
  using assms by (auto simp: sync_inv_defs acquire_round_def compare_exchange_weak_def)

lemma load_inv:
  assumes "sync_inv F v0 m" and "phase (running m) = Between" and "code (running m) = Access f # is"
  shows "sync_inv F v0 (load m)"
  using assms by (auto simp: sync_inv_defs load_def)

lemma store_inv:
  assumes "sync_inv F v0 m" and "phase (running m) = Loaded v" and "code (running m) = Access f # is"
  shows "sync_inv F v0 (store f v m)"
  using assms by (auto simp: sync_inv_defs store_def)

lemma guard_release_inv:
  assumes "sync_inv F v0 m" and "phase (running m) = Between" and "code (running m) = Drop_guard # is"
    and "guards (running m) = (l, fl) # gs"
  shows "sync_inv F v0 (guard_release l fl m)"
  using assms by (auto simp: sync_inv_defs guard_release_def)

lemma guard_restore_inv:
  assumes "sync_inv F v0 m" and "phase (running m) = Restoring fl"
  shows "sync_inv F v0 (guard_restore fl m)"
  using assms by (auto simp: sync_inv_defs guard_restore_def)

lemmas exec_inv = lock_save_inv acquire_round_inv load_inv store_inv guard_release_inv guard_restore_inv

lemma exec_keeps_inv:
  assumes "sync_inv F v0 m" and "exec spurious m = Some m'"
  shows "sync_inv F v0 m'"
  using assms by (auto simp: exec_def split: phase.splits list.splits instr.splits intro: exec_inv)

lemma take_interrupt_inv:
  assumes "sync_inv F v0 m" and "IF_set (cpu_flags m)" and "scoped [] handler" and "\<And>f. Access f \<in> set handler \<Longrightarrow> f \<in> F"
  shows "sync_inv F v0 (take_interrupt handler m)"
proof -
  have "guards (running m) = []" "phase (running m) = Between"
    using assms(1,2) by (auto simp: sync_inv_defs split: phase.splits)
  then show ?thesis using assms by (auto simp: sync_inv_defs take_interrupt_def)
qed

lemma iret_inv:
  assumes "sync_inv F v0 m" and "code (running m) = []" and "preempted m = (t, fl) # ts"
  shows "sync_inv F v0 (m\<lparr>cpu_flags := fl, running := t, preempted := ts\<rparr>)"
proof -
  have "guards (running m) = []" using assms(1,2) by (simp add: sync_inv_defs)
  then show ?thesis using assms by (auto simp: sync_inv_defs)
qed

lemma sync_step_inv: "sync_step F m m' \<Longrightarrow> sync_inv F v0 m \<Longrightarrow> sync_inv F v0 m'"
  by (induction rule: sync_step.induct) (auto intro: exec_keeps_inv take_interrupt_inv iret_inv)

lemma sync_steps_inv: "(sync_step F)\<^sup>*\<^sup>* m m' \<Longrightarrow> sync_inv F v0 m \<Longrightarrow> sync_inv F v0 m'"
  by (induction rule: rtranclp_induct) (auto intro: sync_step_inv)

text \<open>A task that starts with the locks free.\<close>

definition fresh_cpu :: "u32 \<Rightarrow> 'a \<Rightarrow> 'a instr list \<Rightarrow> 'a cpu" where
  "fresh_cpu fl v0 is = \<lparr>cpu_flags = fl, locked = (\<lambda>_. False), shared = v0, running = \<lparr>code = is, guards = [], phase = Between\<rparr>,
     preempted = [], accesses_done = []\<rparr>"

lemma fresh_cpu_inv: "scoped [] is \<Longrightarrow> (\<And>f. Access f \<in> set is \<Longrightarrow> f \<in> F) \<Longrightarrow> sync_inv F v0 (fresh_cpu fl v0 is)"
  by (simp add: sync_inv_defs fresh_cpu_def)

lemma reachable_inv:
  assumes "scoped [] is" and "\<And>f. Access f \<in> set is \<Longrightarrow> f \<in> F" and "(sync_step F)\<^sup>*\<^sup>* (fresh_cpu fl v0 is) m"
  shows "sync_inv F v0 m"
  by (rule sync_steps_inv [OF assms(3)], rule fresh_cpu_inv [OF assms(1,2)])

section \<open>Completion\<close>

text \<open>Running on without interrupts and without failures of the weak exchange.\<close>

fun exec_for :: "nat \<Rightarrow> 'a cpu \<Rightarrow> 'a cpu option" where
  "exec_for 0 m = Some m"
| "exec_for (Suc n) m = Option.bind (exec False m) (exec_for n)"

text \<open>The steps left, the flags from before the outermost guard, and the accesses still to come.\<close>

definition todo :: "'a cpu \<Rightarrow> nat" where
  "todo m = (case phase (running m) of
       Between \<Rightarrow> 2 * length (code (running m))
     | Restoring fl \<Rightarrow> Suc (2 * length (code (running m)))
     | _ \<Rightarrow> 2 * length (code (running m)) - 1)"

definition entry_flags :: "'a cpu \<Rightarrow> u32" where
  "entry_flags m = (if guards (running m) \<noteq> [] then snd (last (guards (running m)))
     else case phase (running m) of Acquiring fl \<Rightarrow> fl | Restoring fl \<Rightarrow> fl | _ \<Rightarrow> cpu_flags m)"

fun accesses_of :: "'a instr list \<Rightarrow> ('a \<Rightarrow> 'a) list" where
  "accesses_of [] = []"
| "accesses_of (Access f # is) = f # accesses_of is"
| "accesses_of (i # is) = accesses_of is"

lemma exec_progress:
  assumes inv: "sync_inv F v0 m" and n: "todo m = Suc n"
  obtains m' where "exec False m = Some m'" and "todo m' = n" and "entry_flags m' = entry_flags m"
    and "preempted m' = preempted m" and "accesses_done m' @ accesses_of (code (running m')) = accesses_done m @ accesses_of (code (running m))"
proof (cases "phase (running m)")
  case Between
  then obtain i js where c: "code (running m) = i # js" using n by (cases "code (running m)") (auto simp: todo_def)
  show thesis
  proof (cases i)
    case (Lock l)
    then show thesis using that [of "lock_save m"] Between c n by (simp add: exec_def lock_save_def todo_def entry_flags_def)
  next
    case (Access f)
    then show thesis using that [of "load m"] Between c n by (simp add: exec_def load_def todo_def entry_flags_def)
  next
    case Drop_guard
    then obtain l fl gs where g: "guards (running m) = (l, fl) # gs" using inv c by (cases "guards (running m)") (auto simp: sync_inv_defs)
    then show thesis using that [of "guard_release l fl m"] Between c n Drop_guard
      by (simp add: exec_def guard_release_def todo_def entry_flags_def)
  qed
next
  case (Acquiring fl)
  then obtain l js where c: "code (running m) = Lock l # js" using inv by (auto simp: sync_inv_defs)
  moreover have "\<not> locked m l" using inv c by (auto simp: sync_inv_def)
  ultimately show thesis using that [of "acquire_round False l fl m"] Acquiring n
    by (simp add: exec_def acquire_round_def compare_exchange_weak_def todo_def entry_flags_def Let_def)
next
  case (Loaded v)
  then obtain f js where c: "code (running m) = Access f # js" and "guards (running m) \<noteq> []"
    using inv by (auto simp: sync_inv_defs)
  then show thesis using that [of "store f v m"] Loaded n by (simp add: exec_def store_def todo_def entry_flags_def)
next
  case (Restoring fl)
  then show thesis using that [of "guard_restore fl m"] n by (simp add: exec_def guard_restore_def todo_def entry_flags_def)
qed

lemma exec_completes:
  assumes "sync_inv F v0 m"
  shows "\<exists>m'. exec_for (todo m) m = Some m' \<and> code (running m') = [] \<and> (\<forall>l. \<not> locked m' l) \<and> cpu_flags m' = entry_flags m \<and>
    preempted m' = preempted m \<and> accesses_done m' = accesses_done m @ accesses_of (code (running m)) \<and> sync_inv F v0 m'"
  using assms
proof (induction "todo m" arbitrary: m)
  case 0
  then have "code (running m) = []" "phase (running m) = Between"
    by (auto simp: todo_def sync_inv_defs split: phase.splits)
  then show ?case using 0 by (auto simp: sync_inv_defs entry_flags_def todo_def)
next
  case (Suc n)
  obtain m1 where e: "exec False m = Some m1" "todo m1 = n" "entry_flags m1 = entry_flags m" "preempted m1 = preempted m"
    "accesses_done m1 @ accesses_of (code (running m1)) = accesses_done m @ accesses_of (code (running m))"
    by (rule exec_progress [OF Suc.prems Suc.hyps(2) [symmetric]])
  have "sync_inv F v0 m1" by (rule exec_keeps_inv [OF Suc.prems e(1)])
  from Suc.hyps(1) [OF e(2) [symmetric] this] show ?case using e Suc.hyps(2) by (auto simp flip: Suc.hyps(2))
qed

section \<open>The sequential lock\<close>

text \<open>\<open>heap_lock\<close>, which the allocator calls as one operation, is the sequence of the two steps: it masks the
  interrupts, takes the free lock and returns the flags that the guard keeps; on a held lock the steps go on for
  ever, which is the outcome \<open>Stuck\<close>.\<close>

lemma heap_lock_steps:
  assumes "phase (running m) = Between" and "code (running m) = Lock HEAP_MUTEX # js"
    and "eflags s = cpu_flags m" and "heap_locked s = locked m HEAP_MUTEX"
  shows "case heap_lock s of
      Inr (fl, s') \<Rightarrow> (\<exists>m'. exec_for 2 m = Some m' \<and> cpu_flags m' = eflags s' \<and> locked m' HEAP_MUTEX = heap_locked s' \<and>
        guards (running m') = (HEAP_MUTEX, fl) # guards (running m) \<and> code (running m') = js)
    | Inl x \<Rightarrow> x = Stuck \<and> (\<exists>m'. exec False m = Some m' \<and> (\<forall>spurious. exec spurious m' = Some m'))"
  using assms
  by (simp add: heap_lock_def munux_c_irq_save_def exec_def lock_save_def acquire_round_def compare_exchange_weak_def
      numeral_2_eq_2 Let_def)

section \<open>Data behind the locks\<close>

text \<open>An invariant that every access keeps holds whenever a context looks at the data.\<close>

locale guarded_data =
  fixes F :: "('a \<Rightarrow> 'a) set" and I :: "'a \<Rightarrow> bool"
  assumes access_keeps: "f \<in> F \<Longrightarrow> I v \<Longrightarrow> I (f v)"
begin

lemma accesses_keep: "set fs \<subseteq> F \<Longrightarrow> I v \<Longrightarrow> I (fold (\<lambda>f. f) fs v)"
  by (induction fs arbitrary: v) (auto intro: access_keeps)

lemma reachable_keeps:
  assumes "I v0" and "scoped [] is" and "\<And>f. Access f \<in> set is \<Longrightarrow> f \<in> F" and "(sync_step F)\<^sup>*\<^sup>* (fresh_cpu fl v0 is) m"
  shows "I (shared m)" and "phase (running m) = Loaded v \<Longrightarrow> I v"
proof -
  have inv: "sync_inv F v0 m" by (rule reachable_inv [OF assms(2-4)])
  then show "I (shared m)" using accesses_keep [OF _ assms(1)] by (simp add: sync_inv_def)
  then show "phase (running m) = Loaded v \<Longrightarrow> I v" using inv by (simp add: sync_inv_defs)
qed

end

text \<open>The heap and the file system: the calls of the sequential models as accesses. The heap state has the flags and the
  lock bit of the sequential model, which stay as they are; those of the processor are in \<open>cpu\<close>. A client frees
  only live payloads.\<close>

type_synonym kernel_data = "rheap \<times> TmpFs"

definition heap_request :: "u32 \<Rightarrow> kernel_data \<Rightarrow> kernel_data" where
  "heap_request n d = (case kmalloc n (fst d) of Inr (p, s) \<Rightarrow> (s, snd d) | Inl _ \<Rightarrow> d)"

definition heap_release :: "u32 \<Rightarrow> kernel_data \<Rightarrow> kernel_data" where
  "heap_release p d = (if live (fst d) p = None then d else case kfree p (fst d) of Inr s \<Rightarrow> (s, snd d) | Inl _ \<Rightarrow> d)"

definition node_create :: "path \<Rightarrow> NodeKind \<Rightarrow> kernel_data \<Rightarrow> kernel_data" where
  "node_create p k d = (case fs_create p k (snd d) of Inr fs \<Rightarrow> (fst d, fs) | Inl _ \<Rightarrow> d)"

definition node_write :: "path \<Rightarrow> u8 list \<Rightarrow> kernel_data \<Rightarrow> kernel_data" where
  "node_write p b d = (case fs_write p b (snd d) of Inr (n, fs) \<Rightarrow> (fst d, fs) | Inl _ \<Rightarrow> d)"

definition kernel_calls :: "(kernel_data \<Rightarrow> kernel_data) set" where
  "kernel_calls = {heap_request n | n. unat n \<le> 0xFFFFFFF0} \<union> range heap_release \<union>
     {node_create p k | p k. True} \<union> {node_write p b | p b. True}"

definition data_inv :: "kernel_data \<Rightarrow> bool" where
  "data_inv d \<longleftrightarrow> heap_inv (fst d) \<and> tree_ok (snd d)"

lemma heap_request_inv: "unat n \<le> 0xFFFFFFF0 \<Longrightarrow> data_inv d \<Longrightarrow> data_inv (heap_request n d)"
  unfolding data_inv_def heap_request_def by (elim conjE, rule kmalloc_spec [of "fst d" n]) auto

lemma heap_release_inv: "data_inv d \<Longrightarrow> data_inv (heap_release p d)"
  by (cases "live (fst d) p") (auto simp: data_inv_def heap_release_def elim: kfree_spec)

lemma node_create_inv: "data_inv d \<Longrightarrow> data_inv (node_create p k d)"
  by (auto simp: data_inv_def node_create_def split: sum.splits intro: tree_ok_create)

lemma node_write_inv: "data_inv d \<Longrightarrow> data_inv (node_write p b d)"
  by (auto simp: data_inv_def node_write_def split: sum.splits intro: tree_ok_write)

interpretation kernel_guarded: guarded_data kernel_calls data_inv
  by unfold_locales (auto simp: kernel_calls_def intro: heap_request_inv heap_release_inv node_create_inv node_write_inv)

section \<open>Properties\<close>

lemma exec_for_steps: "exec_for n m = Some m' \<Longrightarrow> (sync_step F)\<^sup>*\<^sup>* m m'"
proof (induction n arbitrary: m)
  case (Suc n)
  then obtain m1 where "exec False m = Some m1" "exec_for n m1 = Some m'" by (auto simp: bind_eq_Some_conv)
  then show ?case using Suc.IH by (meson converse_rtranclp_into_rtranclp sync_step.run)
qed simp

text \<open>C5: wherever interrupts arrive and whatever locks their handlers take, no context waits for a lock: a held lock belongs to
  the running context, an interrupted one holds none, and a context that is about to take a lock finds it free. While a lock
  is held the interrupts are masked, and the protected data is always the result of the complete accesses, one after the
  other: no update is lost.\<close>

theorem irq_mutex_serialises:
  assumes "scoped [] is" and "(sync_step UNIV)\<^sup>*\<^sup>* (fresh_cpu fl v0 is) m"
  shows "(\<forall>l. locked m l \<longleftrightarrow> l \<in> fst ` set (guards (running m))) \<and> (\<forall>(t, f) \<in> set (preempted m). guards t = []) \<and>
    (\<forall>f l js. phase (running m) = Acquiring f \<and> code (running m) = Lock l # js \<longrightarrow> \<not> locked m l) \<and>
    (guards (running m) \<noteq> [] \<longrightarrow> \<not> IF_set (cpu_flags m)) \<and> shared m = fold (\<lambda>f. f) (accesses_done m) v0"
proof -
  have inv: "sync_inv UNIV v0 m" using assms by (intro reachable_inv [of "is"]) simp_all
  then have "guards (running m) \<noteq> [] \<Longrightarrow> \<not> IF_set (cpu_flags m)" by (auto simp: sync_inv_defs split: phase.splits)
  moreover have "\<not> locked m l" if "code (running m) = Lock l # js" for l js using inv that by (auto simp: sync_inv_def)
  ultimately show ?thesis using inv unfolding sync_inv_def by auto
qed

text \<open>Two counters: the file system call allocates memory under its lock, and the handler of an interrupt that arrives
  before it allocates too.\<close>

definition sample_code :: "nat instr list" where
  "sample_code = [Lock ROOT_MUTEX, Access (\<lambda>x. x + 1), Lock HEAP_MUTEX, Access (\<lambda>x. 2 * x), Drop_guard, Drop_guard]"

definition sample_interrupted :: "nat cpu" where
  "sample_interrupted = take_interrupt [Lock HEAP_MUTEX, Access (\<lambda>x. x + 5), Drop_guard] (fresh_cpu 0x202 0 sample_code)"

lemma sample_interrupted_reached: "(sync_step F)\<^sup>*\<^sup>* (fresh_cpu 0x202 0 sample_code) sample_interrupted" if "(\<lambda>x. x + 5) \<in> F"
  unfolding sample_interrupted_def using that
  by (intro r_into_rtranclp sync_step.interrupt) (auto simp: IF_set_def fresh_cpu_def)

theorem irq_mutex_serialises_witness:
  "\<exists>m. (sync_step UNIV)\<^sup>*\<^sup>* (fresh_cpu 0x202 0 sample_code) m \<and> phase (running m) = Acquiring 2 \<and> \<not> locked m HEAP_MUTEX"
proof -
  let ?m = "lock_save sample_interrupted"
  have e: "exec_for 1 sample_interrupted = Some ?m"
    by (simp add: exec_def sample_interrupted_def take_interrupt_def)
  have r: "(sync_step UNIV)\<^sup>*\<^sup>* (fresh_cpu 0x202 0 sample_code) ?m"
    using sample_interrupted_reached exec_for_steps [OF e] by (auto intro: rtranclp_trans)
  have p: "phase (running ?m) = Acquiring 2" "code (running ?m) = Lock HEAP_MUTEX # [Access (\<lambda>x. x + 5), Drop_guard]"
    by (simp_all add: lock_save_def sample_interrupted_def take_interrupt_def fresh_cpu_def)
  have "scoped [] sample_code" by (simp add: sample_code_def)
  from irq_mutex_serialises [OF this r] p have "\<not> locked ?m HEAP_MUTEX" by blast
  with r p(1) show ?thesis by blast
qed

text \<open>C6: a context always gets through its critical sections: left alone, it ends after at most two steps for each operation, with
  every lock free, the interrupt flag as it was before its outermost lock, and its accesses made in their order.\<close>

theorem irq_mutex_completes:
  assumes "scoped [] is" and "(sync_step UNIV)\<^sup>*\<^sup>* (fresh_cpu fl v0 is) m"
  shows "\<exists>m'. exec_for (todo m) m = Some m' \<and> todo m \<le> 2 * length (code (running m)) + 1 \<and> code (running m') = [] \<and>
    (\<forall>l. \<not> locked m' l) \<and> cpu_flags m' = entry_flags m \<and> preempted m' = preempted m \<and>
    accesses_done m' = accesses_done m @ accesses_of (code (running m))"
proof -
  have inv: "sync_inv UNIV v0 m" using assms by (intro reachable_inv [of "is"]) simp_all
  have "todo m \<le> 2 * length (code (running m)) + 1" by (auto simp: todo_def split: phase.split)
  then show ?thesis using exec_completes [OF inv] by blast
qed

theorem irq_mutex_completes_witness:
  "\<exists>m'. exec_for 6 sample_interrupted = Some m' \<and> code (running m') = [] \<and> cpu_flags m' = 2 \<and> accesses_done m' = [\<lambda>x. x + 5]"
proof -
  have "scoped [] sample_code" by (simp add: sample_code_def)
  from irq_mutex_completes [OF this sample_interrupted_reached]
  show ?thesis by (auto simp: sample_interrupted_def take_interrupt_def fresh_cpu_def todo_def entry_flags_def)
qed



end
