(* ===== verification/Bootloader.thy ===== *)
theory Bootloader
  imports Machine
begin

text \<open>
  The boot sector (\<^verbatim>\<open>boot/bootloader.asm\<close>): the routines that print, read the kernel from the disk and enter
  protected mode. The firmware is not part of the program: its services are recorded as calls, and the result of
  the disk service is a parameter. The lemmas show what the routines ask of the firmware, on both outcomes of the
  disk read, and where they lead.
\<close>

section \<open>The sector\<close>

text \<open>The strings are the first bytes of the sector, which is assembled for address \<open>0x7C00\<close>.\<close>

definition msg_text :: "u8 list" where "msg_text = bytes ''Iniciando Munux OS...'' @ [13, 10, 0]"
definition loading_text :: "u8 list" where "loading_text = bytes ''Carregando kernel...'' @ [13, 10, 0]"
definition success_text :: "u8 list" where "success_text = bytes ''Kernel carregado com sucesso!'' @ [13, 10, 0]"
definition disk_error_text :: "u8 list" where "disk_error_text = bytes ''Erro ao carregar kernel!'' @ [13, 10, 0]"

definition msg :: u16 where "msg = 0x7C00"
definition loading_msg :: u16 where "loading_msg = msg + word_of_nat (length msg_text)"
definition success_msg :: u16 where "success_msg = loading_msg + word_of_nat (length loading_text)"
definition disk_error_msg :: u16 where "disk_error_msg = success_msg + word_of_nat (length success_text)"

definition strings :: "u8 list" where
  "strings = msg_text @ loading_text @ success_text @ disk_error_text"

definition sector_loaded :: "phys_mem \<Rightarrow> bool" where
  "sector_loaded mem \<longleftrightarrow> (\<forall>i < length strings. mem (0x7C00 + word_of_nat i) = strings ! i)"

section \<open>Routines\<close>

text \<open>The calls of the firmware, with the registers that matter to them: \<^verbatim>\<open>int 0x10\<close>, functions 7, 2 and 14, and \<^verbatim>\<open>int 0x13\<close>,
  function 2. The general registers are saved and restored by every routine; the stack is not modelled.\<close>

datatype bios_call = Scroll_down (lines: u8) (attribute: u8) (upper_left: u16) (lower_right: u16)
  | Set_cursor (cursor_page: u8) (position: u16) | Teletype (character: u8) (page: u8) (colour: u8)
  | Read_sectors (buffer_segment: u16) (buffer_offset: u16) (sectors: u8) (cylinder: u8) (sector: u8) (side: u8) (drive: u8)

record real_mode =
  seg_ds :: u16
  seg_es :: u16
  seg_fs :: u16
  seg_gs :: u16
  seg_ss :: u16
  reg_sp :: u16
  interrupts_on :: bool
  protected :: bool
  gdt_register :: "64 word list"
  bios :: "bios_call list"

definition call_bios :: "bios_call \<Rightarrow> real_mode \<Rightarrow> real_mode" where
  "call_bios c s = s\<lparr>bios := bios s @ [c]\<rparr>"

definition real_addr :: "u16 \<Rightarrow> u16 \<Rightarrow> u32" where
  "real_addr seg off = ucast seg * 16 + ucast off"

definition clear_screen :: "real_mode \<Rightarrow> real_mode" where
  "clear_screen s = call_bios (Set_cursor 0 0) (call_bios (Scroll_down 0 0x07 0 0x184F) s)"

partial_function (option) print_loop :: "phys_mem \<Rightarrow> u16 \<Rightarrow> real_mode \<Rightarrow> real_mode option" where
  "print_loop mem si s =
     (let al = mem (real_addr (seg_ds s) si); si = si + 1
      in if al = 0 then Some s else print_loop mem si (call_bios (Teletype al 0 0x07) s))"

text \<open>The rounds of \<^verbatim>\<open>loop delay_loop\<close>, which counts \<^verbatim>\<open>cx\<close> down before it tests it.\<close>

function delay_loop :: "u16 \<Rightarrow> nat" where
  "delay_loop cx = (let cx = cx - 1 in if cx = 0 then 1 else Suc (delay_loop cx))"
  by pat_completeness auto
termination
proof (relation "measure (\<lambda>cx. unat (cx - 1))")
  fix cx x :: u16
  assume "x = cx - 1" "x \<noteq> 0"
  moreover have "unat (y - 1) < unat y" if "y \<noteq> 0" for y :: u16
    using unat_minus_one [OF that] that by (simp add: unat_gt_0)
  ultimately show "(x, cx) \<in> measure (\<lambda>cx. unat (cx - 1))" by (simp only: in_measure)
qed simp

declare delay_loop.simps [simp del]

text \<open>Where a routine leads: back to its caller, for ever to \<^verbatim>\<open>hang\<close>, or to a segment and offset.\<close>

datatype control = Returns | Hangs | Jumps u16 u16

definition load_kernel :: "phys_mem \<Rightarrow> bool \<Rightarrow> real_mode \<Rightarrow> (control \<times> real_mode) option" where
  "load_kernel mem carry s =
     (let s = call_bios (Read_sectors 0x8000 0x0000 15 0 2 0 0x80) (s\<lparr>seg_es := 0x8000\<rparr>)
      in if carry then do { s \<leftarrow> print_loop mem disk_error_msg s; Some (Hangs, s) } else Some (Returns, s))"

text \<open>The descriptors of the table, and the base and limit they give a segment.\<close>

definition gdt :: "64 word list" where
  "gdt = [0x0000000000000000, 0x00CF9A000000FFFF, 0x00CF92000000FFFF]"

definition segment_base :: "64 word \<Rightarrow> u32" where
  "segment_base d = ucast (drop_bit 16 d AND 0xFFFFFF) OR push_bit 24 (ucast (drop_bit 56 d))"

definition segment_limit :: "64 word \<Rightarrow> u32" where
  "segment_limit d = (let l = ucast (d AND 0xFFFF) OR push_bit 16 (ucast (drop_bit 48 d AND 0xF))
     in if bit d 55 then push_bit 12 l OR 0xFFF else l)"

text \<open>\<^verbatim>\<open>lgdt\<close> loads a table, but the far jump comes before \<^verbatim>\<open>cr0\<close> is changed: it is a jump of real mode.\<close>

definition enter_pm :: "u16 \<Rightarrow> real_mode \<Rightarrow> control \<times> real_mode" where
  "enter_pm target s = (Jumps 0x08 target, s\<lparr>interrupts_on := False, gdt_register := gdt\<rparr>)"

text \<open>The code that the jump is meant to reach, the same in \<^verbatim>\<open>pmode.asm\<close>.\<close>

definition init_pm :: "real_mode \<Rightarrow> control \<times> real_mode" where
  "init_pm s = (Jumps 0x8000 0x0000,
     s\<lparr>protected := True, seg_ds := 0x10, seg_es := 0x10, seg_fs := 0x10, seg_gs := 0x10, seg_ss := 0x10\<rparr>)"

definition boot_start :: "phys_mem \<Rightarrow> bool \<Rightarrow> u16 \<Rightarrow> real_mode \<Rightarrow> (control \<times> real_mode) option" where
  "boot_start mem carry target s =
     do {
       let s = s\<lparr>seg_ds := 0, seg_es := 0, seg_ss := 0, reg_sp := 0x7C00, interrupts_on := True\<rparr>;
       let s = clear_screen s;
       s \<leftarrow> print_loop mem msg s;
       s \<leftarrow> print_loop mem loading_msg s;
       (c, s) \<leftarrow> load_kernel mem carry s;
       if c = Returns then do {
         s \<leftarrow> print_loop mem success_msg s;
         let rounds = delay_loop 0xFFFF;
         Some (enter_pm target s)
       }
       else Some (c, s)
     }"

lemma gdt_flat: "i \<in> {1, 2} \<Longrightarrow> segment_base (gdt ! i) = 0 \<and> segment_limit (gdt ! i) = 0xFFFFFFFF"
  by (auto simp: gdt_def segment_base_def segment_limit_def Let_def)

text \<open>In protected mode the selector of the last jump names an entry far beyond the table.\<close>

lemma init_pm_selector: "fst (init_pm s) = Jumps sel off \<Longrightarrow> length gdt \<le> unat sel div 8"
  by (auto simp: init_pm_def gdt_def)

section \<open>Printing\<close>

definition teletype :: "u8 list \<Rightarrow> bios_call list" where
  "teletype cs = map (\<lambda>c. Teletype c 0 0x07) cs"

lemma print_loop_text:
  assumes "\<forall>i \<le> length cs. mem (real_addr (seg_ds s) (si + word_of_nat i)) = (cs @ [0]) ! i" and "0 \<notin> set cs"
  shows "print_loop mem si s = Some (s\<lparr>bios := bios s @ teletype cs\<rparr>)"
  using assms
proof (induction cs arbitrary: si s)
  case Nil
  then show ?case by (subst print_loop.simps) (simp add: teletype_def)
next
  case (Cons c cs)
  have c: "mem (real_addr (seg_ds s) si) = c" using Cons.prems(1) by (auto dest: spec [of _ 0])
  let ?s = "call_bios (Teletype c 0 0x07) s"
  have "\<forall>i \<le> length cs. mem (real_addr (seg_ds ?s) (si + 1 + word_of_nat i)) = (cs @ [0]) ! i"
  proof (intro allI impI)
    fix i assume "i \<le> length cs"
    then show "mem (real_addr (seg_ds ?s) (si + 1 + word_of_nat i)) = (cs @ [0]) ! i"
      using Cons.prems(1) [rule_format, of "Suc i"] by (simp add: call_bios_def add.assoc)
  qed
  from Cons.IH [OF this] Cons.prems(2) c show ?case
    by (subst print_loop.simps) (simp add: Let_def call_bios_def teletype_def)
qed

lemma real_addr_low:
  assumes "k < 0x8000"
  shows "real_addr 0 (0x7C00 + word_of_nat k) = 0x7C00 + word_of_nat k"
proof -
  have "unat (0x7C00 + word_of_nat k :: u16) = 0x7C00 + k" using assms by (simp add: unat_word_ariths unat_of_nat take_bit_nat_def)
  moreover have "unat (0x7C00 + word_of_nat k :: u32) = 0x7C00 + k" using assms by (simp add: unat_word_ariths unat_of_nat take_bit_nat_def)
  ultimately have "unat (ucast (0x7C00 + word_of_nat k :: u16) :: u32) = unat (0x7C00 + word_of_nat k :: u32)"
    using assms by (simp add: unsigned_ucast_eq take_bit_nat_eq_self)
  then show ?thesis by (simp add: real_addr_def word_unat_eq_iff)
qed

lemma print_loop_string:
  assumes mem: "sector_loaded mem" and s: "strings = pre @ (cs @ [0]) @ post" and n: "0 \<notin> set cs" and ds: "seg_ds s = 0"
    and si: "si = 0x7C00 + word_of_nat (length pre)"
  shows "print_loop mem si s = Some (s\<lparr>bios := bios s @ teletype cs\<rparr>)"
proof (rule print_loop_text [OF _ n], intro allI impI)
  fix i assume i: "i \<le> length cs"
  have len: "length strings < 0x8000" by (simp add: strings_def msg_text_def loading_text_def success_text_def disk_error_text_def bytes_def)
  then have l: "length pre + i < 0x8000" "length pre + i < length strings" using i arg_cong [OF s, of length] by simp_all
  have "mem (real_addr 0 (0x7C00 + word_of_nat (length pre + i))) = strings ! (length pre + i)"
    unfolding real_addr_low [OF l(1)] using mem l(2) unfolding sector_loaded_def by blast
  also have "\<dots> = (cs @ [0]) ! i" using i unfolding s by (simp add: nth_append)
  finally show "mem (real_addr (seg_ds s) (si + word_of_nat i)) = (cs @ [0]) ! i" by (simp add: ds si add.assoc)
qed

lemma sector_strings:
  assumes mem: "sector_loaded mem" and ds: "seg_ds s = 0"
  shows "print_loop mem msg s = Some (s\<lparr>bios := bios s @ teletype (butlast msg_text)\<rparr>)"
    and "print_loop mem loading_msg s = Some (s\<lparr>bios := bios s @ teletype (butlast loading_text)\<rparr>)"
    and "print_loop mem success_msg s = Some (s\<lparr>bios := bios s @ teletype (butlast success_text)\<rparr>)"
    and "print_loop mem disk_error_msg s = Some (s\<lparr>bios := bios s @ teletype (butlast disk_error_text)\<rparr>)"
proof -
  note texts = msg_text_def loading_text_def success_text_def disk_error_text_def
  note addrs = msg_def loading_msg_def success_msg_def disk_error_msg_def
  show "print_loop mem msg s = Some (s\<lparr>bios := bios s @ teletype (butlast msg_text)\<rparr>)"
    by (rule print_loop_string [OF mem, of "[]" _ "loading_text @ success_text @ disk_error_text"])
      (simp_all add: strings_def texts addrs bytes_def ds)
  show "print_loop mem loading_msg s = Some (s\<lparr>bios := bios s @ teletype (butlast loading_text)\<rparr>)"
    by (rule print_loop_string [OF mem, of msg_text _ "success_text @ disk_error_text"])
      (simp_all add: strings_def texts addrs bytes_def ds)
  show "print_loop mem success_msg s = Some (s\<lparr>bios := bios s @ teletype (butlast success_text)\<rparr>)"
    by (rule print_loop_string [OF mem, of "msg_text @ loading_text" _ "disk_error_text"])
      (simp_all add: strings_def texts addrs bytes_def ds)
  show "print_loop mem disk_error_msg s = Some (s\<lparr>bios := bios s @ teletype (butlast disk_error_text)\<rparr>)"
    by (rule print_loop_string [OF mem, of "msg_text @ loading_text @ success_text" _ "[]"])
      (simp_all add: strings_def texts addrs bytes_def ds)
qed

section \<open>Properties\<close>

text \<open>C40: from its start routine the boot sector clears the screen, prints its messages and asks the firmware for 15 sectors
  of the first hard disk, from sector 2, at \<open>0x80000\<close>. If that fails it prints an error and stops; otherwise it jumps, with the
  interrupts off, but still in real mode, where the jump leads 128 bytes past the code meant. And the firmware enters the sector
  at its first byte, which belongs to a message.\<close>

theorem boot_sector_run:
  assumes "sector_loaded mem"
  shows "\<exists>s'. boot_start mem carry target s = Some (if carry then Hangs else Jumps 0x08 target, s') \<and>
    bios s' = bios s @ [Scroll_down 0 0x07 0 0x184F, Set_cursor 0 0] @ teletype (bytes ''Iniciando Munux OS...'' @ [13, 10]) @
      teletype (bytes ''Carregando kernel...'' @ [13, 10]) @ [Read_sectors 0x8000 0 15 0 2 0 0x80] @
      teletype (if carry then bytes ''Erro ao carregar kernel!'' @ [13, 10] else bytes ''Kernel carregado com sucesso!'' @ [13, 10]) \<and>
    interrupts_on s' = carry \<and> (\<not> carry \<longrightarrow> gdt_register s' = gdt) \<and> protected s' = protected s \<and> real_addr 0x08 target = 0x80 + ucast target \<and> mem 0x7C00 = 0x49"
proof -
  have "mem 0x7C00 = 0x49"
    using assms by (auto simp: sector_loaded_def strings_def msg_text_def bytes_def dest: spec [of _ 0])
  then show ?thesis
    by (simp add: boot_start_def load_kernel_def enter_pm_def clear_screen_def call_bios_def sector_strings [OF assms] Let_def
        real_addr_def msg_text_def loading_text_def success_text_def disk_error_text_def butlast_append)
qed

theorem boot_sector_run_witness:
  "\<exists>s'. boot_start (\<lambda>a. if 0x7C00 \<le> a \<and> unat (a - 0x7C00) < length strings then strings ! unat (a - 0x7C00) else 0) False 0x7D00
     \<lparr>seg_ds = 0x1000, seg_es = 0, seg_fs = 0, seg_gs = 0, seg_ss = 0, reg_sp = 0, interrupts_on = False, protected = False,
      gdt_register = [], bios = []\<rparr> =
     Some (Jumps 0x08 0x7D00, s')"
proof -
  let ?mem = "\<lambda>a :: u32. if 0x7C00 \<le> a \<and> unat (a - 0x7C00) < length strings then strings ! unat (a - 0x7C00) else 0"
  have len: "length strings = 106" by (simp add: strings_def msg_text_def loading_text_def success_text_def disk_error_text_def bytes_def)
  have u: "unat (word_of_nat i :: u32) = i" "(0x7C00 :: u32) \<le> 0x7C00 + word_of_nat i" if "i < 106" for i
    using that by (simp_all add: unat_of_nat_small word_le_nat_alt unat_add_small)
  have "sector_loaded ?mem" using u by (simp add: sector_loaded_def len)
  from boot_sector_run [OF this, of False "0x7D00"] show ?thesis by auto
qed

end
