(* ===== verification/Process.thy ===== *)
theory Process
  imports Heap Interrupts
begin

text \<open>
  Processes and the scheduler (\<^verbatim>\<open>process/process.c\<close>, \<^verbatim>\<open>process/scheduler.c\<close> and the context
  switch of \<^verbatim>\<open>process/switch.asm\<close>). Process control blocks live at the addresses that
  \<^verbatim>\<open>kmalloc\<close> returned; a block that was freed is gone from the store, so using it again is
  undefined behaviour. Operations return \<^const>\<open>None\<close> when they dereference an invalid pointer or
  never return. The same \<^verbatim>\<open>next\<close> field links the list of all processes, which ends in a null
  pointer, and the circular ready queues, as in the source.
\<close>

section \<open>State\<close>

datatype process_state_t = PROCESS_READY | PROCESS_RUNNING | PROCESS_BLOCKED | PROCESS_TERMINATED

record cpu_context =
  r_eax :: u32
  r_ebx :: u32
  r_ecx :: u32
  r_edx :: u32
  r_esi :: u32
  r_edi :: u32
  r_ebp :: u32
  r_esp :: u32
  r_eip :: u32
  r_eflags :: u32
  r_cr3 :: u32

text \<open>\<open>pname\<close> is the initialised prefix of the name array.\<close>

record process_t =
  pid :: u32
  pname :: "u8 list"
  pstate :: process_state_t
  priority :: u32
  ctx :: cpu_context
  page_dir :: u32
  kernel_stack :: u32
  user_stack :: u32
  quantum :: u32
  total_time :: u32
  next_proc :: u32
  parent :: u32

text \<open>\<open>cpu\<close> holds the registers; while the scheduler runs, \<open>r_eip\<close> is the return address on
  top of the stack.\<close>

record psys = rheap +
  procs :: "u32 \<Rightarrow> process_t option"
  current_process :: u32
  idle_process :: u32
  process_list :: u32
  next_pid :: u32
  ready_queue :: "u32 list"
  irq_table :: handlers
  cpu :: cpu_context

definition DEFAULT_QUANTUM :: u32 where [simp]: "DEFAULT_QUANTUM = 50"
definition PRIORITY_LOW :: u32 where [simp]: "PRIORITY_LOW = 0"
definition sizeof_process :: u32 where [simp]: "sizeof_process = 116"

definition upd :: "u32 \<Rightarrow> (process_t \<Rightarrow> process_t) \<Rightarrow> psys \<Rightarrow> psys option" where
  "upd p f s = do { c \<leftarrow> procs s p; Some (s\<lparr>procs := (procs s)(p \<mapsto> f c)\<rparr>) }"

section \<open>Context switch (switch.asm)\<close>

text \<open>
  The registers after \<^verbatim>\<open>switch_to_process\<close> and the saved old context. \<^verbatim>\<open>ebx\<close> is loaded from the
  new context and then overwritten by \<^verbatim>\<open>mov ebx, cr3\<close>; \<^verbatim>\<open>edx\<close> still points at the new
  context; the saved stack pointer still points at the return address.
\<close>

definition switch_to_process :: "u32 \<Rightarrow> cpu_context \<Rightarrow> cpu_context \<Rightarrow> cpu_context \<times> cpu_context" where
  "switch_to_process new_addr new_ctx r =
     (\<lparr>r_eax = 0, r_ebx = r_ebx r, r_ecx = r_ecx r, r_edx = 0, r_esi = r_esi r, r_edi = r_edi r,
       r_ebp = r_ebp r, r_esp = r_esp r, r_eip = r_eip r, r_eflags = r_eflags r, r_cr3 = r_cr3 r\<rparr>,
      \<lparr>r_eax = r_eax new_ctx, r_ebx = r_cr3 r, r_ecx = r_ecx new_ctx, r_edx = new_addr, r_esi = r_esi new_ctx,
       r_edi = r_edi new_ctx, r_ebp = r_ebp new_ctx, r_esp = r_esp new_ctx, r_eip = r_eip new_ctx,
       r_eflags = r_eflags new_ctx, r_cr3 = r_cr3 new_ctx\<rparr>)"

section \<open>Scheduler\<close>

partial_function (option) queue_last :: "(u32 \<Rightarrow> process_t option) \<Rightarrow> u32 \<Rightarrow> u32 \<Rightarrow> u32 option" where
  "queue_last ps first last_p =
     do { c \<leftarrow> ps last_p; if next_proc c = first then Some last_p else queue_last ps first (next_proc c) }"

definition clamp_prio :: "u32 \<Rightarrow> nat" where
  "clamp_prio prio = (if prio > 3 then 3 else unat prio)"

definition scheduler_add_process :: "u32 \<Rightarrow> psys \<Rightarrow> psys option" where
  "scheduler_add_process process s0 =
     (if process = 0 then Some s0
      else do {
        s \<leftarrow> upd process (\<lambda>c. c\<lparr>pstate := PROCESS_READY, quantum := DEFAULT_QUANTUM\<rparr>) s0;
        c \<leftarrow> procs s process;
        let prio = clamp_prio (priority c);
        let first = ready_queue s ! prio;
        if first = 0 then
          upd process (\<lambda>c. c\<lparr>next_proc := process\<rparr>) (s\<lparr>ready_queue := (ready_queue s)[prio := process]\<rparr>)
        else do {
          l \<leftarrow> queue_last (procs s) first first;
          s \<leftarrow> upd l (\<lambda>c. c\<lparr>next_proc := process\<rparr>) s;
          upd process (\<lambda>c. c\<lparr>next_proc := first\<rparr>) s
        }
      })"

text \<open>The search of \<^verbatim>\<open>scheduler_remove_process\<close>: the block before \<open>process\<close>, if any.\<close>

partial_function (option) ring_pred ::
    "(u32 \<Rightarrow> process_t option) \<Rightarrow> u32 \<Rightarrow> u32 \<Rightarrow> u32 \<Rightarrow> u32 option option" where
  "ring_pred ps process first p =
     do { c \<leftarrow> ps p;
          if next_proc c = process then Some (Some p)
          else if next_proc c = first then Some None
          else ring_pred ps process first (next_proc c) }"

definition scheduler_remove_process :: "u32 \<Rightarrow> psys \<Rightarrow> psys option" where
  "scheduler_remove_process process s =
     (if process = 0 then Some s
      else do {
        c \<leftarrow> procs s process;
        let prio = clamp_prio (priority c);
        let first = ready_queue s ! prio;
        if first = 0 then Some s
        else do {
          f \<leftarrow> procs s first;
          if next_proc f = first then Some (s\<lparr>ready_queue := (ready_queue s)[prio := 0]\<rparr>)
          else do {
            r \<leftarrow> ring_pred (procs s) process first first;
            case r of
              None \<Rightarrow> Some s
            | Some p \<Rightarrow> do {
                s \<leftarrow> upd p (\<lambda>d. d\<lparr>next_proc := next_proc c\<rparr>) s;
                c' \<leftarrow> procs s process;
                Some (if first = process then s\<lparr>ready_queue := (ready_queue s)[prio := next_proc c']\<rparr> else s)
              }
          }
        }
      })"

text \<open>The loop of \<^verbatim>\<open>select_next_process\<close>, from priority \<open>n - 1\<close> down to 0.\<close>

fun select_loop :: "nat \<Rightarrow> psys \<Rightarrow> (u32 \<times> psys) option" where
  "select_loop 0 s = Some (idle_process s, s)"
| "select_loop (Suc n) s =
     (if ready_queue s ! n \<noteq> 0 then do {
        c \<leftarrow> procs s (ready_queue s ! n);
        Some (ready_queue s ! n, s\<lparr>ready_queue := (ready_queue s)[n := next_proc c]\<rparr>)
      } else select_loop n s)"

definition select_next_process :: "psys \<Rightarrow> (u32 \<times> psys) option" where
  "select_next_process s = select_loop 4 s"

text \<open>The context of a process starts 44 bytes into its control block.\<close>

definition schedule :: "psys \<Rightarrow> psys option" where
  "schedule s0 =
     (if current_process s0 = 0 then Some s0
      else do {
        c \<leftarrow> procs s0 (current_process s0);
        s \<leftarrow> (if pstate c = PROCESS_RUNNING then scheduler_add_process (current_process s0) s0 else Some s0);
        (n, s) \<leftarrow> select_next_process s;
        let nxt = (if n = 0 then idle_process s else n);
        if nxt = current_process s
        then upd (current_process s) (\<lambda>c. c\<lparr>quantum := DEFAULT_QUANTUM\<rparr>) s
        else do {
          let old = current_process s;
          s \<leftarrow> upd nxt (\<lambda>c. c\<lparr>pstate := PROCESS_RUNNING, quantum := DEFAULT_QUANTUM\<rparr>)
                 (s\<lparr>current_process := nxt\<rparr>);
          nc \<leftarrow> procs s nxt;
          let (saved, regs) = switch_to_process (nxt + 44) (ctx nc) (cpu s);
          s \<leftarrow> upd old (\<lambda>c. c\<lparr>ctx := saved\<rparr>) s;
          Some (s\<lparr>cpu := regs, cr3 := r_cr3 regs\<rparr>)
        }
      })"

definition yield :: "psys \<Rightarrow> psys option" where
  "yield s = do { s \<leftarrow> upd (current_process s) (\<lambda>c. c\<lparr>quantum := 0\<rparr>) s; schedule s }"

definition scheduler_tick :: "psys \<Rightarrow> psys option" where
  "scheduler_tick s0 =
     (if current_process s0 = 0 then Some s0
      else do {
        c \<leftarrow> procs s0 (current_process s0);
        s \<leftarrow> (if quantum c > 0
              then upd (current_process s0) (\<lambda>c. c\<lparr>quantum := quantum c - 1, total_time := total_time c + 1\<rparr>) s0
              else Some s0);
        c \<leftarrow> procs s (current_process s);
        if quantum c = 0 then schedule s else Some s
      })"

definition scheduler_init :: "psys \<Rightarrow> psys" where
  "scheduler_init s =
     s\<lparr>irq_table := register_interrupt_handler 32 Scheduler_tick (irq_table s), ready_queue := [0, 0, 0, 0]\<rparr>"

section \<open>Processes\<close>

text \<open>The name is copied up to its NUL, at most 31 bytes; running off the argument is undefined.\<close>

fun copy_name :: "nat \<Rightarrow> u8 list \<Rightarrow> u8 list option" where
  "copy_name 0 name = Some []"
| "copy_name (Suc n) [] = None"
| "copy_name (Suc n) (c # cs) = (if c = 0 then Some [] else map_option (Cons c) (copy_name n cs))"

partial_function (option) list_last :: "(u32 \<Rightarrow> process_t option) \<Rightarrow> u32 \<Rightarrow> u32 option" where
  "list_last ps p = do { c \<leftarrow> ps p; if next_proc c = 0 then Some p else list_last ps (next_proc c) }"

definition ok :: "rust_stop + 'a \<Rightarrow> 'a option" where
  "ok r = (case r of Inl e \<Rightarrow> None | Inr x \<Rightarrow> Some x)"

definition process_create :: "u8 list \<Rightarrow> u32 \<Rightarrow> u32 \<Rightarrow> psys \<Rightarrow> (u32 \<times> psys) option" where
  "process_create name entry_point prio s0 =
     do {
       (process, s) \<leftarrow> ok (kmalloc sizeof_process s0);
       if process = 0 then Some (0, s)
       else do {
         nm \<leftarrow> copy_name 31 name;
         let new_pid = next_pid s;
         let s = s\<lparr>next_pid := next_pid s + 1\<rparr>;
         let par = current_process s;
         (ks, s) \<leftarrow> ok (kmalloc 8192 s);
         (us, s) \<leftarrow> ok (kmalloc 8192 s);
         let kstack = ks + 8192;
         let ustack = us + 8192;
         let pd = vmm_get_current_directory s;
         let s = s\<lparr>procs := (procs s)(process \<mapsto>
             \<lparr>pid = new_pid, pname = nm @ [0], pstate = PROCESS_READY, priority = prio,
              ctx = \<lparr>r_eax = 0, r_ebx = 0, r_ecx = 0, r_edx = 0, r_esi = 0, r_edi = 0, r_ebp = ustack,
                     r_esp = ustack, r_eip = entry_point, r_eflags = 0x202, r_cr3 = pd\<rparr>,
              page_dir = pd, kernel_stack = kstack, user_stack = ustack, quantum = DEFAULT_QUANTUM,
              total_time = 0, next_proc = 0, parent = par\<rparr>)\<rparr>;
         if process_list s = 0 then Some (process, s\<lparr>process_list := process\<rparr>)
         else do {
           l \<leftarrow> list_last (procs s) (process_list s);
           s \<leftarrow> upd l (\<lambda>c. c\<lparr>next_proc := process\<rparr>) s;
           Some (process, s)
         }
       }
     }"

text \<open>\<^verbatim>\<open>while (p && p->next != process)\<close>; the result is 0 when the list ends first.\<close>

partial_function (option) list_pred :: "(u32 \<Rightarrow> process_t option) \<Rightarrow> u32 \<Rightarrow> u32 \<Rightarrow> u32 option" where
  "list_pred ps process p =
     (if p = 0 then Some 0
      else do { c \<leftarrow> ps p; if next_proc c = process then Some p else list_pred ps process (next_proc c) })"

definition process_terminate :: "u32 \<Rightarrow> psys \<Rightarrow> psys option" where
  "process_terminate process s0 =
     (if process = 0 then Some s0
      else do {
        s \<leftarrow> upd process (\<lambda>c. c\<lparr>pstate := PROCESS_TERMINATED\<rparr>) s0;
        c \<leftarrow> procs s process;
        s \<leftarrow> (if process_list s = process then Some (s\<lparr>process_list := next_proc c\<rparr>)
              else do {
                p \<leftarrow> list_pred (procs s) process (process_list s);
                if p = 0 then Some s else upd p (\<lambda>d. d\<lparr>next_proc := next_proc c\<rparr>) s
              });
        c \<leftarrow> procs s process;
        s \<leftarrow> ok (kfree (kernel_stack c - 8192) s);
        s \<leftarrow> ok (kfree (user_stack c - 8192) s);
        s \<leftarrow> ok (kfree process s);
        let s = s\<lparr>procs := (procs s)(process := None)\<rparr>;
        if current_process s = process then schedule s else Some s
      })"

definition process_get_current :: "psys \<Rightarrow> u32" where
  "process_get_current s = current_process s"

partial_function (option) find_pid :: "(u32 \<Rightarrow> process_t option) \<Rightarrow> u32 \<Rightarrow> u32 \<Rightarrow> u32 option" where
  "find_pid ps n p =
     (if p = 0 then Some 0 else do { c \<leftarrow> ps p; if pid c = n then Some p else find_pid ps n (next_proc c) })"

definition process_find_by_pid :: "u32 \<Rightarrow> psys \<Rightarrow> u32 option" where
  "process_find_by_pid n s = find_pid (procs s) n (process_list s)"

text \<open>\<open>idle_task\<close> is the address of the idle loop.\<close>

definition process_init :: "u32 \<Rightarrow> psys \<Rightarrow> psys option" where
  "process_init idle_task s0 =
     do { (p, s) \<leftarrow> process_create (cstr ''idle'') idle_task PRIORITY_LOW s0;
          Some (s\<lparr>idle_process := p, current_process := p\<rparr>) }"

section \<open>Queues as lists\<close>

abbreviation next_of :: "(u32 \<Rightarrow> process_t option) \<Rightarrow> u32 \<Rightarrow> u32 option" where
  "next_of ps a \<equiv> map_option next_proc (ps a)"

abbreviation prio_of :: "(u32 \<Rightarrow> process_t option) \<Rightarrow> u32 \<Rightarrow> nat option" where
  "prio_of ps a \<equiv> map_option (\<lambda>c. clamp_prio (priority c)) (ps a)"

text \<open>\<open>pseg ps p xs q\<close>: following \<^verbatim>\<open>next\<close> from \<open>p\<close> visits \<open>xs\<close> and arrives at \<open>q\<close>.\<close>

fun pseg :: "(u32 \<Rightarrow> process_t option) \<Rightarrow> u32 \<Rightarrow> u32 list \<Rightarrow> u32 \<Rightarrow> bool" where
  "pseg ps p [] q \<longleftrightarrow> p = q"
| "pseg ps p (a # as) q \<longleftrightarrow> p = a \<and> a \<noteq> 0 \<and> (\<exists>n. next_of ps a = Some n \<and> pseg ps n as q)"

definition ring :: "(u32 \<Rightarrow> process_t option) \<Rightarrow> u32 \<Rightarrow> u32 list \<Rightarrow> bool" where
  "ring ps h xs \<longleftrightarrow> xs \<noteq> [] \<and> distinct xs \<and> pseg ps h xs h"

definition queue_ok :: "(u32 \<Rightarrow> process_t option) \<Rightarrow> nat \<Rightarrow> u32 \<Rightarrow> u32 list \<Rightarrow> bool" where
  "queue_ok ps i h xs \<longleftrightarrow> (if xs = [] then h = 0 else ring ps h xs) \<and> (\<forall>p \<in> set xs. prio_of ps p = Some i)"

text \<open>The four ready queues hold the lists \<open>qs\<close>, head first.\<close>

definition queues :: "psys \<Rightarrow> u32 list list \<Rightarrow> bool" where
  "queues s qs \<longleftrightarrow> length qs = 4 \<and> length (ready_queue s) = 4 \<and>
     (\<forall>i < 4. queue_ok (procs s) i (ready_queue s ! i) (qs ! i))"

lemma pseg_append: "pseg ps p (xs @ ys) q \<longleftrightarrow> (\<exists>r. pseg ps p xs r \<and> pseg ps r ys q)"
  by (induction xs arbitrary: p) auto

lemma pseg_cong: "(\<And>a. a \<in> set xs \<Longrightarrow> next_of ps' a = next_of ps a) \<Longrightarrow> pseg ps' p xs q = pseg ps p xs q"
  by (induction xs arbitrary: p) auto

lemma pseg_hd: "pseg ps p xs q \<Longrightarrow> xs \<noteq> [] \<Longrightarrow> p = hd xs \<and> p \<noteq> 0"
  by (cases xs) auto

lemma queue_ok_cong:
  assumes "\<And>a. a \<in> set xs \<Longrightarrow> next_of ps' a = next_of ps a" and "\<And>a. prio_of ps' a = prio_of ps a"
  shows "queue_ok ps' i h xs = queue_ok ps i h xs"
  using assms pseg_cong [of xs ps' ps] by (simp add: queue_ok_def ring_def)

lemma ring_hd: "ring ps h xs \<Longrightarrow> h = hd xs \<and> h \<noteq> 0 \<and> h \<in> set xs"
  using pseg_hd [of ps h xs h] by (auto simp: ring_def)

lemma queue_ok_head: "queue_ok ps i h xs \<Longrightarrow> h = 0 \<longleftrightarrow> xs = []"
  using ring_hd [of ps h xs] by (auto simp: queue_ok_def split: if_splits)

lemma queuesD:
  assumes "queues s qs" and "i < 4"
  shows "queue_ok (procs s) i (ready_queue s ! i) (qs ! i)" and "length qs = 4" and "length (ready_queue s) = 4"
    and "ready_queue s ! i = 0 \<longleftrightarrow> qs ! i = []" and "qs ! i \<noteq> [] \<Longrightarrow> ready_queue s ! i = hd (qs ! i)"
    and "p \<in> set (qs ! i) \<Longrightarrow> prio_of (procs s) p = Some i"
  using assms queue_ok_head [of "procs s" i "ready_queue s ! i" "qs ! i"] ring_hd [of "procs s" "ready_queue s ! i" "qs ! i"]
  by (auto simp: queues_def queue_ok_def split: if_splits)

text \<open>Changing one queue leaves the others as they were: a process is in the queue of its priority only.\<close>

lemma queues_update:
  assumes q: "queues s qs" and i: "i < 4"
    and rq: "ready_queue s' = (ready_queue s)[i := h]"
    and nx: "\<And>a. prio_of (procs s) a \<noteq> Some i \<Longrightarrow> next_of (procs s') a = next_of (procs s) a"
    and pr: "\<And>a. prio_of (procs s') a = prio_of (procs s) a"
    and ok: "queue_ok (procs s') i h xs"
  shows "queues s' (qs[i := xs])"
proof -
  have "queue_ok (procs s') j (ready_queue s' ! j) (qs[i := xs] ! j)" if j: "j < 4" for j
  proof (cases "j = i")
    case True
    then show ?thesis using ok q i by (simp add: rq queues_def)
  next
    case False
    have "next_of (procs s') a = next_of (procs s) a" if "a \<in> set (qs ! j)" for a
      using queuesD(6) [OF q j that] False by (intro nx) auto
    with False queuesD(1) [OF q j] show ?thesis
      by (simp add: rq queue_ok_cong [of "qs ! j" "procs s'" "procs s", OF _ pr])
  qed
  then show ?thesis using q by (simp add: queues_def rq)
qed

section \<open>Adding\<close>

lemma queue_last_spec:
  assumes "pseg ps p xs f" and "xs \<noteq> []" and "f \<notin> set (tl xs)"
  shows "queue_last ps f p = Some (last xs)"
  using assms
proof (induction xs arbitrary: p)
  case (Cons a xs)
  then obtain c where c: "p = a" "ps a = Some c" "pseg ps (next_proc c) xs f" by auto
  show ?case
  proof (cases "xs = []")
    case True
    then show ?thesis using c by (subst queue_last.simps) simp
  next
    case False
    have hd: "next_proc c = hd xs" using pseg_hd [OF c(3) False] by simp
    then have ne: "next_proc c \<noteq> f" using Cons.prems(3) False by (auto simp: hd_in_set)
    have "f \<notin> set (tl xs)" using Cons.prems(3) by (cases xs) auto
    then show ?thesis using Cons.IH [OF c(3) False] c(1,2) ne False by (subst queue_last.simps) simp
  qed
qed simp

lemma ring_last:
  assumes "ring ps h xs"
  shows "queue_last ps h h = Some (last xs)"
proof -
  have "h \<notin> set (tl xs)" using assms ring_hd [OF assms] by (cases xs) (auto simp: ring_def)
  then show ?thesis using assms queue_last_spec [of ps h xs h] by (simp add: ring_def)
qed

lemma upd_Some: "procs s p = Some c \<Longrightarrow> upd p f s = Some (s\<lparr>procs := (procs s)(p \<mapsto> f c)\<rparr>)"
  by (simp add: upd_def)

text \<open>The process after it has been put in a queue: only its scheduling fields and link change.\<close>

abbreviation made_ready :: "process_t \<Rightarrow> u32 \<Rightarrow> process_t" where
  "made_ready c n \<equiv> c\<lparr>pstate := PROCESS_READY, quantum := 50, next_proc := n\<rparr>"

lemma pseg_snoc:
  assumes "pseg ps p xs q" and "q \<noteq> 0" and "next_of ps q = Some n"
  shows "pseg ps p (xs @ [q]) n"
  using assms by (simp add: pseg_append)

text \<open>Linking \<open>p\<close> behind \<open>xs\<close> and back to the first element closes a ring.\<close>

lemma close_ring:
  assumes "pseg ps h xs r" and "xs = [] \<or> next_of ps' (last xs) = Some p" and "p \<notin> set xs" and "distinct xs"
    and "p \<noteq> 0" and "next_of ps' p = Some (if xs = [] then p else h)"
    and "\<And>a. a \<in> set (butlast xs) \<Longrightarrow> next_of ps' a = next_of ps a"
  shows "ring ps' (if xs = [] then p else h) (xs @ [p])"
proof (cases xs rule: rev_cases)
  case Nil
  then show ?thesis using assms(5,6) by (simp add: ring_def)
next
  case (snoc ys l)
  with assms(1) have "pseg ps h ys l" and l: "l \<noteq> 0" by (auto simp: pseg_append)
  then have "pseg ps' h ys l" using assms(7) snoc pseg_cong [of ys ps' ps] by simp
  then have "pseg ps' h (ys @ [l]) p" using assms(2) snoc l by (auto intro: pseg_snoc)
  then have "pseg ps' h (xs @ [p]) h" using snoc assms(5,6) by (intro pseg_snoc) simp_all
  then show ?thesis using assms(3,4) snoc by (auto simp: ring_def)
qed

text \<open>The elements of a queue before \<open>p\<close>: all of them when \<open>p\<close> is not queued.\<close>

abbreviation before :: "u32 \<Rightarrow> u32 list \<Rightarrow> u32 list" where
  "before p xs \<equiv> takeWhile (\<lambda>x. x \<noteq> p) xs"

lemma before_split: "p \<in> set xs \<Longrightarrow> \<exists>zs. xs = before p xs @ p # zs"
  by (induction xs) auto

lemma before_notin: "p \<notin> set (before p xs)"
  using set_takeWhileD [of p "\<lambda>x. x \<noteq> p" xs] by auto

lemma add_links:
  assumes R: "ring ps h xs" and c: "ps p = Some c" and p0: "p \<noteq> 0"
    and l: "l = last xs"
    and ps3: "ps3 p = Some (made_ready c h)" "l \<noteq> p \<Longrightarrow> next_of ps3 l = Some p"
      "\<And>a. a \<noteq> p \<Longrightarrow> a \<noteq> l \<Longrightarrow> ps3 a = ps a"
  shows "ring ps3 h (before p xs @ [p])"
proof -
  let ?pre = "before p xs"
  from R have sg: "pseg ps h xs h" and d: "distinct xs" and ne: "xs \<noteq> []" by (auto simp: ring_def)
  have hd: "h = hd xs" using ring_hd [OF R] by simp
  have key: "(\<exists>r. pseg ps h ?pre r) \<and> (?pre \<noteq> [] \<longrightarrow> next_of ps3 (last ?pre) = Some p) \<and>
      (?pre = [] \<longrightarrow> p = h) \<and> (\<forall>a \<in> set (butlast ?pre). next_of ps3 a = next_of ps a)"
  proof (cases "p \<in> set xs")
    case True
    then obtain zs where xs: "xs = ?pre @ p # zs" using before_split by blast
    have pre: "pseg ps h ?pre p" and ph: "?pre = [] \<longrightarrow> p = h"
      using sg hd by (subst (asm) xs, auto simp: pseg_append, metis xs append_Nil list.sel(1))
    have ll: "l = p \<or> l \<in> set zs" using l xs by (metis last_ConsL last_ConsR last_append last_in_set list.distinct(1))
    have out: "a \<noteq> p \<and> a \<noteq> l" if "a \<in> set ?pre" for a
      using that ll d before_notin [of p xs] by (subst (asm) (2) xs) auto
    have "next_of ps (last ?pre) = Some p" if "?pre \<noteq> []"
      using pre that by (cases ?pre rule: rev_cases) (auto simp: pseg_append)
    then show ?thesis using pre ph out ps3(3) by (auto dest: in_set_butlastD)
  next
    case False
    then have xs: "?pre = xs" by (intro takeWhile_eq_all_conv [THEN iffD2]) auto
    have "l \<noteq> p" using False l ne by auto
    moreover have "a \<noteq> l" if "a \<in> set (butlast xs)" for a
      using that d l ne by (metis append_butlast_last_id distinct_append disjoint_insert(2) distinct.simps(2) list.set(2) not_distinct_conv_prefix)
    ultimately have o: "next_of ps3 a = next_of ps a" if "a \<in> set (butlast xs)" for a
      using that False l ps3(3) [of a] by (metis in_set_butlastD)
    show ?thesis
      unfolding xs using sg ne l ps3(2) \<open>l \<noteq> p\<close> o by blast
  qed
  from key obtain r where r: "pseg ps h ?pre r" by blast
  have "ring ps3 (if ?pre = [] then p else h) (?pre @ [p])"
    by (rule close_ring [OF r]) (use key ps3(1) p0 d before_notin [of p xs] in \<open>auto simp: distinct_takeWhile\<close>)
  then show ?thesis using key by (cases "?pre = []") auto
qed

text \<open>Two stores that differ in scheduling fields and links only.\<close>

definition same_but_links :: "(u32 \<Rightarrow> process_t option) \<Rightarrow> (u32 \<Rightarrow> process_t option) \<Rightarrow> u32 \<Rightarrow> bool" where
  "same_but_links ps' ps a \<longleftrightarrow>
     map_option (\<lambda>c. c\<lparr>next_proc := 0\<rparr>) (ps' a) = map_option (\<lambda>c. c\<lparr>next_proc := 0\<rparr>) (ps a)"

lemma same_but_links_fields:
  assumes "same_but_links ps' ps a" and "ps a = Some c"
  shows "\<exists>n. ps' a = Some (c\<lparr>next_proc := n\<rparr>)"
proof -
  from assms obtain c' where c': "ps' a = Some c'" "c'\<lparr>next_proc := 0\<rparr> = c\<lparr>next_proc := 0\<rparr>"
    by (auto simp: same_but_links_def)
  from arg_cong [OF c'(2), of "\<lambda>c. c\<lparr>next_proc := next_proc c'\<rparr>"]
  have "c' = c\<lparr>next_proc := next_proc c'\<rparr>" by simp
  with c'(1) show ?thesis by metis
qed

lemma clamp_prio_less: "clamp_prio w < 4"
  by (auto simp: clamp_prio_def word_less_nat_alt)

lemma scheduler_add_spec:
  assumes q: "queues s qs" and c: "procs s p = Some c" and p0: "p \<noteq> 0"
  defines "i \<equiv> clamp_prio (priority c)"
  obtains ps rq n where "scheduler_add_process p s = Some (s\<lparr>procs := ps, ready_queue := rq\<rparr>)"
    and "queues (s\<lparr>procs := ps, ready_queue := rq\<rparr>) (qs[i := before p (qs ! i) @ [p]])"
    and "ps p = Some (made_ready c n)" and "\<And>a. a \<noteq> p \<Longrightarrow> same_but_links ps (procs s) a"
proof -
  have i: "i < 4" unfolding i_def by (rule clamp_prio_less)
  let ?c1 = "c\<lparr>pstate := PROCESS_READY, quantum := 50\<rparr>"
  let ?ps1 = "(procs s)(p \<mapsto> ?c1)" and ?xs = "qs ! i" and ?h = "ready_queue s ! i"
  let ?s1 = "s\<lparr>procs := ?ps1\<rparr>"
  have add: "scheduler_add_process p s =
      (if ?h = 0 then upd p (\<lambda>c. c\<lparr>next_proc := p\<rparr>) (?s1\<lparr>ready_queue := (ready_queue s)[i := p]\<rparr>)
       else do { l \<leftarrow> queue_last ?ps1 ?h ?h; s2 \<leftarrow> upd l (\<lambda>c. c\<lparr>next_proc := p\<rparr>) ?s1;
                 upd p (\<lambda>c. c\<lparr>next_proc := ?h\<rparr>) s2 })"
    using p0 c by (simp add: scheduler_add_process_def upd_Some i_def Let_def)
  show thesis
  proof (cases "?xs = []")
    case True
    let ?ps = "(procs s)(p \<mapsto> made_ready c p)" and ?rq = "(ready_queue s)[i := p]"
    have h0: "?h = 0" using queuesD(4) [OF q i] True by simp
    have a: "scheduler_add_process p s = Some (s\<lparr>procs := ?ps, ready_queue := ?rq\<rparr>)"
      unfolding add using h0 by (simp add: upd_def)
    have "queue_ok ?ps i p (before p ?xs @ [p])"
      using True p0 by (simp add: queue_ok_def ring_def i_def)
    then have "queues (s\<lparr>procs := ?ps, ready_queue := ?rq\<rparr>) (qs[i := before p ?xs @ [p]])"
      by (intro queues_update [OF q i]) (use c in \<open>auto simp: i_def\<close>)
    from that [OF a this] show thesis by (auto simp: same_but_links_def)
  next
    case False
    then have h0: "?h \<noteq> 0" and R: "ring (procs s) ?h ?xs"
      using queuesD(1,4) [OF q i] by (auto simp: queue_ok_def)
    have "ring ?ps1 ?h ?xs" using R pseg_cong [of ?xs ?ps1 "procs s"] c by (simp add: ring_def)
    then have ql: "queue_last ?ps1 ?h ?h = Some (last ?xs)" by (rule ring_last)
    let ?l = "last ?xs"
    have "prio_of (procs s) ?l = Some i" using queuesD(6) [OF q i, of ?l] False by simp
    then obtain d where d: "procs s ?l = Some d" "clamp_prio (priority d) = i" by auto
    define ps where "ps = (if ?l = p then (procs s)(p \<mapsto> made_ready c ?h)
        else (procs s)(?l \<mapsto> d\<lparr>next_proc := p\<rparr>, p \<mapsto> made_ready c ?h))"
    have a: "scheduler_add_process p s = Some (s\<lparr>procs := ps, ready_queue := ready_queue s\<rparr>)"
      unfolding add using h0 ql d(1) by (auto simp: upd_def ps_def fun_upd_twist)
    have "ring ps ?h (before p ?xs @ [p])"
      by (rule add_links [OF R c p0 refl]) (auto simp: ps_def)
    moreover have pr: "prio_of ps a = prio_of (procs s) a" for a using c d by (simp add: ps_def)
    moreover have "prio_of ps p = Some i" using c by (simp add: ps_def i_def)
    ultimately have "queue_ok ps i ?h (before p ?xs @ [p])"
      using queuesD(6) [OF q i] pr by (auto simp: queue_ok_def dest: set_takeWhileD)
    then have "queues (s\<lparr>procs := ps, ready_queue := ready_queue s\<rparr>) (qs[i := before p ?xs @ [p]])"
      using pr by (intro queues_update [OF q i, where h = ?h]) (use c d in \<open>auto simp: ps_def i_def\<close>)
    from that [OF a this] show thesis using d(1) by (auto simp: ps_def same_but_links_def)
  qed
qed

section \<open>Selecting\<close>

text \<open>\<open>i\<close> is the highest priority with a ready process.\<close>

definition top_queue :: "u32 list list \<Rightarrow> nat \<Rightarrow> bool" where
  "top_queue qs i \<longleftrightarrow> i < 4 \<and> qs ! i \<noteq> [] \<and> (\<forall>j < 4. i < j \<longrightarrow> qs ! j = [])"

lemma select_loop_skip:
  assumes "i < n" and "ready_queue s ! i \<noteq> 0" and "\<And>j. i < j \<Longrightarrow> j < n \<Longrightarrow> ready_queue s ! j = 0"
    and "procs s (ready_queue s ! i) = Some c"
  shows "select_loop n s = Some (ready_queue s ! i, s\<lparr>ready_queue := (ready_queue s)[i := next_proc c]\<rparr>)"
  using assms
proof (induction n)
  case 0
  from 0(1) show ?case by simp
next
  case (Suc n)
  show ?case
  proof (cases "n = i")
    case True
    with Suc.prems(2,4) show ?thesis by simp
  next
    case False
    then have "i < n" "ready_queue s ! n = 0" using Suc.prems(1) Suc.prems(3) [of n] by auto
    with Suc.IH Suc.prems(2-4) show ?thesis by simp
  qed
qed

lemma select_loop_idle: "(\<And>j. j < n \<Longrightarrow> ready_queue s ! j = 0) \<Longrightarrow> select_loop n s = Some (idle_process s, s)"
  by (induction n) auto

lemma ring_rotate:
  assumes "ring ps h xs"
  shows "\<exists>c. ps h = Some c \<and> ring ps (next_proc c) (rotate1 xs) \<and> next_proc c = hd (rotate1 xs)"
proof -
  from ring_hd [OF assms] obtain t where xs: "xs = h # t" using assms by (cases xs) (auto simp: ring_def)
  with assms obtain c where c: "ps h = Some c" "pseg ps (next_proc c) t h" "h \<noteq> 0" "distinct xs"
    by (auto simp: ring_def)
  have n: "next_proc c = hd (t @ [h])" using c(2) pseg_hd [OF c(2)] by (cases t) auto
  have "pseg ps (next_proc c) (t @ [h]) (next_proc c)" using c by (intro pseg_snoc) simp_all
  then show ?thesis using c xs n by (auto simp: ring_def)
qed

lemma select_next_spec:
  assumes q: "queues s qs" and top: "top_queue qs i"
  defines "s' \<equiv> s\<lparr>ready_queue := (ready_queue s)[i := hd (rotate1 (qs ! i))]\<rparr>"
  shows "select_next_process s = Some (hd (qs ! i), s')" and "queues s' (qs[i := rotate1 (qs ! i)])"
proof -
  from top have i: "i < 4" and ne: "qs ! i \<noteq> []" by (auto simp: top_queue_def)
  note d = queuesD [OF q i]
  have R: "ring (procs s) (ready_queue s ! i) (qs ! i)" using d(1) ne by (simp add: queue_ok_def)
  then obtain c where c: "procs s (ready_queue s ! i) = Some c"
    "ring (procs s) (next_proc c) (rotate1 (qs ! i))" "next_proc c = hd (rotate1 (qs ! i))"
    using ring_rotate by blast
  have "ready_queue s ! j = 0" if "i < j" "j < 4" for j
    using queuesD(4) [OF q that(2)] top that by (auto simp: top_queue_def)
  then show "select_next_process s = Some (hd (qs ! i), s')"
    unfolding select_next_process_def s'_def using c d(4,5) ne i
    by (subst select_loop_skip [of i 4 s c]) auto
  have "queue_ok (procs s') i (next_proc c) (rotate1 (qs ! i))"
    using c(2) ne d(6) by (auto simp: queue_ok_def s'_def)
  then show "queues s' (qs[i := rotate1 (qs ! i)])"
    by (intro queues_update [OF q i, where h = "next_proc c"]) (auto simp: s'_def c(3))
qed

text \<open>A sequence of selections, as repeated calls of the scheduler make them.\<close>

fun selections :: "nat \<Rightarrow> psys \<Rightarrow> (u32 list \<times> psys) option" where
  "selections 0 s = Some ([], s)"
| "selections (Suc n) s = do { (p, s) \<leftarrow> select_next_process s; (ps, s) \<leftarrow> selections n s; Some (p # ps, s) }"

lemma top_queue_update: "top_queue qs i \<Longrightarrow> length qs = 4 \<Longrightarrow> xs \<noteq> [] \<Longrightarrow> top_queue (qs[i := xs]) i"
  by (auto simp: top_queue_def)

lemma selections_spec:
  assumes "queues s qs" and "top_queue qs i" and "n \<le> length (qs ! i)"
  shows "selections n s = Some (take n (qs ! i), s\<lparr>ready_queue := (ready_queue s)[i := hd (rotate n (qs ! i))]\<rparr>)"
  using assms
proof (induction n arbitrary: s qs)
  case 0
  have i: "i < 4" using 0 by (simp add: top_queue_def)
  have "hd (qs ! i) = ready_queue s ! i" using queuesD(5) [OF 0(1) i] 0(2) by (simp add: top_queue_def)
  then show ?case by simp
next
  case (Suc n)
  let ?xs = "qs ! i" and ?qs = "qs[i := rotate1 (qs ! i)]"
  have i: "i < 4" and ne: "?xs \<noteq> []" and l: "length qs = 4"
    using Suc.prems by (auto simp: top_queue_def queues_def)
  let ?s = "s\<lparr>ready_queue := (ready_queue s)[i := hd (rotate1 ?xs)]\<rparr>"
  note sel = select_next_spec [OF Suc.prems(1,2)]
  have top': "top_queue ?qs i" using Suc.prems(2) l ne by (intro top_queue_update) simp_all
  have xs': "?qs ! i = rotate1 ?xs" using i l by simp
  have "n \<le> length (?qs ! i)" using Suc.prems(3) xs' by simp
  note IH = Suc.IH [OF sel(2) top' this]
  obtain x r where x: "?xs = x # r" using ne by (cases ?xs) auto
  have "take n (rotate1 ?xs) = take n r" using Suc.prems(3) x by simp
  then have "x # take n (?qs ! i) = take (Suc n) ?xs" using x xs' by simp
  moreover have "rotate n (?qs ! i) = rotate (Suc n) ?xs" using xs' by (simp add: rotate1_rotate_swap)
  ultimately show ?case using sel(1) IH x by simp
qed

end
