(* ===== verification/Scheduler.thy ===== *)
theory Scheduler
  imports Process
begin

text \<open>
  Correctness of the scheduler and of process creation over the model of \<open>Process\<close>: removal from
  a ready queue, preemption in round-robin order, the process list, and the places where the shared
  link field, the shared handler slot and the context switch do not do what they are meant to do.
\<close>

section \<open>Removing\<close>

lemma ring_pred_hit:
  assumes "pseg ps p (us @ [l]) process" and "process \<notin> set (tl (us @ [l]))" and "f \<notin> set (tl (us @ [l]))"
  shows "ring_pred ps process f p = Some (Some l)"
  using assms
proof (induction us arbitrary: p)
  case Nil
  then obtain c where "p = l" "ps l = Some c" "next_proc c = process" by auto
  then show ?case by (subst ring_pred.simps) simp
next
  case (Cons a us)
  then obtain c where c: "p = a" "ps a = Some c" "pseg ps (next_proc c) (us @ [l]) process" by auto
  have hd: "next_proc c = hd (us @ [l])" using pseg_hd [OF c(3)] by simp
  have "hd (us @ [l]) \<in> set (us @ [l])" by (intro hd_in_set) simp
  with hd have ne: "next_proc c \<noteq> process" "next_proc c \<noteq> f" using Cons.prems(2,3) by auto
  have "process \<notin> set (tl (us @ [l]))" "f \<notin> set (tl (us @ [l]))" using Cons.prems(2,3) by (cases us; auto)+
  from Cons.IH [OF c(3) this] show ?case using c(1,2) ne by (subst ring_pred.simps) simp
qed

lemma ring_pred_miss:
  assumes "pseg ps p ys f" and "ys \<noteq> []" and "f \<notin> set (tl ys)" and "process \<notin> set (tl ys)" and "process \<noteq> f"
  shows "ring_pred ps process f p = Some None"
  using assms
proof (induction ys arbitrary: p)
  case (Cons a ys)
  then obtain c where c: "p = a" "ps a = Some c" "pseg ps (next_proc c) ys f" by auto
  show ?case
  proof (cases "ys = []")
    case True
    with c Cons.prems(5) show ?thesis by (subst ring_pred.simps) simp
  next
    case False
    have "next_proc c = hd ys" using pseg_hd [OF c(3) False] by simp
    then have ne: "next_proc c \<noteq> process" "next_proc c \<noteq> f" using Cons.prems(3,4) False by (auto simp: hd_in_set)
    have "f \<notin> set (tl ys)" "process \<notin> set (tl ys)" using Cons.prems(3,4) by (cases ys; auto)+
    from Cons.IH [OF c(3) False this Cons.prems(5)] show ?thesis using c(1,2) ne by (subst ring_pred.simps) simp
  qed
qed simp

lemma pseg_upd: "l \<notin> set xs \<Longrightarrow> pseg (ps(l := v)) p xs q = pseg ps p xs q"
  by (rule pseg_cong) auto

text \<open>Unlinking an element from a ring of at least two.\<close>

lemma ring_unlink:
  assumes R: "ring ps h xs" and p: "p \<in> set xs" and two: "2 \<le> length xs" and c: "ps p = Some c"
  obtains l d where "ring_pred ps p h h = Some (Some l)" and "l \<noteq> p" and "l \<in> set xs" and "ps l = Some d"
    and "ring (ps(l \<mapsto> d\<lparr>next_proc := next_proc c\<rparr>)) (if h = p then next_proc c else h) (remove1 p xs)"
proof (cases "h = p")
  case True
  from ring_hd [OF R] obtain t where xs: "xs = p # t" using R True by (cases xs) (auto simp: ring_def)
  obtain us l where t: "t = us @ [l]" using two xs by (cases t rule: rev_cases) auto
  have sg: "pseg ps p (p # us @ [l]) p" and dist: "distinct (p # us @ [l])"
    using R xs t True by (auto simp: ring_def)
  from sg c have n: "pseg ps (next_proc c) us l" and lp: "next_of ps l = Some p" "l \<noteq> 0"
    by (auto simp: pseg_append)
  then obtain d where d: "ps l = Some d" by auto
  have "pseg ps p ((p # us) @ [l]) p" using sg by simp
  then have hit: "ring_pred ps p h h = Some (Some l)"
    using dist True by (intro ring_pred_hit [of _ _ "p # us"]) auto
  let ?ps = "ps(l \<mapsto> d\<lparr>next_proc := next_proc c\<rparr>)"
  have "pseg ?ps (next_proc c) us l" using n dist by (simp add: pseg_upd)
  then have "pseg ?ps (next_proc c) (us @ [l]) (next_proc c)" using lp by (intro pseg_snoc) simp_all
  then have "ring ?ps (next_proc c) (remove1 p xs)" using dist xs t by (simp add: ring_def)
  then show thesis using hit d dist xs t True by (intro that [of l d]) auto
next
  case False
  have hd: "h = hd xs" using ring_hd [OF R] by simp
  from p obtain ys vs where y: "xs = ys @ p # vs" by (auto simp: in_set_conv_decomp)
  then obtain us l where ys: "ys = us @ [l]" using False hd by (cases ys rule: rev_cases) auto
  have xs: "xs = us @ l # p # vs" using y ys by simp
  have sg: "pseg ps h (us @ l # p # vs) h" and dist: "distinct (us @ l # p # vs)"
    using R xs by (auto simp: ring_def)
  from sg c have n: "pseg ps h us l" "l \<noteq> 0" "pseg ps (next_proc c) vs h" and lp: "next_of ps l = Some p"
    by (auto simp: pseg_append)
  then obtain d where d: "ps l = Some d" by auto
  have "pseg ps h (us @ [l]) p" using n lp by (intro pseg_snoc) simp_all
  moreover have "h \<notin> set (tl (us @ [l]))" using hd xs dist by (cases us) auto
  moreover have "p \<notin> set (tl (us @ [l]))" using dist by (cases us) auto
  ultimately have hit: "ring_pred ps p h h = Some (Some l)" by (intro ring_pred_hit [of _ _ us]) auto
  let ?ps = "ps(l \<mapsto> d\<lparr>next_proc := next_proc c\<rparr>)"
  have "pseg ?ps h us l" "pseg ?ps (next_proc c) vs h"
    using n dist by (simp_all add: pseg_upd)
  then have "pseg ?ps h (us @ l # vs) h" using n(2) by (auto simp: pseg_append)
  then have "ring ?ps h (remove1 p xs)" using dist xs by (auto simp: ring_def remove1_append)
  then show thesis using hit d dist xs False by (intro that [of l d]) auto
qed

text \<open>In a ring of at least two the first element does not link to itself, and the search for the
  predecessor of an absent process comes back to the start.\<close>

lemma ring_next_neq:
  assumes R: "ring ps h xs" and "2 \<le> length xs"
  obtains f where "ps h = Some f" and "next_proc f \<noteq> h"
proof -
  from ring_rotate [OF R] obtain f where f: "ps h = Some f" "next_proc f = hd (rotate1 xs)" by blast
  have "distinct xs" using R by (simp add: ring_def)
  then have "next_proc f \<noteq> h" using f(2) ring_hd [OF R] assms(2) by (cases xs; cases "tl xs") auto
  with f(1) show thesis by (rule that)
qed

lemma ring_pred_absent:
  assumes R: "ring ps h xs" and "2 \<le> length xs" and "p \<notin> set xs"
  shows "ring_pred ps p h h = Some None"
proof -
  have dx: "distinct xs" "pseg ps h xs h" using R by (auto simp: ring_def)
  obtain x r where "xs = x # r" using assms(2) by (cases xs) auto
  then have "p \<noteq> h" "h \<notin> set (tl xs)" "p \<notin> set (tl xs)" using ring_hd [OF R] assms(3) dx by auto
  then show ?thesis using dx(2) assms(2) by (intro ring_pred_miss [of _ _ xs]) auto
qed

lemma scheduler_remove_eq:
  assumes "procs s p = Some c" and "p \<noteq> 0" and i: "i = clamp_prio (priority c)" and h: "h = ready_queue s ! i"
  shows "scheduler_remove_process p s =
      (if h = 0 then Some s else do { f \<leftarrow> procs s h;
         if next_proc f = h then Some (s\<lparr>ready_queue := (ready_queue s)[i := 0]\<rparr>)
         else do { r \<leftarrow> ring_pred (procs s) p h h; case r of None \<Rightarrow> Some s
            | Some l \<Rightarrow> do { s \<leftarrow> upd l (\<lambda>d. d\<lparr>next_proc := next_proc c\<rparr>) s; c' \<leftarrow> procs s p;
                Some (if h = p then s\<lparr>ready_queue := (ready_queue s)[i := next_proc c']\<rparr> else s) } } })"
  unfolding scheduler_remove_process_def i h Let_def using assms(1,2) by simp

lemma scheduler_remove_linked:
  assumes q: "queues s qs" and c: "procs s p = Some c" and p0: "p \<noteq> 0" and i: "i = clamp_prio (priority c)"
    and xs: "2 \<le> length (qs ! i)" "p \<in> set (qs ! i)"
  obtains s' where "scheduler_remove_process p s = Some s'" and "current_process s' = current_process s"
    and "queues s' (qs[i := remove1 p (qs ! i)])" and "\<And>a. same_but_links (procs s') (procs s) a"
proof -
  have i4: "i < 4" unfolding i by (rule clamp_prio_less)
  let ?xs = "qs ! i" and ?h = "ready_queue s ! i"
  note d = queuesD [OF q i4]
  have R: "ring (procs s) ?h ?xs" and h0: "?h \<noteq> 0" using d(1,4) xs by (auto simp: queue_ok_def)
  obtain l e where u: "ring_pred (procs s) p ?h ?h = Some (Some l)" "l \<noteq> p" "l \<in> set ?xs" "procs s l = Some e"
    "ring ((procs s)(l \<mapsto> e\<lparr>next_proc := next_proc c\<rparr>)) (if ?h = p then next_proc c else ?h) (remove1 p ?xs)"
    by (rule ring_unlink [OF R xs(2,1) c])
  from ring_next_neq [OF R xs(1)] obtain f where f: "procs s ?h = Some f" and nh: "next_proc f \<noteq> ?h" .
  let ?ps = "(procs s)(l \<mapsto> e\<lparr>next_proc := next_proc c\<rparr>)" and ?h' = "if ?h = p then next_proc c else ?h"
  let ?s = "s\<lparr>procs := ?ps, ready_queue := (ready_queue s)[i := ?h']\<rparr>"
  have r: "scheduler_remove_process p s = Some ?s"
    unfolding scheduler_remove_eq [OF c p0 i refl] using h0 f nh u(1,2,4) c by (simp add: upd_def list_update_same_conv)
  have "length (remove1 p ?xs) \<noteq> 0" using xs by (simp add: length_remove1)
  then have ne: "remove1 p ?xs \<noteq> []" by auto
  have pe: "clamp_prio (priority e) = i" using d(6) [OF u(3)] u(4) by simp
  have "queue_ok ?ps i ?h' (remove1 p ?xs)"
    using u(5) ne d(6) u(4) pe by (auto simp: queue_ok_def dest: notin_set_remove1 set_remove1_subset [THEN subsetD])
  then have "queues ?s (qs[i := remove1 p ?xs])"
    by (intro queues_update [OF q i4, where h = ?h']) (use u(4) pe in auto)
  then show thesis using that [OF r] u(4) by (auto simp: same_but_links_def)
qed

lemma scheduler_remove_spec:
  assumes q: "queues s qs" and c: "procs s p = Some c" and p0: "p \<noteq> 0"
  defines "i \<equiv> clamp_prio (priority c)"
  obtains s' where "scheduler_remove_process p s = Some s'" and "current_process s' = current_process s"
    and "queues s' (qs[i := if length (qs ! i) = 1 then [] else remove1 p (qs ! i)])"
    and "\<And>a. same_but_links (procs s') (procs s) a"
proof -
  have i: "i < 4" unfolding i_def by (rule clamp_prio_less)
  let ?xs = "qs ! i" and ?h = "ready_queue s ! i"
  note d = queuesD [OF q i]
  note rem = scheduler_remove_eq [OF c p0 meta_eq_to_obj_eq [OF i_def] refl]
  consider "?xs = []" | x where "?xs = [x]" | "2 \<le> length ?xs" "p \<in> set ?xs" | "2 \<le> length ?xs" "p \<notin> set ?xs"
    by (cases ?xs; cases "tl ?xs") (auto simp: Suc_le_eq)
  then show thesis
  proof cases
    case 1
    then have "scheduler_remove_process p s = Some s" unfolding rem using d(4) by simp
    moreover have "qs[i := []] = qs" using 1 by (metis list_update_id)
    ultimately show thesis using that [of s] q 1 by (simp add: same_but_links_def)
  next
    case 2
    then have R: "ring (procs s) ?h [x]" and h0: "?h \<noteq> 0" using d(1,4) by (auto simp: queue_ok_def)
    then obtain f where f: "procs s ?h = Some f" "next_proc f = ?h" by (auto simp: ring_def)
    let ?s = "s\<lparr>ready_queue := (ready_queue s)[i := 0]\<rparr>"
    have r: "scheduler_remove_process p s = Some ?s" unfolding rem using h0 f by simp
    have "queues ?s (qs[i := []])" by (rule queues_update [OF q i]) (auto simp: queue_ok_def)
    then show thesis using that [OF r] 2 by (simp add: same_but_links_def)
  next
    case 3
    show thesis by (rule scheduler_remove_linked [OF q c p0 meta_eq_to_obj_eq [OF i_def] 3]) (rule that, use 3(1) in simp_all)
  next
    case 4
    then have R: "ring (procs s) ?h ?xs" and h0: "?h \<noteq> 0" using d(1,4) by (auto simp: queue_ok_def)
    from ring_next_neq [OF R 4(1)] obtain f where f: "procs s ?h = Some f" and nh: "next_proc f \<noteq> ?h" .
    have "ring_pred (procs s) p ?h ?h = Some None" by (rule ring_pred_absent [OF R 4(1,2)])
    then have "scheduler_remove_process p s = Some s" unfolding rem using h0 f nh by simp
    then show thesis using that q 4 by (simp add: same_but_links_def remove1_idem list_update_same_conv i d(2))
  qed
qed

section \<open>The ready queues as an interface\<close>

locale run_queue =
  fixes add :: "u32 \<Rightarrow> 's \<Rightarrow> 's option" and select :: "'s \<Rightarrow> (u32 \<times> 's) option"
    and rep :: "'s \<Rightarrow> u32 list list \<Rightarrow> bool" and prio :: "'s \<Rightarrow> u32 \<Rightarrow> nat option"
  assumes rep_length: "rep s qs \<Longrightarrow> length qs = 4"
    and add_rep: "rep s qs \<Longrightarrow> p \<noteq> 0 \<Longrightarrow> prio s p = Some i \<Longrightarrow>
      \<exists>s'. add p s = Some s' \<and> rep s' (qs[i := before p (qs ! i) @ [p]])"
    and select_rep: "rep s qs \<Longrightarrow> top_queue qs i \<Longrightarrow>
      \<exists>s'. select s = Some (hd (qs ! i), s') \<and> rep s' (qs[i := rotate1 (qs ! i)])"
begin

fun after :: "nat \<Rightarrow> 's \<Rightarrow> 's option" where
  "after 0 s = Some s"
| "after (Suc n) s = do { (p, s) \<leftarrow> select s; after n s }"

lemma after_rep:
  "rep s qs \<Longrightarrow> top_queue qs i \<Longrightarrow> \<exists>s'. after n s = Some s' \<and> rep s' (qs[i := rotate n (qs ! i)])"
proof (induction n arbitrary: s qs)
  case 0
  then show ?case by simp
next
  case (Suc n)
  from select_rep [OF Suc.prems] obtain s1 where s1: "select s = Some (hd (qs ! i), s1)"
    "rep s1 (qs[i := rotate1 (qs ! i)])" by blast
  have l: "length qs = 4" "i < 4" "qs ! i \<noteq> []" using rep_length Suc.prems by (auto simp: top_queue_def)
  have "top_queue (qs[i := rotate1 (qs ! i)]) i" using Suc.prems(2) l by (intro top_queue_update) simp_all
  from Suc.IH [OF s1(2) this] show ?case using s1(1) l by (auto simp: rotate1_rotate_swap)
qed

text \<open>Every ready process of the top priority is selected within one round.\<close>

lemma fair:
  assumes "rep s qs" and "top_queue qs i" and "p \<in> set (qs ! i)"
  shows "\<exists>k < length (qs ! i). \<exists>s' s''. after k s = Some s' \<and> select s' = Some (p, s'')"
proof -
  from assms(3) obtain k where k: "k < length (qs ! i)" "qs ! i ! k = p" by (auto simp: in_set_conv_nth)
  have l: "length qs = 4" "i < 4" "qs ! i \<noteq> []" using rep_length assms by (auto simp: top_queue_def)
  from after_rep [OF assms(1,2), of k] obtain s' where s': "after k s = Some s'"
    "rep s' (qs[i := rotate k (qs ! i)])" by blast
  have "top_queue (qs[i := rotate k (qs ! i)]) i" using assms(2) l by (intro top_queue_update) simp_all
  from select_rep [OF s'(2) this] have "\<exists>s''. select s' = Some (hd (rotate k (qs ! i)), s'')" using l by auto
  moreover have "hd (rotate k (qs ! i)) = p" using k l by (simp add: hd_rotate_conv_nth)
  ultimately show ?thesis using s'(1) k(1) by auto
qed

text \<open>A process that is added while it is not queued waits behind exactly the processes before it.\<close>

lemma added_last:
  assumes "rep s qs" and "p \<noteq> 0" and "prio s p = Some i" and "i < 4" and "p \<notin> set (qs ! i)"
  shows "\<exists>s'. add p s = Some s' \<and> rep s' (qs[i := qs ! i @ [p]])"
proof -
  have "before p (qs ! i) = qs ! i" using assms(5) by (intro takeWhile_eq_all_conv [THEN iffD2]) auto
  with add_rep [OF assms(1-3)] show ?thesis by simp
qed

end

interpretation sched: run_queue scheduler_add_process select_next_process queues "\<lambda>s. prio_of (procs s)"
proof
  fix s qs p i assume q: "queues s qs" and "p \<noteq> (0 :: u32)" "prio_of (procs s) p = Some i"
  then obtain c where "procs s p = Some c" "i = clamp_prio (priority c)" by auto
  with scheduler_add_spec [OF q, of p c] \<open>p \<noteq> 0\<close>
  show "\<exists>s'. scheduler_add_process p s = Some s' \<and> queues s' (qs[i := before p (qs ! i) @ [p]])" by metis
next
  fix s qs i assume "queues s qs" "top_queue qs i"
  from select_next_spec [OF this]
  show "\<exists>s'. select_next_process s = Some (hd (qs ! i), s') \<and> queues s' (qs[i := rotate1 (qs ! i)])" by blast
qed (simp add: queues_def)

section \<open>Preemption\<close>

text \<open>The running process is the last of the top queue: it was the last to be selected.\<close>

definition running_last :: "psys \<Rightarrow> u32 list list \<Rightarrow> nat \<Rightarrow> bool" where
  "running_last s qs i \<longleftrightarrow> queues s qs \<and> top_queue qs i \<and> 2 \<le> length (qs ! i) \<and>
     current_process s = last (qs ! i) \<and>
     (\<exists>c. procs s (current_process s) = Some c \<and> pstate c = PROCESS_RUNNING)"

lemma before_last: "distinct xs \<Longrightarrow> xs \<noteq> [] \<Longrightarrow> before (last xs) xs @ [last xs] = xs"
  by (induction xs) auto

lemma queue_distinct: "queues s qs \<Longrightarrow> i < 4 \<Longrightarrow> distinct (qs ! i)"
  using queuesD(1) [of s qs i] by (auto simp: queue_ok_def ring_def split: if_splits)

lemma queue_nonzero: "queues s qs \<Longrightarrow> i < 4 \<Longrightarrow> p \<in> set (qs ! i) \<Longrightarrow> p \<noteq> 0"
proof -
  have "pseg ps h xs r \<Longrightarrow> p \<in> set xs \<Longrightarrow> p \<noteq> 0" for ps h xs r by (induction xs arbitrary: h) auto
  then show "queues s qs \<Longrightarrow> i < 4 \<Longrightarrow> p \<in> set (qs ! i) \<Longrightarrow> p \<noteq> 0"
    using queuesD(1) [of s qs i] by (auto simp: queue_ok_def ring_def split: if_splits)
qed

text \<open>States that differ in the contents of control blocks but not in links and priorities.\<close>

lemma queues_cong:
  assumes "queues s qs" and "ready_queue s' = ready_queue s"
    and "\<And>a. next_of (procs s') a = next_of (procs s) a" and "\<And>a. prio_of (procs s') a = prio_of (procs s) a"
  shows "queues s' qs"
  using assms queue_ok_cong [of _ "procs s'" "procs s"] by (simp add: queues_def)

lemma schedule_spec:
  assumes R: "running_last s qs i" and oc: "procs s (current_process s) = Some oc"
    and nc: "procs s (hd (qs ! i)) = Some nc"
  defines "sw \<equiv> switch_to_process (hd (qs ! i) + 44) (ctx nc) (cpu s)"
  obtains s' m n where "schedule s = Some s'" and "running_last s' (qs[i := rotate1 (qs ! i)]) i"
    and "current_process s' = hd (qs ! i)" and "cpu s' = snd sw"
    and "procs s' (current_process s) = Some (oc\<lparr>pstate := PROCESS_READY, ctx := fst sw, quantum := 50, next_proc := m\<rparr>)"
    and "procs s' (hd (qs ! i)) = Some (nc\<lparr>pstate := PROCESS_RUNNING, quantum := 50, next_proc := n\<rparr>)"
proof -
  let ?xs = "qs ! i" and ?old = "current_process s" and ?nx = "hd (qs ! i)"
  from R have q: "queues s qs" and top: "top_queue qs i" and two: "2 \<le> length ?xs" and last: "?old = last ?xs"
    and run: "pstate oc = PROCESS_RUNNING" using oc by (auto simp: running_last_def)
  have i: "i < 4" and ne: "?xs \<noteq> []" and l4: "length qs = 4" using top q by (auto simp: top_queue_def queues_def)
  have d: "distinct ?xs" by (rule queue_distinct [OF q i])
  have old: "?old \<noteq> 0" "?old \<in> set ?xs" using queue_nonzero [OF q i, of ?old] last ne by auto
  have nx: "?nx \<noteq> 0" using queue_nonzero [OF q i, of ?nx] ne by auto
  have ne2: "?nx \<noteq> ?old" using two d last by (cases ?xs; cases "tl ?xs") auto
  have pr: "clamp_prio (priority oc) = i" using queuesD(6) [OF q i old(2)] oc by simp
  obtain ps rq m where a: "scheduler_add_process ?old s = Some (s\<lparr>procs := ps, ready_queue := rq\<rparr>)"
    "queues (s\<lparr>procs := ps, ready_queue := rq\<rparr>) (qs[i := before ?old ?xs @ [?old]])"
    "ps ?old = Some (made_ready oc m)" "\<And>a. a \<noteq> ?old \<Longrightarrow> same_but_links ps (procs s) a"
    using scheduler_add_spec [OF q oc old(1)] unfolding pr by metis
  let ?s1 = "s\<lparr>procs := ps, ready_queue := rq\<rparr>"
  have "qs[i := before ?old ?xs @ [?old]] = qs" unfolding last before_last [OF d ne] by simp
  then have q1: "queues ?s1 qs" using a(2) by simp
  define rq2 where "rq2 = rq[i := hd (rotate1 ?xs)]"
  have sel: "select_next_process ?s1 = Some (?nx, s\<lparr>procs := ps, ready_queue := rq2\<rparr>)"
    and q2: "queues (s\<lparr>procs := ps, ready_queue := rq2\<rparr>) (qs[i := rotate1 ?xs])"
    using select_next_spec [OF q1 top] by (simp_all add: rq2_def)
  obtain n where n: "ps ?nx = Some (nc\<lparr>next_proc := n\<rparr>)"
    using same_but_links_fields [OF a(4) [OF ne2] nc] by blast
  let ?nc = "nc\<lparr>pstate := PROCESS_RUNNING, quantum := 50, next_proc := n\<rparr>"
  let ?oc = "oc\<lparr>pstate := PROCESS_READY, ctx := fst sw, quantum := 50, next_proc := m\<rparr>"
  define s' where "s' = s\<lparr>ready_queue := rq2, current_process := ?nx, procs := ps(?nx \<mapsto> ?nc, ?old \<mapsto> ?oc),
      cpu := snd sw, cr3 := r_cr3 (snd sw)\<rparr>"
  have nce: "nc\<lparr>next_proc := n, pstate := PROCESS_RUNNING, quantum := 50\<rparr> = ?nc" by (cases nc) simp
  have oce: "(made_ready oc m)\<lparr>ctx := fst sw\<rparr> = ?oc" by (cases oc) simp
  have sch: "schedule s = Some s'"
    using old(1) oc run a(1) sel nx ne2 n a(3)
    by (simp add: schedule_def upd_def s'_def sw_def [symmetric] Let_def split_def nce oce)
  have s'p: "procs s' = ps(?nx \<mapsto> ?nc, ?old \<mapsto> ?oc)" "ready_queue s' = rq2" "current_process s' = ?nx" "cpu s' = snd sw"
    by (simp_all add: s'_def)
  have q': "queues s' (qs[i := rotate1 ?xs])"
    using q2 n a(3) by (intro queues_cong [OF q2]) (auto simp: s'p)
  have "last (rotate1 ?xs) = ?nx" using ne by (cases ?xs) auto
  moreover have "top_queue (qs[i := rotate1 ?xs]) i" using top l4 ne by (intro top_queue_update) simp_all
  ultimately have rl: "running_last s' (qs[i := rotate1 ?xs]) i"
    using q' two i l4 ne2 by (simp add: running_last_def s'p)
  have fin: "procs s' ?old = Some ?oc" "procs s' ?nx = Some ?nc" using ne2 by (simp_all add: s'p)
  show thesis by (rule that [OF sch rl s'p(3,4) fin])
qed

section \<open>The process list\<close>

lemma list_last_spec: "pseg ps p xs 0 \<Longrightarrow> xs \<noteq> [] \<Longrightarrow> list_last ps p = Some (last xs)"
proof (induction xs arbitrary: p)
  case (Cons a xs)
  then obtain c where c: "p = a" "ps a = Some c" "pseg ps (next_proc c) xs 0" by auto
  show ?case
  proof (cases "xs = []")
    case True
    with c show ?thesis by (subst list_last.simps) simp
  next
    case False
    then have "next_proc c \<noteq> 0" using pseg_hd [OF c(3)] by auto
    with Cons.IH [OF c(3) False] c(1,2) False show ?thesis by (subst list_last.simps) simp
  qed
qed simp

lemma list_last_closed:
  assumes r: "list_last ps p = Some q" and "p \<in> S" and "0 \<notin> S"
    and "\<And>a. a \<in> S \<Longrightarrow> \<exists>c. ps a = Some c \<and> next_proc c \<in> S"
  shows False
proof -
  have "ps = ps \<longrightarrow> p \<notin> S"
  proof (rule list_last.raw_induct [OF _ r, of "\<lambda>ps' p q. ps' = ps \<longrightarrow> p \<notin> S"])
    fix ll ps' p q
    assume IH: "\<And>ps' p q. ll ps' p = Some q \<Longrightarrow> ps' = ps \<longrightarrow> p \<notin> S"
      and b: "ps' p \<bind> (\<lambda>c. if next_proc c = 0 then Some p else ll ps' (next_proc c)) = Some q"
    show "ps' = ps \<longrightarrow> p \<notin> S"
    proof (intro impI notI)
      assume h: "ps' = ps" "p \<in> S"
      with assms(4) obtain c where c: "ps p = Some c" "next_proc c \<in> S" by blast
      with assms(3) have "next_proc c \<noteq> 0" by auto
      with b c h have "ll ps' (next_proc c) = Some q" by simp
      from IH [OF this] c h show False by simp
    qed
  qed
  with assms(2) show False by simp
qed

text \<open>A heap call made by process code changes the heap only.\<close>

lemma psys_more_cong:
  assumes "rheap.more s' = rheap.more (s :: psys)"
  shows "procs s' = procs s" and "current_process s' = current_process s" and "process_list s' = process_list s"
    and "next_pid s' = next_pid s" and "ready_queue s' = ready_queue s" and "idle_process s' = idle_process s"
  using assms by (cases s; cases s'; simp)+

text \<open>The live payloads before and after a request that returned \<open>x\<close>.\<close>

definition got :: "(u32 \<Rightarrow> nat option) \<Rightarrow> u32 \<Rightarrow> (u32 \<Rightarrow> nat option) \<Rightarrow> bool" where
  "got L x L' \<longleftrightarrow> x = 0 \<and> L' = L \<or> x \<noteq> 0 \<and> L x = None \<and> (\<exists>m. L' = L(x \<mapsto> m))"

lemma kmalloc_psys:
  assumes "heap_inv (s :: psys)" and "unat n \<le> 0xFFFFFFF0"
  obtains p s' where "ok (kmalloc n s) = Some (p, s')" and "heap_inv s'" and "rheap.more s' = rheap.more s"
    and "p \<noteq> 0 \<Longrightarrow> live s p = None" and "dom (live s) \<subseteq> dom (live s')" and "p \<noteq> 0 \<Longrightarrow> p \<in> dom (live s')"
    and "got (live s) p (live s')"
proof -
  obtain p s' where k: "kmalloc n s = Inr (p, s')" "heap_inv s'" "eflags s' = eflags s"
    "p = 0 \<and> live s' = live s \<and> (n = 0 \<or> heap_full s (unat n)) \<or>
     p \<noteq> 0 \<and> live s p = None \<and> (\<exists>m \<ge> unat n. live s' = (live s)(p \<mapsto> m))"
    by (rule kmalloc_spec [OF assms])
  have o: "ok (kmalloc n s) = Some (p, s')" by (simp add: ok_def k(1))
  have "dom (live s) \<subseteq> dom (live s')" "p \<noteq> 0 \<Longrightarrow> live s p = None" "p \<noteq> 0 \<Longrightarrow> p \<in> dom (live s')"
    "got (live s) p (live s')" using k(4) by (auto simp: got_def)
  then show thesis by (intro that [OF o k(2) kmalloc_more [OF k(1)]])
qed

lemma ok_kmalloc_more: "ok (kmalloc n s) = Some (x, s') \<Longrightarrow> rheap.more s' = rheap.more (s :: psys)"
  using kmalloc_more [of n s x s'] by (auto simp: ok_def split: sum.splits)

lemma ok_kfree_current:
  assumes "ok (kfree p (s :: psys)) = Some s'"
  shows "current_process s' = current_process s" and "procs s' = procs s" and "process_list s' = process_list s"
proof -
  from assms have "kfree p s = Inr s'" by (auto simp: ok_def split: sum.splits)
  from psys_more_cong [OF kfree_more [OF this]]
  show "current_process s' = current_process s" "procs s' = procs s" "process_list s' = process_list s" by simp_all
qed

lemma bind_NoneI: "(\<And>x. m = Some x \<Longrightarrow> f x = None) \<Longrightarrow> Option.bind m f = None"
  by (cases m) auto

lemma upd_current: "upd p f s = Some s' \<Longrightarrow> current_process s' = current_process s"
  by (auto simp: upd_def bind_eq_Some_conv)

text \<open>A circular queue is closed under \<^verbatim>\<open>next\<close>.\<close>

lemma pseg_closed: "pseg ps p xs q \<Longrightarrow> a \<in> set xs \<Longrightarrow> \<exists>c. ps a = Some c \<and> next_proc c \<in> insert q (set xs)"
proof (induction xs arbitrary: p)
  case (Cons b xs)
  then obtain c where c: "ps b = Some c" "pseg ps (next_proc c) xs q" by auto
  have "next_proc c \<in> insert q (set xs)" using c(2) pseg_hd [OF c(2)] by (cases xs) auto
  with Cons.IH [OF c(2)] Cons.prems(2) c(1) show ?case by auto
qed simp

lemma ring_closed:
  assumes "ring ps h xs" and "a \<in> set xs"
  shows "\<exists>c. ps a = Some c \<and> next_proc c \<in> set xs"
proof -
  have "pseg ps h xs h" using assms(1) by (simp add: ring_def)
  from pseg_closed [OF this assms(2)] ring_hd [OF assms(1)] show ?thesis by (metis insert_iff)
qed

text \<open>Every control block is a live payload of the heap.\<close>

definition procs_live :: "psys \<Rightarrow> bool" where
  "procs_live s \<longleftrightarrow> heap_inv s \<and> dom (procs s) \<subseteq> dom (live s)"

lemma heap_inv_psys_update [simp]:
  "heap_inv (s\<lparr>procs := x\<rparr>) = heap_inv s" "heap_inv (s\<lparr>process_list := y\<rparr>) = heap_inv s"
  "heap_inv (s\<lparr>next_pid := z\<rparr>) = heap_inv s"
  "heap_inv (s\<lparr>ready_queue := r\<rparr>) = heap_inv s" "live (s\<lparr>ready_queue := r\<rparr>) = live s"
  "live (s\<lparr>procs := x\<rparr>) = live s" "live (s\<lparr>process_list := y\<rparr>) = live s" "live (s\<lparr>next_pid := z\<rparr>) = live s"
  by (simp_all add: heap_inv_def heap_at_def live_def cong: option.case_cong)

lemma pseg_0_unique: "pseg ps p xs 0 \<Longrightarrow> pseg ps p ys 0 \<Longrightarrow> xs = ys"
proof (induction xs arbitrary: p ys)
  case Nil
  then show ?case by (cases ys) auto
next
  case (Cons a xs)
  then show ?case by (cases ys) auto
qed

lemma pseg_0_distinct: "pseg ps p xs 0 \<Longrightarrow> distinct xs"
proof (induction xs arbitrary: p)
  case (Cons a xs)
  then obtain n where n: "next_of ps a = Some n" "pseg ps n xs 0" "p = a" by auto
  have "a \<notin> set xs"
  proof
    assume "a \<in> set xs"
    then obtain us vs where xs: "xs = us @ a # vs" by (auto simp: in_set_conv_decomp)
    then have "pseg ps a (a # vs) 0" using n(2) by (auto simp: pseg_append)
    with Cons.prems n(3) have "a # xs = a # vs" by (metis pseg_0_unique)
    with xs show False by simp
  qed
  with Cons.IH [OF n(2)] show ?case by simp
qed simp

text \<open>Appending to the process list: the loop of \<^verbatim>\<open>process_create\<close> finds the last element,
  whose link then leads to the new control block.\<close>

lemma pseg_live: "pseg ps a xs b \<Longrightarrow> x \<in> set xs \<Longrightarrow> ps x \<noteq> None"
  by (induction xs arbitrary: a) auto

lemma list_append_tail:
  assumes l: "pseg ps h xs 0" and ne: "xs \<noteq> []" and p: "ps p = None" "p \<noteq> 0" and c: "next_proc c = 0"
  obtains d where "list_last (ps(p \<mapsto> c)) h = Some (last xs)" and "ps (last xs) = Some d" and "last xs \<noteq> p" and "h \<noteq> 0"
    and "pseg (ps(p \<mapsto> c, last xs \<mapsto> d\<lparr>next_proc := p\<rparr>)) h (xs @ [p]) 0"
proof -
  have px: "p \<notin> set xs" using l p(1) by (auto dest: pseg_live)
  have ll: "list_last (ps(p \<mapsto> c)) h = Some (last xs)"
    using l px ne by (intro list_last_spec) (simp_all add: pseg_upd)
  from ne obtain ys t where xs: "xs = ys @ [t]" by (cases xs rule: rev_cases) auto
  from l obtain d where d: "ps t = Some d" "t \<noteq> 0" "pseg ps h ys t" by (auto simp: xs pseg_append)
  have "t \<notin> set ys" "t \<noteq> p" using pseg_0_distinct [OF l] px xs by auto
  with d(3) px have "pseg (ps(p \<mapsto> c, t \<mapsto> d\<lparr>next_proc := p\<rparr>)) h ys t" by (simp add: pseg_upd xs)
  with d(2) p(2) c \<open>t \<noteq> p\<close> have "pseg (ps(p \<mapsto> c, t \<mapsto> d\<lparr>next_proc := p\<rparr>)) h (xs @ [p]) 0"
    by (simp add: xs pseg_append)
  moreover have "h \<noteq> 0" using pseg_hd [OF l ne] by blast
  ultimately show thesis using that [of d] ll d(1) \<open>t \<noteq> p\<close> xs by simp
qed

text \<open>The three allocations and the control block: creation either stops at the first, or continues
  with the link of a filled control block.\<close>

lemma process_create_alloc:
  assumes inv: "procs_live s" and nm: "copy_name 31 name = Some nm"
  obtains (none) s' where "process_create name e pr s = Some (0, s')" and "procs_live s'" and "rheap.more s' = rheap.more s"
  | (made) p c s' where "p \<noteq> 0" and "procs s p = None" and "procs_live s'" and "procs s' = (procs s)(p \<mapsto> c)"
    and "process_list s' = process_list s" and "next_pid s' = next_pid s + 1" and "current_process s' = current_process s"
    and "pid c = next_pid s \<and> pname c = nm @ [0] \<and> pstate c = PROCESS_READY \<and>
           priority c = pr \<and> quantum c = 50 \<and> parent c = current_process s \<and> r_eip (ctx c) = e \<and>
           r_esp (ctx c) = user_stack c \<and> r_eflags (ctx c) = 0x202" and "next_proc c = 0"
    and "\<exists>L1 L2. got (live s) p L1 \<and> got L1 (kernel_stack c - 8192) L2 \<and> got L2 (user_stack c - 8192) (live s')"
    and "process_create name e pr s = (if process_list s = 0 then Some (p, s'\<lparr>process_list := p\<rparr>)
        else do { l \<leftarrow> list_last (procs s') (process_list s); s \<leftarrow> upd l (\<lambda>c. c\<lparr>next_proc := p\<rparr>) s'; Some (p, s) })"
proof -
  from inv have h: "heap_inv s" and dl: "dom (procs s) \<subseteq> dom (live s)" by (simp_all add: procs_live_def)
  have n116: "unat sizeof_process \<le> 0xFFFFFFF0" and n8k: "unat (8192 :: u32) \<le> 0xFFFFFFF0" by simp_all
  obtain p s1 where k1: "ok (kmalloc sizeof_process s) = Some (p, s1)" "heap_inv s1" "rheap.more s1 = rheap.more s"
    "p \<noteq> 0 \<Longrightarrow> live s p = None" "dom (live s) \<subseteq> dom (live s1)" "p \<noteq> 0 \<Longrightarrow> p \<in> dom (live s1)"
    "got (live s) p (live s1)"
    by (rule kmalloc_psys [OF h n116]) (rule that)
  note m1 = psys_more_cong [OF k1(3)]
  show thesis
  proof (cases "p = 0")
    case True
    then have "process_create name e pr s = Some (0, s1)" using k1(1) by (simp add: process_create_def)
    then show thesis using none [of s1] m1 k1(2,3,5) dl by (auto simp: procs_live_def)
  next
    case False
    let ?s2 = "s1\<lparr>next_pid := next_pid s1 + 1\<rparr>"
    have h2: "heap_inv ?s2" using k1(2) by simp
    obtain ks s3 where k3: "ok (kmalloc 8192 ?s2) = Some (ks, s3)" "heap_inv s3" "rheap.more s3 = rheap.more ?s2"
      "dom (live ?s2) \<subseteq> dom (live s3)" "got (live ?s2) ks (live s3)"
      by (rule kmalloc_psys [OF h2 n8k]) (rule that)
    obtain us s4 where k4: "ok (kmalloc 8192 s3) = Some (us, s4)" "heap_inv s4" "rheap.more s4 = rheap.more s3"
      "dom (live s3) \<subseteq> dom (live s4)" "got (live s3) us (live s4)"
      by (rule kmalloc_psys [OF k3(2) n8k]) (rule that)
    have f4: "procs s4 = procs s" "process_list s4 = process_list s" "next_pid s4 = next_pid s + 1"
      "current_process s4 = current_process s"
      using m1 psys_more_cong [OF k3(3)] psys_more_cong [OF k4(3)] by simp_all
    have pl: "p \<in> dom (live s4)" and dl4: "dom (procs s) \<subseteq> dom (live s4)"
      using dl k1(5) k1(6) [OF False] k3(4) k4(4) by (simp_all add: subset_iff)
    define c where "c = \<lparr>pid = next_pid s, pname = nm @ [0], pstate = PROCESS_READY, priority = pr,
        ctx = \<lparr>r_eax = 0, r_ebx = 0, r_ecx = 0, r_edx = 0, r_esi = 0, r_edi = 0, r_ebp = us + 8192,
               r_esp = us + 8192, r_eip = e, r_eflags = 0x202, r_cr3 = vmm_get_current_directory s4\<rparr>,
        page_dir = vmm_get_current_directory s4, kernel_stack = ks + 8192, user_stack = us + 8192, quantum = 50,
        total_time = 0, next_proc = 0, parent = current_process s\<rparr>"
    show thesis
    proof (rule made [of p "s4\<lparr>procs := (procs s)(p \<mapsto> c)\<rparr>" c])
      show "procs s p = None" using k1(4) [OF False] dl by blast
      show "procs_live (s4\<lparr>procs := (procs s)(p \<mapsto> c)\<rparr>)"
        using k4(2) dl4 pl by (auto simp: procs_live_def)
      show "process_create name e pr s = (if process_list s = 0 then Some (p, s4\<lparr>procs := (procs s)(p \<mapsto> c)\<rparr>\<lparr>process_list := p\<rparr>)
        else do { l \<leftarrow> list_last (procs (s4\<lparr>procs := (procs s)(p \<mapsto> c)\<rparr>)) (process_list s);
                  s \<leftarrow> upd l (\<lambda>c. c\<lparr>next_proc := p\<rparr>) (s4\<lparr>procs := (procs s)(p \<mapsto> c)\<rparr>); Some (p, s) })"
        using False k1(1) k3(1) k4(1) nm by (simp add: process_create_def Let_def f4 m1 c_def)
    qed (use False f4 k1(7) k3(5) k4(5) in \<open>auto simp: c_def\<close>)
  qed
qed

lemma process_create_spec:
  assumes inv: "procs_live s" and l: "pseg (procs s) (process_list s) xs 0" and nm: "copy_name 31 name = Some nm"
  obtains p s' where "process_create name e pr s = Some (p, s')" and "procs_live s'"
    and "p = 0 \<and> procs s' = procs s \<and> process_list s' = process_list s \<and> next_pid s' = next_pid s \<or>
      p \<noteq> 0 \<and> procs s p = None \<and> pseg (procs s') (process_list s') (xs @ [p]) 0 \<and> next_pid s' = next_pid s + 1 \<and>
        (\<exists>c. procs s' p = Some c \<and> pid c = next_pid s \<and> pname c = nm @ [0] \<and> pstate c = PROCESS_READY \<and>
           priority c = pr \<and> quantum c = 50 \<and> parent c = current_process s \<and> r_eip (ctx c) = e \<and>
           r_esp (ctx c) = user_stack c \<and> r_eflags (ctx c) = 0x202 \<and> next_proc c = 0 \<and>
           (\<exists>L1 L2. got (live s) p L1 \<and> got L1 (kernel_stack c - 8192) L2 \<and> got L2 (user_stack c - 8192) (live s')) \<and>
           procs s' = (if xs = [] then (procs s)(p \<mapsto> c) else (procs s)(p \<mapsto> c,
             last xs \<mapsto> (the (procs s (last xs)))\<lparr>next_proc := p\<rparr>))) \<and>
        process_list s' = (if xs = [] then p else process_list s) \<and> current_process s' = current_process s \<and>
        (\<forall>a. a \<noteq> p \<longrightarrow> same_but_links (procs s') (procs s) a)"
  using inv nm
proof (cases rule: process_create_alloc [where e = e and pr = pr, consumes 2, case_names none made])
  case (none s')
  then show thesis using that [OF none(1,2)] psys_more_cong [OF none(3)] by simp
next
  case (made p c s5)
  note created = made(11)
  show thesis
  proof (cases "xs = []")
    case True
    let ?s6 = "s5\<lparr>process_list := p\<rparr>"
    have c1: "process_create name e pr s = Some (p, ?s6)" unfolding created using l True by simp
    have lv: "procs_live ?s6" using made(3) by (simp add: procs_live_def)
    have sg: "pseg (procs ?s6) (process_list ?s6) (xs @ [p]) 0" using True made(1,4,9) by simp
    have "same_but_links (procs ?s6) (procs s) a" if "a \<noteq> p" for a using that made(4) by (simp add: same_but_links_def)
    then show thesis using made(1,2,4-10) sg True by (intro that [OF c1 lv]) simp
  next
    case False
    obtain d where d: "list_last (procs s5) (process_list s) = Some (last xs)" "procs s (last xs) = Some d" "last xs \<noteq> p"
      "process_list s \<noteq> 0" "pseg ((procs s)(p \<mapsto> c, last xs \<mapsto> d\<lparr>next_proc := p\<rparr>)) (process_list s) (xs @ [p]) 0"
      using list_append_tail [OF l False made(2,1,9)] unfolding made(4) by metis
    let ?s6 = "s5\<lparr>procs := (procs s)(p \<mapsto> c, last xs \<mapsto> d\<lparr>next_proc := p\<rparr>)\<rparr>"
    have c2: "process_create name e pr s = Some (p, ?s6)" unfolding created using d(1-4) made(4) by (simp add: upd_def)
    have lv: "procs_live ?s6" using made(3,4) d(2) by (auto simp: procs_live_def)
    have "same_but_links (procs ?s6) (procs s) a" if "a \<noteq> p" for a using that d(2) by (simp add: same_but_links_def)
    then show thesis using made(1,2,4-10) d False by (intro that [OF c2 lv]) simp
  qed
qed

text \<open>Releasing blocks: \<^verbatim>\<open>kfree\<close> of null or of a live payload.\<close>

lemma kfree_psys:
  assumes "heap_inv (s :: psys)" and "x = 0 \<or> live s x \<noteq> None"
  obtains s' where "ok (kfree x s) = Some s'" and "heap_inv s'" and "live s' = (live s)(x := None)"
    and "rheap.more s' = rheap.more s"
proof (cases "x = 0")
  case True
  have "live s 0 = None" using live_bounds(1) [OF assms(1), of 0] by (cases "live s 0") auto
  then show thesis
    using that [of s] assms(1) True by (simp add: kfree_def munux_rs_free_def ok_def fun_upd_idem)
next
  case False
  with assms(2) obtain m where "live s x = Some m" by auto
  then obtain s' where "kfree x s = Inr s'" "heap_inv s'" "live s' = (live s)(x := None)"
    by (rule kfree_spec [OF assms(1)])
  then show thesis using that [of s'] kfree_more [of x s s'] by (simp add: ok_def)
qed

lemma got_step:
  assumes "got L x L'" and "L 0 = None"
  shows "L'(x := None) = L" and "x \<noteq> 0 \<Longrightarrow> L' x \<noteq> None" and "L y \<noteq> None \<Longrightarrow> L' y \<noteq> None" and "L' 0 = None"
    and "x \<noteq> 0 \<Longrightarrow> L x = None"
  using assms by (auto simp: got_def fun_upd_idem)

lemma got_undo:
  assumes "got L p L1" and "got L1 k L2" and "got L2 u L3" and "p \<noteq> 0" and "L 0 = None"
  shows "L3(k := None, u := None, p := None) = L" and "k = 0 \<or> L3 k \<noteq> None" and "u = 0 \<or> (L3(k := None)) u \<noteq> None"
    and "(L3(k := None, u := None)) p \<noteq> None"
proof -
  obtain m where L1: "L1 = L(p \<mapsto> m)" "L p = None" using assms(1,4) by (auto simp: got_def)
  have g1: "L1(p := None) = L" using L1 by (simp add: fun_upd_idem)
  have z: "L1 0 = None" using assms(4,5) L1(1) by simp
  note s2 = got_step [OF assms(2) z]
  note s3 = got_step [OF assms(3) s2(4)]
  have e: "L3(u := None) = L2" "L2(k := None) = L1" using s2(1) s3(1) by simp_all
  have "L3(k := None, u := None) = L1" using e by (cases "k = u") (auto simp: fun_upd_twist)
  then show "L3(k := None, u := None, p := None) = L" and "(L3(k := None, u := None)) p \<noteq> None"
    using g1 L1(1) by simp_all
  show "k = 0 \<or> L3 k \<noteq> None" using s2(2) s3(3) [of k] by auto
  show "u = 0 \<or> (L3(k := None)) u \<noteq> None" using s2(2) s3(2,5) by (cases "u = 0"; cases "u = k") simp_all
qed

lemma quantum_left:
  assumes "n < unat (q :: u32)"
  shows "q - word_of_nat n > 0" and "q - word_of_nat (Suc n) = 0 \<longleftrightarrow> Suc n = unat q"
proof -
  have u: "unat (word_of_nat n :: u32) = n" "unat (word_of_nat (Suc n) :: u32) = Suc n"
    using assms unat_u32_less [of q] by (simp_all add: unat_of_nat_small del: of_nat_Suc)
  then have "word_of_nat n < q" using assms by (simp add: word_less_nat_alt)
  then show "q - word_of_nat n > 0" by (metis word_gt_0 right_minus_eq order.irrefl)
  show "q - word_of_nat (Suc n) = 0 \<longleftrightarrow> Suc n = unat q" using u(2) by (metis right_minus_eq u32_eq_iff_unat)
qed

lemma list_pred_spec:
  assumes "pseg ps a xs p" and "xs \<noteq> []" and "p \<notin> set xs"
  shows "list_pred ps p a = Some (last xs)"
  using assms
proof (induction xs arbitrary: a)
  case (Cons b xs)
  then obtain c where c: "a = b" "b \<noteq> 0" "ps b = Some c" "pseg ps (next_proc c) xs p" by auto
  show ?case
  proof (cases "xs = []")
    case True
    with c show ?thesis by (subst list_pred.simps) simp
  next
    case False
    then have "next_proc c \<noteq> p" using pseg_hd [OF c(4)] Cons.prems(3) by auto
    with Cons.IH [OF c(4) False] Cons.prems(3) c False show ?thesis by (subst list_pred.simps) simp
  qed
qed simp

section \<open>Properties\<close>

text \<open>A system with three processes of normal priority queued, the last of them running.\<close>

definition sample_process :: "u32 \<Rightarrow> process_state_t \<Rightarrow> u32 \<Rightarrow> process_t" where
  "sample_process n st nxt = \<lparr>pid = n, pname = [0], pstate = st, priority = 1,
     ctx = \<lparr>r_eax = 0, r_ebx = n, r_ecx = 0, r_edx = 0, r_esi = 0, r_edi = 0, r_ebp = 0, r_esp = 0, r_eip = n,
            r_eflags = 0x202, r_cr3 = 0x200000\<rparr>,
     page_dir = 0x200000, kernel_stack = 0, user_stack = 0, quantum = 50, total_time = 0, next_proc = nxt, parent = 0\<rparr>"

definition psys_reset :: psys where
  "psys_reset = \<lparr>ram = (\<lambda>_. 7), total_frames = 0, used_frames = 0, current_directory = 0,
     kernel_directory = 0, cr3 = 0, paging_enabled = False, heap_end = 0, heap_max_addr = 0, eflags = 0x202,
     blocks = (\<lambda>_. \<lparr>bsize = 0, is_free = 0, bnext = 0\<rparr>), words = (\<lambda>_. 0), heap_locked = False, HEAP = None,
     procs = (\<lambda>_. None), current_process = 0, idle_process = 0, process_list = 0, next_pid = 1,
     ready_queue = [0, 0, 0, 0], irq_table = (\<lambda>_. None), cpu = ctx (sample_process 0 PROCESS_READY 0)\<rparr>"

definition three_ready :: psys where
  "three_ready = psys_reset\<lparr>procs := [0x1000 \<mapsto> sample_process 1 PROCESS_READY 0x2000,
     0x2000 \<mapsto> sample_process 2 PROCESS_READY 0x3000, 0x3000 \<mapsto> sample_process 3 PROCESS_RUNNING 0x1000,
     0x4000 \<mapsto> sample_process 4 PROCESS_READY 0],
     ready_queue := [0, 0x1000, 0, 0], current_process := 0x3000, process_list := 0x1000\<rparr>"

lemma all_less_4: "(\<forall>i < (4 :: nat). P i) \<longleftrightarrow> P 0 \<and> P 1 \<and> P 2 \<and> P 3"
  by (auto simp: numeral_eq_Suc less_Suc_eq)

lemma three_ready_facts:
  "queues three_ready [[], [0x1000, 0x2000, 0x3000], [], []]"
  "top_queue [[], [0x1000, 0x2000, 0x3000], [], []] 1"
  "running_last three_ready [[], [0x1000, 0x2000, 0x3000], [], []] 1"
proof -
  show q: "queues three_ready [[], [0x1000, 0x2000, 0x3000], [], []]"
    unfolding queues_def all_less_4
    by (simp add: three_ready_def queue_ok_def ring_def sample_process_def clamp_prio_def)
  show t: "top_queue [[], [0x1000, 0x2000, 0x3000], [], []] 1"
    unfolding top_queue_def all_less_4 by simp
  show "running_last three_ready [[], [0x1000, 0x2000, 0x3000], [], []] 1"
    using q t by (simp add: running_last_def three_ready_def sample_process_def)
qed

text \<open>\<^verbatim>\<open>scheduler_add_process\<close> appends a process that is not queued to the end of the
  circular queue of its priority (priorities above 3 count as 3), makes it ready with a full quantum,
  and leaves the other queues and every other field of the other processes as they were.\<close>

theorem scheduler_add_appends:
  assumes "queues s qs" and "procs s p = Some c" and "p \<noteq> 0" and "i = clamp_prio (priority c)" and "p \<notin> set (qs ! i)"
  shows "\<exists>s' n. scheduler_add_process p s = Some s' \<and> queues s' (qs[i := qs ! i @ [p]]) \<and>
     procs s' p = Some (c\<lparr>pstate := PROCESS_READY, quantum := 50, next_proc := n\<rparr>) \<and>
     (\<forall>a. a \<noteq> p \<longrightarrow> same_but_links (procs s') (procs s) a)"
proof -
  have b: "before p (qs ! i) = qs ! i" using assms(5) by (intro takeWhile_eq_all_conv [THEN iffD2]) auto
  obtain ps rq n where a: "scheduler_add_process p s = Some (s\<lparr>procs := ps, ready_queue := rq\<rparr>)"
    "queues (s\<lparr>procs := ps, ready_queue := rq\<rparr>) (qs[i := before p (qs ! i) @ [p]])"
    "ps p = Some (made_ready c n)" "\<And>a. a \<noteq> p \<Longrightarrow> same_but_links ps (procs s) a"
    using scheduler_add_spec [OF assms(1-3)] unfolding assms(4) [symmetric] by metis
  show ?thesis
    by (rule exI [of _ "s\<lparr>procs := ps, ready_queue := rq\<rparr>"], rule exI [of _ n]) (use a b in simp)
qed

theorem scheduler_add_appends_witness:
  "\<exists>s'. scheduler_add_process 0x4000 three_ready = Some s' \<and>
     queues s' [[], [0x1000, 0x2000, 0x3000, 0x4000], [], []]"
  using scheduler_add_appends [OF three_ready_facts(1), of "0x4000" "sample_process 4 PROCESS_READY 0" 1]
  by (auto simp: three_ready_def sample_process_def clamp_prio_def)

text \<open>C12: \<^verbatim>\<open>scheduler_remove_process\<close> takes a queued process out of its queue, wherever it stands
  in the ring, and leaves the order of the others.\<close>

theorem scheduler_remove_unlinks:
  assumes "queues s qs" and "procs s p = Some c" and "p \<noteq> 0" and "i = clamp_prio (priority c)" and "p \<in> set (qs ! i)"
  shows "\<exists>s'. scheduler_remove_process p s = Some s' \<and> queues s' (qs[i := remove1 p (qs ! i)]) \<and>
     (\<forall>a. same_but_links (procs s') (procs s) a)"
proof -
  have r: "(if length (qs ! i) = 1 then [] else remove1 p (qs ! i)) = remove1 p (qs ! i)"
    using assms(5) by (cases "qs ! i"; cases "tl (qs ! i)") auto
  obtain s' where s': "scheduler_remove_process p s = Some s'"
    "queues s' (qs[i := if length (qs ! i) = 1 then [] else remove1 p (qs ! i)])"
    "\<And>a. same_but_links (procs s') (procs s) a"
    using scheduler_remove_spec [OF assms(1-3)] unfolding assms(4) [symmetric] by metis
  show ?thesis by (rule exI [of _ s']) (use s' r in simp)
qed

theorem scheduler_remove_unlinks_witness:
  "\<exists>s'. scheduler_remove_process 0x1000 three_ready = Some s' \<and> queues s' [[], [0x2000, 0x3000], [], []]"
  using scheduler_remove_unlinks [OF three_ready_facts(1), of "0x1000" "sample_process 1 PROCESS_READY 0x2000" 1]
  by (auto simp: three_ready_def sample_process_def clamp_prio_def)

text \<open>C11: selection is round-robin within the highest non-empty priority. One call after another
  returns the queued processes of that priority in order, each exactly once, and after a full round
  the queues are as before; so each of them is selected within as many calls as there are processes
  in the queue. With all queues empty the idle process is selected.\<close>

theorem select_round_robin:
  "(queues s qs \<and> top_queue qs i \<longrightarrow> selections (length (qs ! i)) s = Some (qs ! i, s)) \<and>
   (queues s qs \<and> top_queue qs i \<and> p \<in> set (qs ! i) \<longrightarrow>
      (\<exists>k < length (qs ! i). \<exists>s' s''. sched.after k s = Some s' \<and> select_next_process s' = Some (p, s''))) \<and>
   (queues s [[], [], [], []] \<longrightarrow> select_next_process s = Some (idle_process s, s))"
proof (intro conjI impI)
  assume h: "queues s qs \<and> top_queue qs i"
  then have i: "i < 4" and ne: "qs ! i \<noteq> []" by (auto simp: top_queue_def)
  have "hd (rotate (length (qs ! i)) (qs ! i)) = ready_queue s ! i" using queuesD(5) [of s qs i] h i ne by simp
  then show "selections (length (qs ! i)) s = Some (qs ! i, s)"
    using selections_spec [of s qs i "length (qs ! i)"] h by simp
next
  assume "queues s qs \<and> top_queue qs i \<and> p \<in> set (qs ! i)"
  then show "\<exists>k < length (qs ! i). \<exists>s' s''. sched.after k s = Some s' \<and> select_next_process s' = Some (p, s'')"
    using sched.fair by blast
next
  assume q: "queues s [[], [], [], []]"
  have "ready_queue s ! j = 0" if "j < 4" for j
    using queuesD(4) [OF q that] that by (auto simp: less_Suc_eq numeral_eq_Suc)
  then show "select_next_process s = Some (idle_process s, s)"
    unfolding select_next_process_def by (rule select_loop_idle)
qed

theorem select_round_robin_witness:
  "selections 3 three_ready = Some ([0x1000, 0x2000, 0x3000], three_ready)"
  using select_round_robin [of three_ready "[[], [0x1000, 0x2000, 0x3000], [], []]" 1 0] three_ready_facts(1,2)
  by (simp add: numeral_3_eq_3 del: selections.simps)



text \<open>C38: adding a process that is already queued cuts off everything queued behind it. Selection
  leaves the running process in its queue, so this is what \<^verbatim>\<open>schedule\<close> does when a process was
  added to the same queue while the current one ran: the added process is dropped from the queue and
  is never selected again.\<close>

theorem scheduler_readd_drops_later_processes:
  assumes "queues s qs" and "procs s p = Some c" and "i = clamp_prio (priority c)" and "qs ! i = ys @ p # zs"
  shows "\<exists>s'. scheduler_add_process p s = Some s' \<and> queues s' (qs[i := ys @ [p]])"
proof -
  have i: "i < 4" unfolding assms(3) by (rule clamp_prio_less)
  have p0: "p \<noteq> 0" using queue_nonzero [OF assms(1) i, of p] assms(4) by simp
  have "p \<notin> set ys" using queue_distinct [OF assms(1) i] assms(4) by auto
  then have "before p (ys @ p # zs) = ys" by (subst takeWhile_append2) auto
  then have "before p (qs ! i) = ys" using assms(4) by simp
  moreover have "prio_of (procs s) p = Some i" using assms(2,3) by simp
  ultimately show ?thesis using sched.add_rep [OF assms(1) p0, of i] by simp
qed

theorem scheduler_readd_drops_later_processes_witness:
  "\<exists>s'. scheduler_add_process 0x1000 three_ready = Some s' \<and> queues s' [[], [0x1000], [], []]"
proof -
  let ?qs = "[[], [0x1000, 0x2000, 0x3000], [], []] :: u32 list list"
  have "\<exists>s'. scheduler_add_process 0x1000 three_ready = Some s' \<and> queues s' (?qs[1 := [] @ [0x1000]])"
    by (rule scheduler_readd_drops_later_processes [OF three_ready_facts(1), where zs = "[0x2000, 0x3000]" and
          c = "sample_process 1 PROCESS_READY 0x2000"])
      (simp_all add: three_ready_def sample_process_def clamp_prio_def)
  then show ?thesis by simp
qed

text \<open>\<^verbatim>\<open>process_create\<close> returns, and unless memory for the control block is refused it appends
  a new process to the process list: its block is fresh, its pid is the next pid, its name is the
  argument cut to 31 bytes and terminated, it is ready with a full quantum, its parent is the current
  process, and it starts at the entry point with interrupts enabled and its stack empty. Every other
  process keeps its fields. The control blocks stay live heap payloads.\<close>

theorem process_create_appends:
  assumes "procs_live s" and "pseg (procs s) (process_list s) xs 0" and "copy_name 31 name = Some nm"
  shows "\<exists>p s'. process_create name e pr s = Some (p, s') \<and> procs_live s' \<and>
     (p = 0 \<and> procs s' = procs s \<and> process_list s' = process_list s \<and> next_pid s' = next_pid s \<or>
      p \<noteq> 0 \<and> procs s p = None \<and> pseg (procs s') (process_list s') (xs @ [p]) 0 \<and> next_pid s' = next_pid s + 1 \<and>
        (\<exists>c. procs s' p = Some c \<and> pid c = next_pid s \<and> pname c = nm @ [0] \<and> pstate c = PROCESS_READY \<and>
           priority c = pr \<and> quantum c = 50 \<and> parent c = current_process s \<and> r_eip (ctx c) = e \<and>
           r_esp (ctx c) = user_stack c \<and> r_eflags (ctx c) = 0x202) \<and>
        (\<forall>a. a \<noteq> p \<longrightarrow> same_but_links (procs s') (procs s) a))"
  by (rule process_create_spec [OF assms, of e pr]) blast

definition psys_32MiB :: psys where
  "psys_32MiB = projr (memory_boot 0x2000000 psys_reset)"

lemma memory_boot_psys_more:
  assumes "memory_boot m s = Inr s'"
  shows "rheap.more s' = rheap.more (s :: 'a rheap_scheme)"
proof -
  let ?s = "(vmm_init (pmm_init m s))\<lparr>heap_end := 0xC0100000, heap_max_addr := 0xD0000000\<rparr>"
  from assms obtain t h bs fl t1 where t: "map_heap_range 0xC0000000 0xC0100000 ?s = Some t"
    and l: "heap_lock (t\<lparr>blocks := bs\<rparr>) = Inr (fl, t1)" and s': "s' = heap_unlock fl (t1\<lparr>HEAP := Some h\<rparr>)"
    by (auto simp: memory_boot_def heap_init_def munux_rs_heap_init_def and_then_Inr or_stuck_Inr Let_def split_def)
  have "vmm.more t = vmm.more ?s" by (rule map_heap_range_more [OF t])
  then have "rheap.more t = rheap.more ?s" by (intro rheap_more_more kheap_more_cong(4))
  also have "\<dots> = rheap.more (vmm_init (pmm_init m s))" by simp
  also have "\<dots> = rheap.more s"
    by (intro rheap_more_more kheap_more_cong(4)) (simp add: vmm_init_more rheap_pmm_more_cong [OF pmm_init_vmm_more])
  finally show ?thesis using heap_lock_more [OF l] s' by simp
qed

lemma psys_32MiB_facts: "procs_live psys_32MiB" "procs psys_32MiB = (\<lambda>_. None)" "process_list psys_32MiB = 0"
  "heap_end psys_32MiB = 0xC0100000" "current_process psys_32MiB = 0"
proof -
  have l: "\<not> heap_locked psys_reset" by (simp add: psys_reset_def)
  obtain s' where s': "memory_boot 0x2000000 psys_reset = Inr s'" "heap_inv s'" "heap_end s' = 0xC0100000"
    by (rule memory_boot_spec [OF _ l, of "0x2000000"]) simp
  then have e: "psys_32MiB = s'" by (simp add: psys_32MiB_def)
  note m = psys_more_cong [OF memory_boot_psys_more [OF s'(1)]]
  show p: "procs psys_32MiB = (\<lambda>_. None)" and "process_list psys_32MiB = 0" and "current_process psys_32MiB = 0"
    using m by (simp_all add: e psys_reset_def)
  then show "procs_live psys_32MiB" using s'(2) by (simp add: procs_live_def e)
  show "heap_end psys_32MiB = 0xC0100000" using s'(3) by (simp add: e)
qed

text \<open>A heap of 1 MiB has room for, or can grow by, a control block.\<close>

lemma first_block:
  assumes "heap_inv s" and "heap_end s = 0xC0100000"
  obtains p s1 m where "kmalloc sizeof_process s = Inr (p, s1)" and "heap_inv s1" and "live s1 p = Some m" and "p \<noteq> 0"
proof -
  have nf: "\<not> heap_full s (unat sizeof_process)"
    using assms(2) by (auto simp: heap_full_def no_room_def heap_at_def round4_def)
  have n: "unat sizeof_process \<le> 0xFFFFFFF0" by simp
  show thesis by (rule kmalloc_spec [OF assms(1) n]) (use nf that in auto)
qed

theorem process_create_appends_witness:
  "\<exists>p s'. process_create (cstr ''init'') 0x101000 1 psys_32MiB = Some (p, s') \<and> procs_live s'"
proof -
  have n: "copy_name 31 (cstr ''init'') = Some (bytes ''init'')" by code_simp
  have l: "pseg (procs psys_32MiB) (process_list psys_32MiB) [] 0" using psys_32MiB_facts(3) by simp
  from process_create_appends [OF psys_32MiB_facts(1) l n, of "0x101000" 1] show ?thesis by blast
qed



text \<open>\<^verbatim>\<open>process_terminate\<close> of the running process uses its control block after freeing it:
  \<^verbatim>\<open>schedule\<close> dereferences the current process, which is the freed block. No terminated process
  can hand over the processor this way.\<close>

theorem process_terminate_current_use_after_free:
  assumes "current_process s = p" and "p \<noteq> 0"
  shows "process_terminate p s = None"
proof -
  have "(let s = s5\<lparr>procs := (procs s5)(p := None)\<rparr> in if current_process s = p then schedule s else Some s) = None"
    if u: "upd p (\<lambda>c. c\<lparr>pstate := PROCESS_TERMINATED\<rparr>) s = Some s1"
      and l: "(if process_list s1 = p then Some (s1\<lparr>process_list := next_proc c\<rparr>)
              else do {
                q \<leftarrow> list_pred (procs s1) p (process_list s1);
                if q = 0 then Some s1 else upd q (\<lambda>d. d\<lparr>next_proc := next_proc c\<rparr>) s1
              }) = Some s2"
      and k: "ok (kfree a s2) = Some s3" "ok (kfree b s3) = Some s4" "ok (kfree p s4) = Some s5"
    for s1 s2 s3 s4 s5 c a b
  proof -
    have "current_process s2 = current_process s1"
      using l by (auto simp: bind_eq_Some_conv upd_current split: if_splits)
    then have "current_process s5 = p"
      using assms(1) upd_current [OF u] k(1,2,3) [THEN ok_kfree_current(1)] by simp
    then show ?thesis using assms(2) by (simp add: schedule_def Let_def)
  qed
  then show ?thesis unfolding process_terminate_def if_not_P [OF assms(2)] by (intro bind_NoneI) assumption
qed

theorem process_terminate_current_use_after_free_witness: "process_terminate 0x3000 three_ready = None"
  by (rule process_terminate_current_use_after_free) (simp_all add: three_ready_def)

text \<open>Unlinking the last element of the process list, as the second part of \<^verbatim>\<open>process_terminate\<close>
  does it, and releasing the three blocks of a process.\<close>

definition unlink_proc :: "u32 \<Rightarrow> u32 \<Rightarrow> psys \<Rightarrow> psys option" where
  "unlink_proc p n s =
     (if process_list s = p then Some (s\<lparr>process_list := n\<rparr>)
      else do {
        q \<leftarrow> list_pred (procs s) p (process_list s);
        if q = 0 then Some s else upd q (\<lambda>d. d\<lparr>next_proc := n\<rparr>) s
      })"

lemma process_terminate_unlink:
  "process_terminate p s =
     (if p = 0 then Some s
      else do {
        s \<leftarrow> upd p (\<lambda>c. c\<lparr>pstate := PROCESS_TERMINATED\<rparr>) s;
        c \<leftarrow> procs s p;
        s \<leftarrow> unlink_proc p (next_proc c) s;
        c \<leftarrow> procs s p;
        s \<leftarrow> ok (kfree (kernel_stack c - 8192) s);
        s \<leftarrow> ok (kfree (user_stack c - 8192) s);
        s \<leftarrow> ok (kfree p s);
        let s = s\<lparr>procs := (procs s)(p := None)\<rparr>;
        if current_process s = p then schedule s else Some s
      })"
  unfolding process_terminate_def unlink_proc_def ..

lemma unlink_snoc:
  assumes l: "pseg ps h xs 0" and sg: "pseg (procs s1) (process_list s1) (xs @ [p]) 0"
    and ps: "procs s1 = (if xs = [] then ps(p \<mapsto> c) else ps(p \<mapsto> c, last xs \<mapsto> (the (ps (last xs)))\<lparr>next_proc := p\<rparr>))"
    and pl: "process_list s1 = (if xs = [] then p else h)"
  shows "unlink_proc p 0 (s1\<lparr>procs := (procs s1)(p \<mapsto> c')\<rparr>) = Some (s1\<lparr>procs := ps(p \<mapsto> c'), process_list := h\<rparr>)"
proof (cases "xs = []")
  case True
  then show ?thesis using l pl ps by (simp add: unlink_proc_def)
next
  case False
  let ?t = "last xs" and ?ps' = "(procs s1)(p \<mapsto> c')"
  have dx: "distinct (xs @ [p])" by (rule pseg_0_distinct [OF sg])
  have tx: "?t \<in> set xs" "?t \<noteq> p" using False dx by auto
  from sg have "pseg (procs s1) (process_list s1) xs p" by (auto simp: pseg_append)
  then have "pseg ?ps' h xs p" using dx pl False by (simp add: pseg_upd)
  from list_pred_spec [OF this False] dx have lp: "list_pred ?ps' p h = Some ?t" by simp
  from l False obtain d where d: "ps ?t = Some d" "next_proc d = 0" "?t \<noteq> 0"
    by (cases xs rule: rev_cases) (auto simp: pseg_append)
  have np: "h \<noteq> p" using pseg_hd [OF l False] dx False by auto
  have "d\<lparr>next_proc := 0\<rparr> = d" using d(2) by (cases d) simp
  then have "?ps'(?t \<mapsto> d\<lparr>next_proc := 0\<rparr>) = ps(p \<mapsto> c')" using ps False tx d(1) by (intro ext) simp
  moreover have "?ps' ?t = Some (d\<lparr>next_proc := p\<rparr>)" using ps False tx d(1) by simp
  ultimately show ?thesis using np lp pl False d(3) by (simp add: unlink_proc_def upd_def)
qed

lemma kfree_three:
  assumes h: "heap_inv (t :: psys)" and "k = 0 \<or> live t k \<noteq> None" and "u = 0 \<or> ((live t)(k := None)) u \<noteq> None"
    and "((live t)(k := None, u := None)) p \<noteq> None"
  obtains t1 t2 t3 where "ok (kfree k t) = Some t1" and "ok (kfree u t1) = Some t2" and "ok (kfree p t2) = Some t3"
    and "heap_inv t3" and "live t3 = (live t)(k := None, u := None, p := None)" and "rheap.more t3 = rheap.more t"
proof -
  obtain t1 where t1: "ok (kfree k t) = Some t1" "heap_inv t1" "live t1 = (live t)(k := None)" "rheap.more t1 = rheap.more t"
    by (rule kfree_psys [OF h assms(2)])
  obtain t2 where t2: "ok (kfree u t1) = Some t2" "heap_inv t2" "live t2 = (live t1)(u := None)" "rheap.more t2 = rheap.more t1"
    by (rule kfree_psys [OF t1(2), of u]) (use assms(3) t1(3) in simp_all)
  obtain t3 where t3: "ok (kfree p t2) = Some t3" "heap_inv t3" "live t3 = (live t2)(p := None)" "rheap.more t3 = rheap.more t2"
    by (rule kfree_psys [OF t2(2), of p]) (use assms(4) t1(3) t2(3) in simp_all)
  show thesis by (rule that [OF t1(1) t2(1) t3(1,2)]) (use t1(3,4) t2(3,4) t3(3,4) in simp_all)
qed

text \<open>C13: terminating the process that \<^verbatim>\<open>process_create\<close> has just returned undoes the creation:
  the process list and every control block are as before, and the control block and both stacks are
  back in the heap, whichever of the stack allocations had succeeded.\<close>

theorem process_create_terminate_roundtrip:
  assumes "procs_live s" and "pseg (procs s) (process_list s) xs 0" and "copy_name 31 name = Some nm"
    and "process_create name e pr s = Some (p, s1)" and "p \<noteq> 0" and "current_process s \<noteq> p"
  shows "\<exists>s2. process_terminate p s1 = Some s2 \<and> procs_live s2 \<and> live s2 = live s \<and> procs s2 = procs s \<and>
     process_list s2 = process_list s"
proof -
  obtain c L1 L2 where lv: "procs_live s1" and pn: "procs s p = None" and nx: "next_proc c = 0"
    and sg: "pseg (procs s1) (process_list s1) (xs @ [p]) 0"
    and g: "got (live s) p L1" "got L1 (kernel_stack c - 8192) L2" "got L2 (user_stack c - 8192) (live s1)"
    and ps: "procs s1 = (if xs = [] then (procs s)(p \<mapsto> c) else (procs s)(p \<mapsto> c,
             last xs \<mapsto> (the (procs s (last xs)))\<lparr>next_proc := p\<rparr>))"
    and pl: "process_list s1 = (if xs = [] then p else process_list s)" and cur: "current_process s1 = current_process s"
    by (rule process_create_spec [OF assms(1,2,3), of e pr]) (use assms(4,5) in auto)
  from assms(1) lv have h: "heap_inv s" "heap_inv s1" by (simp_all add: procs_live_def)
  have l0: "live s 0 = None" using live_bounds(1) [OF h(1), of 0] by (cases "live s 0") auto
  note und = got_undo [OF g assms(5) l0]
  have dx: "distinct (xs @ [p])" by (rule pseg_0_distinct [OF sg])
  have s1p: "procs s1 p = Some c" using ps dx by (auto split: if_splits)
  define t where "t = s1\<lparr>procs := (procs s)(p \<mapsto> c\<lparr>pstate := PROCESS_TERMINATED\<rparr>), process_list := process_list s\<rparr>"
  have un: "unlink_proc p (next_proc c) (s1\<lparr>procs := (procs s1)(p \<mapsto> c\<lparr>pstate := PROCESS_TERMINATED\<rparr>)\<rparr>) = Some t"
    unfolding t_def nx by (rule unlink_snoc [OF assms(2) sg ps pl])
  have ht: "heap_inv t" and lt: "live t = live s1" using h(2) by (simp_all add: t_def)
  obtain t1 t2 t3 where k: "ok (kfree (kernel_stack c - 8192) t) = Some t1" "ok (kfree (user_stack c - 8192) t1) = Some t2"
    "ok (kfree p t2) = Some t3" "heap_inv t3" "rheap.more t3 = rheap.more t"
    "live t3 = (live t)(kernel_stack c - 8192 := None, user_stack c - 8192 := None, p := None)"
    by (rule kfree_three [OF ht und(2-4) [folded lt]])
  have lf: "live t3 = live s" unfolding k(6) lt by (rule und(1))
  note f = psys_more_cong [OF k(5)]
  let ?s2 = "t3\<lparr>procs := (procs t3)(p := None)\<rparr>"
  have "process_terminate p s1 = Some ?s2"
    using assms(5,6) s1p un k(1-3) f cur
    by (simp add: process_terminate_unlink upd_Some t_def Let_def)
  moreover have "procs ?s2 = procs s" using f pn by (simp add: t_def fun_upd_idem)
  ultimately show ?thesis using k(4) lf assms(1) f by (intro exI [of _ ?s2]) (simp add: procs_live_def t_def)
qed

theorem process_create_terminate_roundtrip_witness:
  "\<exists>p s1 s2. process_create (cstr ''init'') 0x101000 1 psys_32MiB = Some (p, s1) \<and> p \<noteq> 0 \<and>
     process_terminate p s1 = Some s2 \<and> live s2 = live psys_32MiB"
proof -
  have n: "copy_name 31 (cstr ''init'') = Some (bytes ''init'')" by code_simp
  have l: "pseg (procs psys_32MiB) (process_list psys_32MiB) [] 0" using psys_32MiB_facts(3) by simp
  have h: "heap_inv psys_32MiB" using psys_32MiB_facts(1) by (simp add: procs_live_def)
  obtain p s1 where c: "process_create (cstr ''init'') 0x101000 1 psys_32MiB = Some (p, s1)"
    by (rule process_create_spec [OF psys_32MiB_facts(1) l n])
  obtain q s0 m where k: "kmalloc sizeof_process psys_32MiB = Inr (q, s0)" "q \<noteq> 0"
    by (rule first_block [OF h psys_32MiB_facts(4)])
  from c k have p0: "p \<noteq> 0"
    by (auto simp: process_create_def ok_def Let_def bind_eq_Some_conv split: if_splits)
  have "current_process psys_32MiB \<noteq> p" using p0 psys_32MiB_facts(5) by simp
  from process_create_terminate_roundtrip [OF psys_32MiB_facts(1) l n c p0 this] c p0 show ?thesis by blast
qed

text \<open>a process runs for exactly its quantum. While \<open>n\<close> is below the quantum, \<open>n\<close> timer ticks only
  count: the process keeps the processor, its quantum is \<open>n\<close> less and its running time \<open>n\<close> more; the
  tick that uses up the quantum calls the scheduler.\<close>

theorem scheduler_tick_counts_quantum:
  assumes "current_process s = p" and "p \<noteq> 0" and "procs s p = Some c"
  shows "(\<forall>n < unat (quantum c). ((\<lambda>r. Option.bind r scheduler_tick) ^^ n) (Some s) =
       Some (s\<lparr>procs := (procs s)(p \<mapsto>
         c\<lparr>quantum := quantum c - word_of_nat n, total_time := total_time c + word_of_nat n\<rparr>)\<rparr>)) \<and>
     (0 < quantum c \<longrightarrow> ((\<lambda>r. Option.bind r scheduler_tick) ^^ unat (quantum c)) (Some s) =
       schedule (s\<lparr>procs := (procs s)(p \<mapsto> c\<lparr>quantum := 0, total_time := total_time c + quantum c\<rparr>)\<rparr>))"
proof -
  let ?c = "\<lambda>n. c\<lparr>quantum := quantum c - word_of_nat n, total_time := total_time c + word_of_nat n\<rparr>"
  let ?t = "\<lambda>n. s\<lparr>procs := (procs s)(p \<mapsto> ?c n)\<rparr>" and ?f = "\<lambda>r. Option.bind r scheduler_tick"
  have q: "quantum c - word_of_nat n > 0 \<and> (quantum c - word_of_nat (Suc n) = 0 \<longleftrightarrow> Suc n = unat (quantum c))"
    if "n < unat (quantum c)" for n
    using that quantum_left [OF that] by simp
  have w: "word_of_nat (Suc n) = quantum c" if "Suc n = unat (quantum c)" for n
    using that by (metis of_nat_unat_u32)
  have tick: "scheduler_tick (?t n) = (if Suc n = unat (quantum c) then schedule (?t (Suc n)) else Some (?t (Suc n)))"
    if "n < unat (quantum c)" for n
    using assms q [OF that] w [of n] by (auto simp: scheduler_tick_def upd_def algebra_simps)
  have run: "n < unat (quantum c) \<Longrightarrow> (?f ^^ n) (Some s) = Some (?t n)" for n
  proof (induction n)
    case 0
    have "c\<lparr>quantum := quantum c, total_time := total_time c\<rparr> = c" by (cases c) simp
    then show ?case using assms(3) by (simp add: fun_upd_idem)
  next
    case (Suc n)
    then have "(?f ^^ n) (Some s) = Some (?t n)" and "scheduler_tick (?t n) = Some (?t (Suc n))"
      using tick [of n] by (simp_all del: fun_upd_apply)
    then show ?case by (simp del: fun_upd_apply)
  qed
  moreover have "(?f ^^ unat (quantum c)) (Some s) =
       schedule (s\<lparr>procs := (procs s)(p \<mapsto> c\<lparr>quantum := 0, total_time := total_time c + quantum c\<rparr>)\<rparr>)" if "0 < quantum c"
  proof -
    from that obtain n where n: "unat (quantum c) = Suc n" by (cases "unat (quantum c)") (auto simp: unat_eq_0)
    show ?thesis using run [of n] tick [of n] n w [of n] by simp
  qed
  ultimately show ?thesis by blast
qed

theorem scheduler_tick_counts_quantum_witness:
  "((\<lambda>r. Option.bind r scheduler_tick) ^^ 49) (Some three_ready) = Some (three_ready\<lparr>procs := (procs three_ready)(0x3000 \<mapsto>
     (sample_process 3 PROCESS_RUNNING 0x1000)\<lparr>quantum := 1, total_time := 49\<rparr>)\<rparr>)"
proof -
  have "current_process three_ready = 0x3000" "procs three_ready 0x3000 = Some (sample_process 3 PROCESS_RUNNING 0x1000)"
    by (simp_all add: three_ready_def)
  from scheduler_tick_counts_quantum [OF this(1) _ this(2)] have "\<forall>n < unat (50 :: u32).
     ((\<lambda>r. Option.bind r scheduler_tick) ^^ n) (Some three_ready) = Some (three_ready\<lparr>procs := (procs three_ready)(0x3000 \<mapsto>
     (sample_process 3 PROCESS_RUNNING 0x1000)\<lparr>quantum := 50 - word_of_nat n, total_time := 0 + word_of_nat n\<rparr>)\<rparr>)"
    by (simp add: sample_process_def)
  from this [rule_format, of 49] show ?thesis by simp
qed

text \<open>switching away from a process and back restores its stack pointer, flags, page directory
  and the registers ecx, esi, edi and ebp, and continues after the call; but ebx, which the caller
  expects preserved, comes back holding the other process's page directory, and the stack pointer is
  the one at the call, so the return address is still on the stack.\<close>

theorem switch_roundtrip_loses_ebx:
  "let (saved, other) = switch_to_process b_addr b_ctx r;
       (_, back) = switch_to_process a_addr saved r'
   in back = r\<lparr>r_eax := 0, r_ebx := r_cr3 r', r_edx := a_addr\<rparr>"
  by (simp add: switch_to_process_def)

end
