(* ===== verification/Mouse.thy ===== *)
theory Mouse
  imports Interrupts Libk
begin

text \<open>
  The PS/2 mouse driver (\<^verbatim>\<open>drivers/mouse.c\<close>): the initialisation dialogue with the controller and the
  assembly of three-byte packets into movements. Positions are \<^verbatim>\<open>int32_t\<close>; their overflow is
  undefined behaviour. A registered callback is the address of code outside the driver: the handler
  returns the call it makes.
\<close>

section \<open>State\<close>

record mouse_state_t =
  mouse_x :: int
  mouse_y :: int
  mouse_buttons :: u8

record mouse =
  mouse_state :: mouse_state_t
  mouse_cycle :: u8
  mouse_byte :: "u8 list"
  mouse_callback :: u32

section \<open>Controller dialogue\<close>

text \<open>\<^verbatim>\<open>while (timeout--)\<close>: at most 100000 polls of the controller status.\<close>

fun mouse_poll_write :: "nat \<Rightarrow> device \<Rightarrow> history \<Rightarrow> history" where
  "mouse_poll_write 0 d h = h"
| "mouse_poll_write (Suc n) d h =
     (let (v, h1) = inb d 0x64 h in if v AND 2 = 0 then h1 else mouse_poll_write n d h1)"

fun mouse_poll_read :: "nat \<Rightarrow> device \<Rightarrow> history \<Rightarrow> history" where
  "mouse_poll_read 0 d h = h"
| "mouse_poll_read (Suc n) d h =
     (let (v, h1) = inb d 0x64 h in if v AND 1 \<noteq> 0 then h1 else mouse_poll_read n d h1)"

definition mouse_wait_write :: "device \<Rightarrow> history \<Rightarrow> history" where
  "mouse_wait_write d h = mouse_poll_write 100000 d h"

definition mouse_wait_read :: "device \<Rightarrow> history \<Rightarrow> history" where
  "mouse_wait_read d h = mouse_poll_read 100000 d h"

definition mouse_write :: "device \<Rightarrow> u8 \<Rightarrow> history \<Rightarrow> history" where
  "mouse_write d data h =
     (let h = mouse_wait_write d h; h = outb 0x64 0xD4 h; h = mouse_wait_write d h in outb 0x60 data h)"

definition mouse_read :: "device \<Rightarrow> history \<Rightarrow> u8 \<times> history" where
  "mouse_read d h = inb d 0x60 (mouse_wait_read d h)"

definition mouse_init :: "device \<Rightarrow> mouse \<times> handlers \<times> history \<Rightarrow> mouse \<times> handlers \<times> history" where
  "mouse_init d = (\<lambda>(s, t, h).
     (let t1 = register_interrupt_handler 44 Mouse_handler t;
          h = mouse_wait_write d h; h = outb 0x64 0xA8 h;
          h = mouse_wait_write d h; h = outb 0x64 0x20 h;
          h = mouse_wait_read d h; (v, h) = inb d 0x60 h;
          status = v OR 2;
          h = mouse_wait_write d h; h = outb 0x64 0x60 h;
          h = mouse_wait_write d h; h = outb 0x60 status h;
          h = mouse_write d 0xF6 h; (ack1, h) = mouse_read d h;
          h = mouse_write d 0xF4 h; (ack2, h) = mouse_read d h
      in (s\<lparr>mouse_state := \<lparr>mouse_x = 0, mouse_y = 0, mouse_buttons = 0\<rparr>\<rparr>, t1, h)))"

section \<open>Packets\<close>

text \<open>The bytes are stored as \<^verbatim>\<open>int8_t\<close> and read back into \<^verbatim>\<open>int32_t\<close>, which extends their sign.\<close>

definition packet_delta :: "u8 \<Rightarrow> u8 \<Rightarrow> u8 \<Rightarrow> int" where
  "packet_delta b status m = (let d = sint b in if d \<noteq> 0 \<and> status AND m \<noteq> 0 then d - 256 else d)"

text \<open>The handler with the byte it read; the second component is the call of the callback.\<close>

definition mouse_packet_byte :: "u8 \<Rightarrow> mouse \<Rightarrow> (mouse \<times> (int \<times> int \<times> u8) option) option" where
  "mouse_packet_byte v s =
     do {
       b \<leftarrow> wr (mouse_byte s) (unat (mouse_cycle s)) v;
       let s = s\<lparr>mouse_byte := b, mouse_cycle := mouse_cycle s + 1\<rparr>;
       if mouse_cycle s = 3 then do {
         let s = s\<lparr>mouse_cycle := 0\<rparr>;
         status \<leftarrow> rd b 0;
         b1 \<leftarrow> rd b 1;
         b2 \<leftarrow> rd b 2;
         let dx = packet_delta b1 status 0x10;
         let dy = - packet_delta b2 status 0x20;
         x \<leftarrow> int_ok (mouse_x (mouse_state s) + dx);
         y \<leftarrow> int_ok (mouse_y (mouse_state s) + dy);
         let btn = status AND 7;
         Some (s\<lparr>mouse_state := \<lparr>mouse_x = x, mouse_y = y, mouse_buttons = btn\<rparr>\<rparr>,
               if mouse_callback s \<noteq> 0 then Some (dx, dy, btn) else None)
       } else Some (s, None)
     }"

definition mouse_handler ::
    "device \<Rightarrow> mouse \<times> history \<Rightarrow> ((mouse \<times> (int \<times> int \<times> u8) option) \<times> history) option" where
  "mouse_handler d = (\<lambda>(s, h). let (v, h1) = inb d 0x60 h in map_option (\<lambda>r. (r, h1)) (mouse_packet_byte v s))"

definition mouse_get_state :: "mouse \<Rightarrow> mouse_state_t" where
  "mouse_get_state s = mouse_state s"

definition mouse_set_callback :: "u32 \<Rightarrow> mouse \<Rightarrow> mouse" where
  "mouse_set_callback callback s = s\<lparr>mouse_callback := callback\<rparr>"

section \<open>Properties\<close>

lemma sint_u8: "sint b = (if b < 0x80 then int (unat b) else int (unat b) - 256)" for b :: u8
proof -
  define n where "n = unat b"
  have n: "n < 256" by (simp add: n_def unat_u8_less)
  have "sint b = signed_take_bit 7 (uint b)" by (simp add: sint_uint)
  also have "\<dots> = (int n + 128) mod 256 - 128"
    by (simp add: signed_take_bit_eq_take_bit_shift take_bit_eq_mod n_def)
  also have "(int n + 128) mod 256 = (if n < 128 then int n + 128 else int n - 128)"
  proof (cases "n < 128")
    case False
    have "(int n + 128) mod 256 = (int n + 128 - 256) mod 256" by (rule minus_mod_self2 [symmetric])
    also have "\<dots> = int n - 128" using n False by (subst mod_pos_pos_trivial) simp_all
    finally show ?thesis using False by simp
  qed simp
  finally have "sint b = (if n < 128 then int n else int n - 256)" by simp
  then show ?thesis by (simp add: n_def word_less_nat_alt)
qed

text \<open>The handler assembles packets: of three bytes the first two are only stored, the third moves the
  position by the decoded movement, with the vertical axis inverted, and sets the buttons.\<close>

lemma mouse_packet_three:
  assumes "length (mouse_byte s) = 3" and "mouse_cycle s = 0"
    and "int_ok (mouse_x (mouse_state s) + packet_delta b1 st 0x10) = Some x"
    and "int_ok (mouse_y (mouse_state s) - packet_delta b2 st 0x20) = Some y"
  shows "\<exists>s1 s2 s3. mouse_packet_byte st s = Some (s1, None) \<and> mouse_packet_byte b1 s1 = Some (s2, None) \<and>
    mouse_packet_byte b2 s2 = Some (s3, if mouse_callback s \<noteq> 0
      then Some (packet_delta b1 st 0x10, - packet_delta b2 st 0x20, st AND 7) else None) \<and>
    mouse_state s3 = \<lparr>mouse_x = x, mouse_y = y, mouse_buttons = st AND 7\<rparr> \<and> mouse_cycle s3 = 0 \<and> length (mouse_byte s3) = 3 \<and>
    mouse_callback s3 = mouse_callback s"
proof -
  from assms(1) obtain a b c where m: "mouse_byte s = [a, b, c]" by (auto simp: length_Suc_conv numeral_3_eq_3)
  let ?s1 = "s\<lparr>mouse_byte := [st, b, c], mouse_cycle := 1\<rparr>" and ?s2 = "s\<lparr>mouse_byte := [st, b1, c], mouse_cycle := 2\<rparr>"
  let ?s3 = "s\<lparr>mouse_byte := [st, b1, b2], mouse_cycle := 0, mouse_state := \<lparr>mouse_x = x, mouse_y = y, mouse_buttons = st AND 7\<rparr>\<rparr>"
  have "mouse_packet_byte st s = Some (?s1, None)" using m assms(2) by (simp add: mouse_packet_byte_def)
  moreover have "mouse_packet_byte b1 ?s1 = Some (?s2, None)" by (simp add: mouse_packet_byte_def)
  moreover have "mouse_packet_byte b2 ?s2 = Some (?s3, if mouse_callback s \<noteq> 0
      then Some (packet_delta b1 st 0x10, - packet_delta b2 st 0x20, st AND 7) else None)"
    using assms(3,4) by (simp add: mouse_packet_byte_def Let_def)
  moreover have "mouse_state ?s3 = \<lparr>mouse_x = x, mouse_y = y, mouse_buttons = st AND 7\<rparr>" "mouse_cycle ?s3 = 0"
    "length (mouse_byte ?s3) = 3" "mouse_callback ?s3 = mouse_callback s" by simp_all
  ultimately show ?thesis by blast
qed

text \<open>Initialisation only talks to the keyboard controller: interrupt 12 stays masked in the second
  interrupt controller, as \<^verbatim>\<open>pic_remap\<close> left it.\<close>

lemma poll_writes: "writes_to q (mouse_poll_write n d h) = writes_to q h" "writes_to q (mouse_poll_read n d h) = writes_to q h"
  by (induction n arbitrary: h) (auto simp: inb_def Let_def)

lemma mouse_init_keeps_masked: "writes_to 0xA1 (snd (snd (mouse_init d (s, t, h)))) = writes_to 0xA1 h"
  by (simp add: mouse_init_def mouse_write_def mouse_read_def mouse_wait_write_def mouse_wait_read_def
      poll_writes inb_def outb_def Let_def split_def)

text \<open>The movement a PS/2 packet encodes: nine-bit two's complement with the sign in the status byte.\<close>

definition ps2_delta :: "u8 \<Rightarrow> bool \<Rightarrow> int" where
  "ps2_delta b neg = int (unat b) - (if neg then 256 else 0)"

text \<open>A movement byte below 128 is decoded as the PS/2 protocol defines it, but for the all-zero byte with its
  sign set; a byte of 128 or more is decoded 256 too low, because the driver extends the sign of the byte and then
  subtracts 256 for the sign bit of the status.\<close>

definition decode_error :: "u8 \<Rightarrow> bool \<Rightarrow> int" where
  "decode_error b neg = (if b \<ge> 0x80 then 256 else if b = 0 \<and> neg then - 256 else 0)"

lemma packet_delta_ps2: "packet_delta b status m = ps2_delta b (status AND m \<noteq> 0) - decode_error b (status AND m \<noteq> 0)"
proof (cases "b < 0x80")
  case True
  then show ?thesis by (auto simp: packet_delta_def ps2_delta_def decode_error_def sint_u8 Let_def not_less [symmetric] uint_0_iff)
next
  case False
  have "int (unat b) - 256 \<noteq> 0" using unat_u8_less [of b] by linarith
  with False show ?thesis by (auto simp: packet_delta_def ps2_delta_def decode_error_def sint_u8 Let_def not_less [symmetric])
qed

lemma packet_delta_range: "\<bar>packet_delta b status m\<bar> \<le> 384"
proof -
  have "- 128 \<le> sint b" "sint b < 128" using sint_greater_eq [of b] sint_less [of b] by simp_all
  then show ?thesis by (auto simp: packet_delta_def Let_def)
qed

section \<open>A stream of packets\<close>

text \<open>The interrupts that deliver the bytes one after another, with the calls of the callback in order.\<close>

fun mouse_stream :: "u8 list \<Rightarrow> mouse \<Rightarrow> (mouse \<times> (int \<times> int \<times> u8) list) option" where
  "mouse_stream [] s = Some (s, [])"
| "mouse_stream (v # vs) s =
     do { (s, c) \<leftarrow> mouse_packet_byte v s; (s, cs) \<leftarrow> mouse_stream vs s; Some (s, (case c of None \<Rightarrow> cs | Some x \<Rightarrow> x # cs)) }"

definition move_x :: "u8 \<times> u8 \<times> u8 \<Rightarrow> int" where
  "move_x = (\<lambda>(st, b1, b2). ps2_delta b1 (st AND 0x10 \<noteq> 0) - decode_error b1 (st AND 0x10 \<noteq> 0))"

definition move_y :: "u8 \<times> u8 \<times> u8 \<Rightarrow> int" where
  "move_y = (\<lambda>(st, b1, b2). - (ps2_delta b2 (st AND 0x20 \<noteq> 0) - decode_error b2 (st AND 0x20 \<noteq> 0)))"

definition packet_bytes :: "(u8 \<times> u8 \<times> u8) list \<Rightarrow> u8 list" where
  "packet_bytes ps = concat (map (\<lambda>(st, b1, b2). [st, b1, b2]) ps)"

text \<open>C34: the driver keeps in step with the mouse. Starting between two packets, for every sequence of packets short enough that
  the position stays an \<^verbatim>\<open>int32_t\<close>, the position moves by the sum of the decoded movements, the vertical axis inverted,
  and the callback is called once for each packet, in order, with its movement and buttons; afterwards the driver is again
  between two packets. Every movement is the one the PS/2 protocol defines less the error of the decoding: 256 for a
  movement byte of 128 or more, so that a move by -1 is read as -257.\<close>

theorem mouse_stream_tracks_packets:
  assumes "length (mouse_byte s) = 3" and "mouse_cycle s = 0" and "mouse_callback s \<noteq> 0"
    and "\<bar>mouse_x (mouse_state s)\<bar> + 384 * int (length ps) < 2 ^ 31" and "\<bar>mouse_y (mouse_state s)\<bar> + 384 * int (length ps) < 2 ^ 31"
  shows "\<exists>s'. mouse_stream (packet_bytes ps) s = Some (s', map (\<lambda>p. (move_x p, move_y p, fst p AND 7)) ps) \<and>
    mouse_x (mouse_state s') = mouse_x (mouse_state s) + sum_list (map move_x ps) \<and>
    mouse_y (mouse_state s') = mouse_y (mouse_state s) + sum_list (map move_y ps) \<and>
    mouse_cycle s' = 0 \<and> length (mouse_byte s') = 3"
  using assms
proof (induction ps arbitrary: s)
  case Nil
  then show ?case by (simp add: packet_bytes_def)
next
  case (Cons p ps)
  obtain st b1 b2 where p: "p = (st, b1, b2)" by (cases p)
  let ?dx = "packet_delta b1 st 0x10" and ?dy = "packet_delta b2 st 0x20"
  have d: "?dx = move_x p" "- ?dy = move_y p" by (simp_all add: p move_x_def move_y_def packet_delta_ps2)
  have r: "\<bar>?dx\<bar> \<le> 384" "\<bar>?dy\<bar> \<le> 384" by (rule packet_delta_range)+
  have len: "int (length (p # ps)) = int (length ps) + 1" by simp
  have "int_ok (mouse_x (mouse_state s) + ?dx) = Some (mouse_x (mouse_state s) + ?dx)"
    "int_ok (mouse_y (mouse_state s) - ?dy) = Some (mouse_y (mouse_state s) - ?dy)"
    using Cons.prems(4,5) r unfolding len int_ok_def by (auto simp: abs_if split: if_splits)
  from mouse_packet_three [OF Cons.prems(1,2) this] obtain s1 s2 s3 where t: "mouse_packet_byte st s = Some (s1, None)"
    "mouse_packet_byte b1 s1 = Some (s2, None)" "mouse_packet_byte b2 s2 = Some (s3, Some (?dx, - ?dy, st AND 7))"
    "mouse_state s3 = \<lparr>mouse_x = mouse_x (mouse_state s) + ?dx, mouse_y = mouse_y (mouse_state s) - ?dy, mouse_buttons = st AND 7\<rparr>"
    "mouse_cycle s3 = 0" "length (mouse_byte s3) = 3" "mouse_callback s3 = mouse_callback s"
    using Cons.prems(3) by auto
  have "\<bar>mouse_x (mouse_state s3)\<bar> + 384 * int (length ps) < 2 ^ 31" "\<bar>mouse_y (mouse_state s3)\<bar> + 384 * int (length ps) < 2 ^ 31"
    using Cons.prems(4,5) r t(4) unfolding len by simp_all
  with Cons.IH [OF t(6,5)] t(7) Cons.prems(3) obtain s' where i: "mouse_stream (packet_bytes ps) s3 =
      Some (s', map (\<lambda>p. (move_x p, move_y p, fst p AND 7)) ps)"
    "mouse_x (mouse_state s') = mouse_x (mouse_state s3) + sum_list (map move_x ps)"
    "mouse_y (mouse_state s') = mouse_y (mouse_state s3) + sum_list (map move_y ps)" "mouse_cycle s' = 0" "length (mouse_byte s') = 3"
    by auto
  have "mouse_stream (packet_bytes (p # ps)) s = Some (s', (?dx, - ?dy, st AND 7) # map (\<lambda>p. (move_x p, move_y p, fst p AND 7)) ps)"
    using t(1-3) i(1) by (simp add: packet_bytes_def p)
  then show ?case using i(2-5) t(4) d by (simp add: p)
qed

definition mouse_reset :: mouse where
  "mouse_reset = \<lparr>mouse_state = \<lparr>mouse_x = 0, mouse_y = 0, mouse_buttons = 0\<rparr>, mouse_cycle = 0, mouse_byte = [0, 0, 0], mouse_callback = 0x101000\<rparr>"

text \<open>Two steps to the right, then one to the left with the left button held.\<close>

theorem mouse_stream_tracks_packets_witness:
  "\<exists>s'. mouse_stream [0x08, 2, 0, 0x19, 0xFF, 0] mouse_reset = Some (s', [(2, 0, 0), (- 257, 0, 1)])"
proof -
  have "\<exists>s'. mouse_stream (packet_bytes [(0x08, 2, 0), (0x19, 0xFF, 0)]) mouse_reset =
      Some (s', map (\<lambda>p. (move_x p, move_y p, fst p AND 7)) [(0x08, 2, 0), (0x19, 0xFF, 0)])"
    using mouse_stream_tracks_packets [of mouse_reset "[(0x08, 2, 0), (0x19, 0xFF, 0)]"] by (auto simp: mouse_reset_def simp del: mouse_stream.simps)
  then show ?thesis by (simp add: packet_bytes_def move_x_def move_y_def ps2_delta_def decode_error_def del: mouse_stream.simps)
qed

end
