(* ===== verification/Sclp.thy ===== *)
theory Sclp
  imports Libk
begin

text \<open>
  The console of the mainframe flavour (\<^verbatim>\<open>munux-zos/kernel/src/main.rs\<close>): texts are handed to the service processor
  in a control block of 4096 bytes, the SCCB. The state is the block and the service calls made so far, each with the
  command and the block at the call; the machine code around the call (waiting for the service signal) is not
  modelled. Structures are stored at the offsets of their C layout, big-endian; an access outside the block would be
  \<^const>\<open>None\<close>, and the lemmas show that there is none.
\<close>

section \<open>State\<close>

type_synonym u64 = "64 word"

record zconsole =
  SCCB :: "u8 list"
  calls :: "(u64 \<times> u8 list) list"

definition SCCB_SIZE :: nat where [simp]: "SCCB_SIZE = 4096"
definition SCLP_CMD_WRITE_EVENT_DATA :: u64 where [simp]: "SCLP_CMD_WRITE_EVENT_DATA = 0x00760005"
definition SCLP_CMD_WRITE_EVENT_MASK :: u64 where [simp]: "SCLP_CMD_WRITE_EVENT_MASK = 0x00780005"
definition SCLP_EVENT_ASCII_CONSOLE_DATA :: u8 where [simp]: "SCLP_EVENT_ASCII_CONSOLE_DATA = 0x1A"
definition SCLP_EVENT_MASK_MSG_ASCII :: u32 where [simp]: "SCLP_EVENT_MASK_MSG_ASCII = 0x40"
definition SCLP_FC_NORMAL_WRITE :: u8 where [simp]: "SCLP_FC_NORMAL_WRITE = 0"

definition put16 :: "nat \<Rightarrow> u16 \<Rightarrow> u8 list \<Rightarrow> u8 list option" where
  "put16 off v b = do { b \<leftarrow> wr b off (ucast (drop_bit 8 v)); wr b (off + 1) (ucast v) }"

definition put32 :: "nat \<Rightarrow> u32 \<Rightarrow> u8 list \<Rightarrow> u8 list option" where
  "put32 off v b = do { b \<leftarrow> put16 off (ucast (drop_bit 16 v)) b; put16 (off + 2) (ucast v) b }"

definition sclp_service_call :: "u64 \<Rightarrow> zconsole \<Rightarrow> zconsole" where
  "sclp_service_call command z = z\<lparr>calls := calls z @ [(command, SCCB z)]\<rparr>"

section \<open>Operations\<close>

text \<open>The sizes of the structures: \<^verbatim>\<open>SccbHeader\<close> 8, \<^verbatim>\<open>EventBufferHeader\<close> 6, \<^verbatim>\<open>WriteEventMask\<close> 28,
  \<^verbatim>\<open>WriteEventData\<close> 14 bytes.\<close>

definition sclp_setup :: "zconsole \<Rightarrow> zconsole option" where
  "sclp_setup z =
     do {
       let b = replicate SCCB_SIZE 0;
       b \<leftarrow> put16 0 28 b;
       b \<leftarrow> put16 10 4 b;
       b \<leftarrow> put32 12 0 b;
       b \<leftarrow> put32 16 SCLP_EVENT_MASK_MSG_ASCII b;
       Some (sclp_service_call SCLP_CMD_WRITE_EVENT_MASK (z\<lparr>SCCB := b\<rparr>))
     }"

text \<open>The loop of \<^verbatim>\<open>sclp_write\<close>; \<open>n\<close> bytes of text are in the block, from offset 14 on.\<close>

fun sclp_fill :: "nat \<Rightarrow> u8 list \<Rightarrow> nat \<Rightarrow> u8 list \<Rightarrow> (nat \<times> u8 list) option" where
  "sclp_fill cap [] n b = Some (n, b)"
| "sclp_fill cap (c # cs) n b =
     (if n + 2 \<ge> cap then Some (n, b)
      else if c = 10 then do { b \<leftarrow> wr b (14 + n) 13; b \<leftarrow> wr b (14 + (n + 1)) c; sclp_fill cap cs (n + 2) b }
      else do { b \<leftarrow> wr b (14 + n) c; sclp_fill cap cs (n + 1) b })"

definition sclp_write :: "u8 list \<Rightarrow> zconsole \<Rightarrow> zconsole option" where
  "sclp_write s z =
     do {
       (n, b) \<leftarrow> sclp_fill (SCCB_SIZE - 14) s 0 (replicate SCCB_SIZE 0);
       b \<leftarrow> put16 0 (word_of_nat (14 + n)) b;
       b \<leftarrow> wr b 2 SCLP_FC_NORMAL_WRITE;
       b \<leftarrow> put16 8 (word_of_nat (6 + n)) b;
       b \<leftarrow> wr b 10 SCLP_EVENT_ASCII_CONSOLE_DATA;
       b \<leftarrow> wr b 11 0;
       Some (sclp_service_call SCLP_CMD_WRITE_EVENT_DATA (z\<lparr>SCCB := b\<rparr>))
     }"

definition console_write :: "u8 list \<Rightarrow> zconsole \<Rightarrow> zconsole option" where
  "console_write s z = sclp_write s z"

text \<open>The digits, from the right; \<open>i\<close> is the index of the leftmost one so far.\<close>

function dec_loop :: "nat \<Rightarrow> nat \<Rightarrow> u8 list \<Rightarrow> (nat \<times> u8 list) option" where
  "dec_loop v i buf =
     (if v > 0 then
        if i = 0 then None
        else do { buf \<leftarrow> wr buf (i - 1) (0x30 + word_of_nat (v mod 10)); dec_loop (v div 10) (i - 1) buf }
      else Some (i, buf))"
  by pat_completeness auto
termination
  by (relation "measure fst") auto

declare dec_loop.simps [simp del]

definition console_write_u32_pad :: "u32 \<Rightarrow> nat \<Rightarrow> zconsole \<Rightarrow> zconsole option" where
  "console_write_u32_pad n width z =
     do {
       let buf = replicate 10 (0x30 :: u8);
       (i, buf) \<leftarrow> (if n = 0 then Some (length buf - 1, buf) else dec_loop (unat n) (length buf) buf);
       let num = length buf - i;
       let start = (if width > num \<and> width \<le> length buf then length buf - width else i);
       console_write (drop start buf) z
     }"

section \<open>The text of a call\<close>

text \<open>What the service processor shows for a block: the text between the header and the length of the block.\<close>

definition be16 :: "u8 list \<Rightarrow> nat \<Rightarrow> nat" where
  "be16 b off = 256 * unat (b ! off) + unat (b ! (off + 1))"

definition event_text :: "u64 \<times> u8 list \<Rightarrow> u8 list" where
  "event_text = (\<lambda>(command, b).
     if command = SCLP_CMD_WRITE_EVENT_DATA \<and> b ! 10 = SCLP_EVENT_ASCII_CONSOLE_DATA \<and> be16 b 0 = be16 b 8 + 8
     then take (be16 b 8 - 6) (drop 14 b) else [])"

definition console_text :: "zconsole \<Rightarrow> u8 list" where
  "console_text z = concat (map event_text (calls z))"

fun crlf :: "u8 list \<Rightarrow> u8 list" where
  "crlf [] = []"
| "crlf (c # cs) = (if c = 10 then [13, 10] else [c]) @ crlf cs"

lemma crlf_append [simp]: "crlf (xs @ ys) = crlf xs @ crlf ys"
  by (induction xs) auto

lemma crlf_length: "length (crlf cs) \<le> 2 * length cs"
  by (induction cs) auto

lemma wr_mid: "i = length pre \<Longrightarrow> wr (pre @ j # js) i v = Some (pre @ v # js)"
  by (simp add: list_update_append)

lemma sclp_fill_spec:
  assumes "length pre = 14 + n" and "length pre + length js = 4096" and "n \<le> 4081"
  shows "\<exists>m. let t = crlf (take m cs) in sclp_fill 4082 cs n (pre @ js) = Some (n + length t, pre @ t @ drop (length t) js) \<and>
    n + length t \<le> 4081 \<and> (m = length cs \<or> 4080 \<le> n + length t)"
  using assms
proof (induction cs arbitrary: n pre js)
  case Nil
  then show ?case by simp
next
  case (Cons c cs)
  show ?case
  proof (cases "n + 2 \<ge> 4082")
    case True
    then show ?thesis using Cons.prems by (intro exI [of _ 0]) simp
  next
    case False
    then have "3 \<le> length js" using Cons.prems by simp
    then obtain j1 j2 js2 where js: "js = j1 # j2 # js2" by (metis Suc_le_length_iff numeral_3_eq_3)
    show ?thesis
    proof (cases "c = 10")
      case True
      have f: "sclp_fill 4082 (c # cs) n (pre @ js) = sclp_fill 4082 cs (n + 2) ((pre @ [13, 10]) @ js2)"
        using True False Cons.prems(1) wr_mid [of "14 + n" pre j1 "j2 # js2" 13] wr_mid [of "14 + (n + 1)" "pre @ [13]" j2 js2 10]
        by (simp add: js)
      obtain m where "let t = crlf (take m cs) in sclp_fill 4082 cs (n + 2) ((pre @ [13, 10]) @ js2) =
          Some (n + 2 + length t, (pre @ [13, 10]) @ t @ drop (length t) js2) \<and> n + 2 + length t \<le> 4081 \<and>
          (m = length cs \<or> 4080 \<le> n + 2 + length t)"
        using Cons.IH [of "pre @ [13, 10]" "n + 2" js2] Cons.prems False js by auto
      then show ?thesis using f True by (intro exI [of _ "Suc m"]) (simp add: Let_def js)
    next
      case ne: False
      have f: "sclp_fill 4082 (c # cs) n (pre @ js) = sclp_fill 4082 cs (n + 1) ((pre @ [c]) @ j2 # js2)"
        using ne False Cons.prems(1) wr_mid [of "14 + n" pre j1 "j2 # js2" c] by (simp add: js)
      obtain m where "let t = crlf (take m cs) in sclp_fill 4082 cs (n + 1) ((pre @ [c]) @ j2 # js2) =
          Some (n + 1 + length t, (pre @ [c]) @ t @ drop (length t) (j2 # js2)) \<and> n + 1 + length t \<le> 4081 \<and>
          (m = length cs \<or> 4080 \<le> n + 1 + length t)"
        using Cons.IH [of "pre @ [c]" "n + 1" "j2 # js2"] Cons.prems False js by auto
      then show ?thesis using f ne by (intro exI [of _ "Suc m"]) (simp add: Let_def js)
    qed
  qed
qed

lemma be16_join: "256 * unat (ucast (drop_bit 8 v) :: u8) + unat (ucast v :: u8) = unat v" for v :: u16
proof -
  have b: "unat v < 2 ^ LENGTH(16)" by (rule unsigned_less)
  then have "unat v div 256 < 256" by simp
  moreover have "unat (ucast v :: u8) = unat v mod 256" by (simp add: unsigned_ucast_eq take_bit_eq_mod)
  moreover have "unat (drop_bit 8 v) = unat v div 256" using b by (subst unsigned_drop_bit_eq) (simp add: drop_bit_eq_div take_bit_nat_eq_self)
  then have "unat (ucast (drop_bit 8 v) :: u8) = unat v div 256 mod 256"
    unfolding unsigned_ucast_eq by (simp add: take_bit_eq_mod)
  ultimately show ?thesis by simp
qed

text \<open>\<open>shown cs z z'\<close>: between the states the service processor was given the text \<open>cs\<close>.\<close>

definition shown :: "u8 list \<Rightarrow> zconsole \<Rightarrow> zconsole \<Rightarrow> bool" where
  "shown cs z z' \<longleftrightarrow> (\<exists>k. calls z' = calls z @ k \<and> concat (map event_text k) = cs)"

lemma shown_refl [simp]: "shown [] z z"
  by (simp add: shown_def)

lemma shown_append: "shown xs z z1 \<Longrightarrow> shown ys z1 z2 \<Longrightarrow> shown (xs @ ys) z z2"
  by (fastforce simp: shown_def)

lemma shown_text: "shown cs z z' \<Longrightarrow> console_text z' = console_text z @ cs"
  by (auto simp: shown_def console_text_def)

lemma sclp_write_spec:
  obtains m z' where "sclp_write s z = Some z'" and "shown (crlf (take m s)) z z'" and "length (SCCB z') = 4096"
    and "length (crlf (take m s)) \<le> 4081" and "m = length s \<or> 4080 \<le> length (crlf (take m s))"
proof -
  have l: "length (replicate 14 (0 :: u8)) = 14 + 0" "length (replicate 14 (0 :: u8)) + length (replicate 4082 (0 :: u8)) = 4096" by simp_all
  have r: "replicate 14 (0 :: u8) @ replicate 4082 0 = replicate 4096 0" by (simp only: replicate_add [symmetric]) simp
  obtain m where m: "let t = crlf (take m s) in sclp_fill 4082 s 0 (replicate 4096 0) =
      Some (0 + length t, replicate 14 0 @ t @ drop (length t) (replicate 4082 0)) \<and>
      0 + length t \<le> 4081 \<and> (m = length s \<or> 4080 \<le> 0 + length t)"
    using sclp_fill_spec [OF l, of s, unfolded r] by auto
  define t where "t = crlf (take m s)"
  define js where "js = t @ drop (length t) (replicate 4082 (0 :: u8))"
  have f: "sclp_fill 4082 s 0 (replicate 4096 0) = Some (length t, replicate 14 0 @ js)" "length t \<le> 4081" "m = length s \<or> 4080 \<le> length t"
    using m unfolding js_def t_def Let_def by simp_all
  have js: "length js = 4082" "take (length t) js = t" using f(2) by (simp_all add: js_def)
  let ?a = "word_of_nat (14 + length t) :: u16" and ?c = "word_of_nat (6 + length t) :: u16"
  have u: "unat ?a = 14 + length t" "unat ?c = 6 + length t" using f(2) by (simp_all add: unat_of_nat take_bit_nat_eq_self del: of_nat_add)
  let ?b = "[ucast (drop_bit 8 ?a), ucast ?a, 0, 0, 0, 0, 0, 0, ucast (drop_bit 8 ?c), ucast ?c, 0x1A, 0, 0, 0] @ js"
  have r14: "replicate 14 (0 :: u8) = [0, 0, 0, 0, 0, 0, 0, 0, 0, 0, 0, 0, 0, 0]" by (simp add: numeral_eq_Suc)
  have w: "sclp_write s z = Some (sclp_service_call SCLP_CMD_WRITE_EVENT_DATA (z\<lparr>SCCB := ?b\<rparr>))"
    using f(1) unfolding r14 by (simp add: sclp_write_def put16_def)
  have "event_text (SCLP_CMD_WRITE_EVENT_DATA, ?b) = t"
    using js u be16_join [of ?a] be16_join [of ?c] by (simp add: event_text_def be16_def)
  then have "shown t z (sclp_service_call SCLP_CMD_WRITE_EVENT_DATA (z\<lparr>SCCB := ?b\<rparr>))"
    by (simp add: shown_def sclp_service_call_def)
  with that [OF w, of m] f js show thesis by (simp add: sclp_service_call_def t_def)
qed

lemma console_write_short:
  assumes "length s \<le> 2000"
  obtains z' where "console_write s z = Some z'" and "shown (crlf s) z z'"
proof -
  obtain m z' where w: "sclp_write s z = Some z'" "shown (crlf (take m s)) z z'" "m = length s \<or> 4080 \<le> length (crlf (take m s))"
    by (rule sclp_write_spec)
  have "length (crlf (take m s)) \<le> 2 * 2000" using crlf_length [of "take m s"] assms by simp
  with w(3) have "m = length s" by simp
  with that w(1,2) show thesis by (simp add: console_write_def)
qed

lemma decimal_digit_byte: "d < 10 \<Longrightarrow> digits ! d = 0x30 + word_of_nat d"
proof -
  assume "d < 10"
  then have "d \<in> {0, 1, 2, 3, 4, 5, 6, 7, 8, 9}" by auto
  then show ?thesis by (auto simp: digits_def bytes_def)
qed

lemma dec_loop_spec:
  assumes "0 < v" and "length pre = i" and "length (numeral_string 10 v) \<le> i"
  shows "dec_loop v i (pre @ suf) =
    Some (i - length (numeral_string 10 v), take (i - length (numeral_string 10 v)) pre @ numeral_string 10 v @ suf)"
  using assms
proof (induction v arbitrary: i pre suf rule: less_induct)
  case (less v)
  let ?d = "0x30 + word_of_nat (v mod 10) :: u8"
  have i: "i \<noteq> 0" using less.prems(3) by (cases i) (auto simp: numeral_string_def)
  then obtain pre1 j where pre: "pre = pre1 @ [j]" "length pre1 = i - 1"
    using less.prems(2) by (metis length_0_conv length_butlast append_butlast_last_id)
  have step: "dec_loop v i (pre @ suf) = dec_loop (v div 10) (i - 1) (pre1 @ ?d # suf)"
    using less.prems(1) i pre wr_mid [of "i - 1" pre1 j suf ?d] by (subst dec_loop.simps) simp
  show ?case
  proof (cases "v < 10")
    case True
    then have "numeral_string 10 v = [?d]" by (simp add: numeral_string_def base_digits.simps decimal_digit_byte)
    with True step pre show ?thesis by (simp add: dec_loop.simps [of 0])
  next
    case False
    have n: "numeral_string 10 v = numeral_string 10 (v div 10) @ [?d]"
      using False by (simp add: numeral_string_def base_digits.simps [of 10 v] decimal_digit_byte)
    have "dec_loop (v div 10) (i - 1) (pre1 @ ?d # suf) = Some (i - 1 - length (numeral_string 10 (v div 10)),
        take (i - 1 - length (numeral_string 10 (v div 10))) pre1 @ numeral_string 10 (v div 10) @ ?d # suf)"
      using less.prems False pre n by (intro less.IH) simp_all
    with step n pre show ?thesis by simp
  qed
qed

text \<open>A number in decimal with leading zeros.\<close>

definition padded :: "nat \<Rightarrow> u32 \<Rightarrow> u8 list" where
  "padded width n = (let t = numeral_string 10 (unat n) in replicate (width - length t) 0x30 @ t)"

lemma crlf_plain: "10 \<notin> set cs \<Longrightarrow> crlf cs = cs"
  by (induction cs) auto

lemma padded_plain: "10 \<notin> set (padded width n)"
proof -
  have "\<forall>c \<in> set digits. c \<noteq> 10" by (simp add: digits_def bytes_def)
  then have "digits ! d \<noteq> 10" if "d < 10" for d using that by simp
  then have "10 \<notin> set (numeral_string 10 (unat n))" using base_digits_less [of 10 _ "unat n"] by (force simp: numeral_string_def)
  then show ?thesis by (auto simp: padded_def Let_def)
qed

lemma console_write_pad:
  assumes "width \<le> 10"
  obtains z' where "console_write_u32_pad n width z = Some z'" and "shown (padded width n) z z'"
proof -
  let ?t = "numeral_string 10 (unat n)" and ?z = "replicate 10 (0x30 :: u8)"
  have l: "length ?t \<le> 10" by (rule decimal_length) (use unsigned_less [of n] in simp)
  have l0: "1 \<le> length ?t" by (simp add: numeral_string_def Suc_le_eq)
  define buf where "buf = take (10 - length ?t) ?z @ ?t"
  have b: "(if n = 0 then Some (length ?z - 1, ?z) else dec_loop (unat n) (length ?z) ?z) = Some (10 - length ?t, buf)"
  proof (cases "n = 0")
    case True
    then have "?t = [0x30]" by (simp add: numeral_string_def base_digits.simps digits_def bytes_def)
    then show ?thesis using True by (simp add: buf_def numeral_eq_Suc)
  next
    case False
    then have "0 < unat n" by (simp add: unat_gt_0)
    from dec_loop_spec [OF this, of ?z 10 "[]"] l False show ?thesis by (simp add: buf_def)
  qed
  have lb: "length buf = 10" using l by (simp add: buf_def)
  have d: "drop (if width > length buf - (10 - length ?t) \<and> width \<le> length buf then length buf - width else 10 - length ?t) buf = padded width n"
    using l lb assms by (auto simp: buf_def padded_def Let_def)
  have c: "crlf (padded width n) = padded width n" by (rule crlf_plain, rule padded_plain)
  have "length (padded width n) \<le> 2000" using l assms by (simp add: padded_def Let_def)
  then obtain z' where "console_write (padded width n) z = Some z'" "shown (crlf (padded width n)) z z'" by (rule console_write_short)
  with that b d c show thesis by (simp add: console_write_u32_pad_def Let_def)
qed

section \<open>Properties\<close>



end
