(* ===== verification/Jes.thy ===== *)
theory Jes
  imports Sclp "HOL-Library.Multiset"
begin

text \<open>
  The job entry subsystem of the mainframe flavour (\<^verbatim>\<open>munux-zos/kernel/src/jes.rs\<close>) and its \<^verbatim>\<open>kmain\<close>: sixteen job slots,
  eight address spaces, and a dispatcher that runs the job of highest priority to its end. Output goes to the
  console of \<open>Sclp\<close>. A panic of the Rust code is \<^const>\<open>None\<close>; the kernel is built in release mode, where arithmetic wraps around. The lemmas show that the batch ends, that it takes the
  jobs in the order of a stable sort by priority, and that it gives every address space back.
\<close>

section \<open>Data\<close>

definition MAX_ASID :: nat where [simp]: "MAX_ASID = 8"
definition MAX_JOBS :: nat where [simp]: "MAX_JOBS = 16"

datatype JobState = Input | Active | Output | Purge

record AddressSpace =
  sp_asid :: u16
  sp_in_use :: bool

record Job =
  job_no :: u32
  job_name :: "u8 list"
  job_class :: u8
  job_priority :: u8
  job_state :: JobState
  job_asid :: u16
  job_steps :: u8

record Jes =
  spaces :: "AddressSpace list"
  jobs :: "Job option list"
  next_job_no :: u32

text \<open>A sequence of calls of \<^verbatim>\<open>console_write\<close> and \<^verbatim>\<open>console_write_u32_pad\<close>.\<close>

datatype piece = Str "u8 list" | Num u32 nat

fun emit :: "piece list \<Rightarrow> zconsole \<Rightarrow> zconsole option" where
  "emit [] z = Some z"
| "emit (Str s # ps) z = do { z \<leftarrow> console_write s z; emit ps z }"
| "emit (Num n width # ps) z = do { z \<leftarrow> console_write_u32_pad n width z; emit ps z }"

section \<open>Operations\<close>

definition Jes_new :: Jes where
  "Jes_new = \<lparr>spaces = map (\<lambda>i. \<lparr>sp_asid = word_of_nat i + 1, sp_in_use = False\<rparr>) [0..<MAX_ASID],
     jobs = replicate MAX_JOBS None, next_job_no = 1\<rparr>"

fun free_slot :: "'a option list \<Rightarrow> nat \<Rightarrow> nat option" where
  "free_slot [] i = None"
| "free_slot (slot # slots) i = (case slot of None \<Rightarrow> Some i | Some _ \<Rightarrow> free_slot slots (Suc i))"

definition submit :: "u8 list \<Rightarrow> u8 \<Rightarrow> u8 \<Rightarrow> u8 \<Rightarrow> Jes \<Rightarrow> u32 \<times> Jes" where
  "submit name class priority steps j =
     (case free_slot (jobs j) 0 of
        None \<Rightarrow> (0, j)
      | Some i \<Rightarrow> (next_job_no j, j\<lparr>next_job_no := next_job_no j + 1,
          jobs := (jobs j)[i := Some \<lparr>job_no = next_job_no j, job_name = name, job_class = class,
            job_priority = priority, job_state = Input, job_asid = 0, job_steps = steps\<rparr>]\<rparr>))"

fun take_space :: "AddressSpace list \<Rightarrow> u16 \<times> AddressSpace list" where
  "take_space [] = (0, [])"
| "take_space (s # ss) =
     (if \<not> sp_in_use s then (sp_asid s, s\<lparr>sp_in_use := True\<rparr> # ss)
      else let (a, ss') = take_space ss in (a, s # ss'))"

definition alloc_asid :: "Jes \<Rightarrow> u16 \<times> Jes" where
  "alloc_asid j = (let (a, ss) = take_space (spaces j) in (a, j\<lparr>spaces := ss\<rparr>))"

definition free_asid :: "u16 \<Rightarrow> Jes \<Rightarrow> Jes" where
  "free_asid a j = j\<lparr>spaces := map (\<lambda>s. if sp_asid s = a then s\<lparr>sp_in_use := False\<rparr> else s) (spaces j)\<rparr>"

text \<open>The loop over the slots from index \<open>i\<close> on; \<open>js\<close> are all slots.\<close>

fun pick_from :: "Job option list \<Rightarrow> nat \<Rightarrow> Job option list \<Rightarrow> nat option \<Rightarrow> nat option" where
  "pick_from js i [] best = best"
| "pick_from js i (slot # slots) best =
     pick_from js (Suc i) slots
       (case slot of
          None \<Rightarrow> best
        | Some jb \<Rightarrow>
            if job_state jb \<noteq> Input then best
            else case best of
                None \<Rightarrow> Some i
              | Some b \<Rightarrow> (case js ! b of
                    Some bj \<Rightarrow> if job_priority jb > job_priority bj then Some i else best
                  | None \<Rightarrow> best))"

definition pick_next :: "Jes \<Rightarrow> nat option" where
  "pick_next j = pick_from (jobs j) 0 (jobs j) None"

definition print_prefix :: "Job \<Rightarrow> piece list" where
  "print_prefix job = [Str (bytes ''JOB''), Num (job_no job) 5, Str (bytes '' ''), Str (job_name job), Str (bytes '' cl ''),
     Str [job_class job], Str (bytes '' pri ''), Num (ucast (job_priority job)) 2]"

definition step_lines :: "u8 \<Rightarrow> piece list" where
  "step_lines steps = concat (map (\<lambda>s. [Str (bytes ''    step ''), Num (word_of_nat s) 1, Str (bytes ''/''), Num (ucast steps) 1,
     Str (bytes '' ...'' @ [10])]) [1..<Suc (unat steps)])"

text \<open>The changes of the job are all in its slot, which the last one empties.\<close>

definition dispatch :: "nat \<Rightarrow> Jes \<times> zconsole \<Rightarrow> (Jes \<times> zconsole) option" where
  "dispatch idx = (\<lambda>(j, z).
     let (asid, j) = alloc_asid j in
     do {
       slot \<leftarrow> rd (jobs j) idx;
       job \<leftarrow> slot;
       let job = job\<lparr>job_asid := asid, job_state := Active\<rparr>;
       z \<leftarrow> emit (print_prefix job @ [Str (bytes '' asid ''), Num (ucast asid) 2, Str (bytes '': INPUT -> ACTIVE'' @ [10])]) z;
       z \<leftarrow> emit (step_lines (job_steps job)) z;
       let job = job\<lparr>job_state := Output\<rparr>;
       z \<leftarrow> emit (print_prefix job @ [Str (bytes '': ACTIVE -> OUTPUT (SYSOUT pronto)'' @ [10])]) z;
       let job = job\<lparr>job_state := Purge\<rparr>;
       z \<leftarrow> emit (print_prefix job @ [Str (bytes '': OUTPUT -> PURGE (asid ''), Num (ucast asid) 2, Str (bytes '' liberado)'' @ [10, 10])]) z;
       let j = free_asid asid j;
       Some (j\<lparr>jobs := (jobs j)[idx := None]\<rparr>, z)
     })"

text \<open>The choice and the effect of a dispatch on the slots, for the termination of the loop.\<close>

definition input_slot :: "Job option \<Rightarrow> bool" where
  "input_slot slot \<longleftrightarrow> (case slot of None \<Rightarrow> False | Some jb \<Rightarrow> job_state jb = Input)"

lemma dispatch_jobs: "dispatch idx (j, z) = Some (j', z') \<Longrightarrow> jobs j' = (jobs j)[idx := None]"
  by (auto simp: dispatch_def alloc_asid_def free_asid_def Let_def split: prod.splits bind_splits)

text \<open>\<open>best\<close> is the index of the first slot with the highest priority among the waiting jobs of \<open>js\<close>.\<close>

definition best_of :: "Job option list \<Rightarrow> nat option \<Rightarrow> bool" where
  "best_of js best \<longleftrightarrow>
     (case best of
        None \<Rightarrow> \<not> list_ex input_slot js
      | Some b \<Rightarrow> b < length js \<and> (\<exists>bj. js ! b = Some bj \<and> job_state bj = Input \<and>
          (\<forall>i < length js. \<forall>jb. js ! i = Some jb \<and> job_state jb = Input \<longrightarrow>
             job_priority jb \<le> job_priority bj \<and> (i < b \<longrightarrow> job_priority jb < job_priority bj))))"

lemma pick_from_best:
  assumes "best_of done_js best"
  shows "best_of (done_js @ slots) (pick_from (done_js @ slots) (length done_js) slots best)"
  using assms
proof (induction slots arbitrary: done_js best)
  case Nil
  then show ?case by simp
next
  case (Cons slot slots)
  let ?js = "done_js @ slot # slots"
  define b' where "b' = (case slot of None \<Rightarrow> best | Some jb \<Rightarrow> if job_state jb \<noteq> Input then best else case best of
      None \<Rightarrow> Some (length done_js)
    | Some b \<Rightarrow> (case ?js ! b of Some bj \<Rightarrow> if job_priority jb > job_priority bj then Some (length done_js) else best | None \<Rightarrow> best))"
  have "best_of (done_js @ [slot]) b'"
    using Cons.prems unfolding b'_def best_of_def
    by (auto simp: nth_append less_Suc_eq input_slot_def list_ex_length split: option.splits if_splits)
      (metis le_less_trans less_imp_le)+
  from Cons.IH [OF this] show ?case by (simp add: b'_def)
qed

lemma pick_next_best: "best_of (jobs j) (pick_next j)"
  using pick_from_best [of "[]" None "jobs j"] by (simp add: best_of_def pick_next_def)

definition waiting_slots :: "Jes \<Rightarrow> nat" where
  "waiting_slots j = length (filter input_slot (jobs j))"

lemma pick_next_slot: "pick_next j = Some idx \<Longrightarrow> idx < length (jobs j) \<and> input_slot (jobs j ! idx)"
  using pick_next_best [of j] by (auto simp: best_of_def input_slot_def)

lemma filter_update_None:
  assumes "i < length xs" and "P (xs ! i)" and "\<not> P v"
  shows "length (filter P (xs[i := v])) < length (filter P xs)"
proof -
  have "filter P xs = filter P (take i xs) @ xs ! i # filter P (drop (Suc i) xs)"
    using assms by (metis filter.simps(2) filter_append id_take_nth_drop)
  then show ?thesis using assms by (simp add: upd_conv_take_nth_drop)
qed

function run :: "Jes \<times> zconsole \<Rightarrow> (Jes \<times> zconsole) option" where
  "run (j, z) =
     (case pick_next j of
        None \<Rightarrow> Some (j, z)
      | Some idx \<Rightarrow> (case dispatch idx (j, z) of None \<Rightarrow> None | Some jz \<Rightarrow> run jz))"
  by pat_completeness auto
termination
proof (relation "measure (\<lambda>(j, z). waiting_slots j)")
  fix j z idx jz
  assume p: "pick_next j = Some idx" and "dispatch idx (j, z) = Some jz"
  then have "jobs (fst jz) = (jobs j)[idx := None]" using dispatch_jobs by (metis prod.collapse)
  then show "(jz, (j, z)) \<in> measure (\<lambda>(j, z). waiting_slots j)"
    using pick_next_slot [OF p] filter_update_None [of idx "jobs j" input_slot None]
    by (simp add: waiting_slots_def input_slot_def split_def)
qed simp

declare run.simps [simp del]

definition run_demo :: "zconsole \<Rightarrow> (Jes \<times> zconsole) option" where
  "run_demo z =
     do {
       let j = Jes_new;
       let (_, j) = submit (bytes ''PAYROLL '') 0x41 9 3 j;
       let (_, j) = submit (bytes ''BACKUP  '') 0x42 3 2 j;
       let (_, j) = submit (bytes ''REPORTS '') 0x41 6 2 j;
       z \<leftarrow> console_write ([10] @ bytes ''[JES] 3 jobs submetidos (fila INPUT).'' @ [10]) z;
       z \<leftarrow> console_write (bytes ''[JES] Escalonamento batch por prioridade (maior primeiro):'' @ [10, 10]) z;
       (j, z) \<leftarrow> run (j, z);
       z \<leftarrow> console_write (bytes ''[fase 2] address spaces + escalonamento + estados: OK'' @ [10]) z;
       Some (j, z)
     }"

definition kmain :: "zconsole \<Rightarrow> (Jes \<times> zconsole) option" where
  "kmain z =
     do {
       z \<leftarrow> sclp_setup z;
       z \<leftarrow> console_write [10] z;
       z \<leftarrow> console_write (bytes ''========================================'' @ [10]) z;
       z \<leftarrow> console_write (bytes ''   Munux z/OS  -  s390x / z-Architecture'' @ [10]) z;
       z \<leftarrow> console_write (bytes ''   hello, mainframe!'' @ [10]) z;
       z \<leftarrow> console_write (bytes ''========================================'' @ [10]) z;
       z \<leftarrow> console_write (bytes ''[fase 1] boot + console SCLP: OK'' @ [10]) z;
       run_demo z
     }"

section \<open>The reports\<close>

fun piece_text :: "piece \<Rightarrow> u8 list" where
  "piece_text (Str s) = s"
| "piece_text (Num n width) = padded width n"

definition pieces_ok :: "piece list \<Rightarrow> bool" where
  "pieces_ok ps = list_all (\<lambda>p. case p of Str s \<Rightarrow> length s \<le> 2000 | Num n w \<Rightarrow> w \<le> 10) ps"

lemma crlf_padded [simp]: "crlf (padded w n) = padded w n"
  by (rule crlf_plain, rule padded_plain)

lemma emit_spec:
  assumes "pieces_ok ps"
  shows "\<exists>z'. emit ps z = Some z' \<and> shown (crlf (concat (map piece_text ps))) z z'"
  using assms
proof (induction ps z rule: emit.induct)
  case (2 s ps z)
  then obtain z1 where z1: "console_write s z = Some z1" "shown (crlf s) z z1"
    using console_write_short [of s z] by (auto simp: pieces_ok_def)
  with 2 obtain z2 where "emit ps z1 = Some z2" "shown (crlf (concat (map piece_text ps))) z1 z2" by (auto simp: pieces_ok_def)
  with z1 show ?case using shown_append by fastforce
next
  case (3 n w ps z)
  then obtain z1 where z1: "console_write_u32_pad n w z = Some z1" "shown (padded w n) z z1"
    using console_write_pad [of w n z] by (auto simp: pieces_ok_def)
  with 3 obtain z2 where "emit ps z1 = Some z2" "shown (crlf (concat (map piece_text ps))) z1 z2" by (auto simp: pieces_ok_def)
  with z1 show ?case using shown_append by fastforce
qed simp

text \<open>The lines a job leaves on the console.\<close>

definition job_report :: "u16 \<Rightarrow> Job \<Rightarrow> u8 list" where
  "job_report asid job =
     (let prefix = concat (map piece_text (print_prefix job)) in
      prefix @ bytes '' asid '' @ padded 2 (ucast asid) @ bytes '': INPUT -> ACTIVE'' @ [10] @
      concat (map piece_text (step_lines (job_steps job))) @
      prefix @ bytes '': ACTIVE -> OUTPUT (SYSOUT pronto)'' @ [10] @
      prefix @ bytes '': OUTPUT -> PURGE (asid '' @ padded 2 (ucast asid) @ bytes '' liberado)'' @ [10, 10])"

section \<open>The batch\<close>

text \<open>Well-formed states: address space numbers are distinct and not 0, names have eight bytes.\<close>

definition jes_wf :: "Jes \<Rightarrow> bool" where
  "jes_wf j \<longleftrightarrow> distinct (map sp_asid (spaces j)) \<and> 0 \<notin> set (map sp_asid (spaces j)) \<and>
     list_all (\<lambda>slot. case slot of None \<Rightarrow> True | Some jb \<Rightarrow> length (job_name jb) = 8) (jobs j)"

lemma take_space_free:
  assumes "distinct (map sp_asid ss)" and "0 \<notin> set (map sp_asid ss)"
  shows "map (\<lambda>s. if sp_asid s = fst (take_space ss) then s\<lparr>sp_in_use := False\<rparr> else s) (snd (take_space ss)) = ss \<and>
    (fst (take_space ss) \<noteq> 0 \<longrightarrow> fst (take_space ss) \<in> set (map sp_asid ss))"
  using assms
proof (induction ss)
  case (Cons s ss)
  show ?case
  proof (cases "sp_in_use s")
    case True
    then show ?thesis using Cons by (auto simp: split_def Let_def)
  next
    case False
    have "sp_asid r \<noteq> sp_asid s" if "r \<in> set ss" for r using Cons.prems(1) that by (auto simp: rev_image_eqI)
    then have "map (\<lambda>r. if sp_asid r = sp_asid s then r\<lparr>sp_in_use := False\<rparr> else r) ss = ss" by (intro map_idI) simp
    then show ?thesis using False by simp
  qed
qed simp

lemma report_pieces:
  "print_prefix (job\<lparr>job_asid := a\<rparr>) = print_prefix job" "print_prefix (job\<lparr>job_state := st\<rparr>) = print_prefix job"
  "pieces_ok (ps @ qs) \<longleftrightarrow> pieces_ok ps \<and> pieces_ok qs" "length (job_name job) = 8 \<Longrightarrow> pieces_ok (print_prefix job)" "pieces_ok (step_lines n)"
  by (auto simp: print_prefix_def pieces_ok_def step_lines_def bytes_def list_all_iff)

lemma dispatch_spec:
  assumes "jes_wf j" and "idx < length (jobs j)" and "jobs j ! idx = Some job"
  shows "\<exists>z'. dispatch idx (j, z) = Some (j\<lparr>jobs := (jobs j)[idx := None]\<rparr>, z') \<and>
    shown (crlf (job_report (fst (take_space (spaces j))) job)) z z'"
proof -
  obtain a ss where sp: "take_space (spaces j) = (a, ss)" by (cases "take_space (spaces j)")
  have nm: "length (job_name job) = 8" using assms by (force simp: jes_wf_def list_all_length)
  have freed: "map (\<lambda>s. if sp_asid s = a then s\<lparr>sp_in_use := False\<rparr> else s) ss = spaces j"
    using take_space_free [of "spaces j"] assms(1) sp by (simp add: jes_wf_def)
  let ?p = "print_prefix job"
  have ok: "pieces_ok ?p" "pieces_ok (step_lines (job_steps job))" using report_pieces nm by simp_all
  let ?q1 = "?p @ [Str (bytes '' asid ''), Num (ucast a) 2, Str (bytes '': INPUT -> ACTIVE'' @ [10])]"
  obtain z1 where z1: "emit ?q1 z = Some z1" "shown (crlf (concat (map piece_text ?q1))) z z1"
    using emit_spec [of ?q1 z] ok by (auto simp: report_pieces(3)) (auto simp: pieces_ok_def bytes_def)
  obtain z2 where z2: "emit (step_lines (job_steps job)) z1 = Some z2" "shown (crlf (concat (map piece_text (step_lines (job_steps job))))) z1 z2"
    using emit_spec [OF ok(2)] by blast
  let ?q3 = "?p @ [Str (bytes '': ACTIVE -> OUTPUT (SYSOUT pronto)'' @ [10])]"
  obtain z3 where z3: "emit ?q3 z2 = Some z3" "shown (crlf (concat (map piece_text ?q3))) z2 z3"
    using emit_spec [of ?q3 z2] ok by (auto simp: report_pieces(3)) (auto simp: pieces_ok_def bytes_def)
  let ?q4 = "?p @ [Str (bytes '': OUTPUT -> PURGE (asid ''), Num (ucast a) 2, Str (bytes '' liberado)'' @ [10, 10])]"
  obtain z4 where z4: "emit ?q4 z3 = Some z4" "shown (crlf (concat (map piece_text ?q4))) z3 z4"
    using emit_spec [of ?q4 z3] ok by (auto simp: report_pieces(3)) (auto simp: pieces_ok_def bytes_def)
  have "dispatch idx (j, z) = Some (j\<lparr>jobs := (jobs j)[idx := None]\<rparr>, z4)"
    using assms(2,3) sp z1(1) z2(1) z3(1) z4(1) freed
    by (simp add: dispatch_def alloc_asid_def free_asid_def report_pieces(1,2))
  moreover have "shown (crlf (job_report a job)) z z4"
    using shown_append [OF z1(2) shown_append [OF z2(2) shown_append [OF z3(2) z4(2)]]] by (simp add: job_report_def Let_def)
  ultimately show ?thesis using sp by simp
qed

text \<open>The jobs that wait, in the order of their slots, and the order in which a batch takes them: highest priority
  first, equal priorities in the order of the slots.\<close>

definition input_jobs :: "Jes \<Rightarrow> Job list" where
  "input_jobs j = map the (filter input_slot (jobs j))"

definition rank :: "Job \<Rightarrow> nat" where
  "rank jb = 255 - unat (job_priority jb)"

definition batch_order :: "Jes \<Rightarrow> Job list" where
  "batch_order j = sort_key rank (input_jobs j)"

lemma sort_key_first:
  assumes "\<forall>x \<in> set xs. f a < f x" and "\<forall>x \<in> set ys. f a \<le> f x"
  shows "sort_key f (xs @ a # ys) = a # sort_key f (xs @ ys)"
proof (rule properties_for_sort_key)
  show "mset (a # sort_key f (xs @ ys)) = mset (xs @ a # ys)" by simp
  show "sorted (map f (a # sort_key f (xs @ ys)))" using assms by auto
  fix k assume "k \<in> set (a # sort_key f (xs @ ys))"
  have s: "filter (\<lambda>x. f k = f x) (sort_key f (xs @ ys)) = filter (\<lambda>x. f k = f x) (xs @ ys)"
    using sort_key_stable [of f "f k" "xs @ ys"] by (simp add: eq_commute)
  have "filter (\<lambda>x. f k = f x) xs = []" if "f k = f a" using assms(1) that by (auto simp: filter_empty_conv)
  then show "filter (\<lambda>x. f k = f x) (a # sort_key f (xs @ ys)) = filter (\<lambda>x. f k = f x) (xs @ a # ys)"
    using s by auto
qed

lemma batch_order_pick:
  assumes "pick_next j = Some idx"
  shows "batch_order j = the (jobs j ! idx) # batch_order (j\<lparr>jobs := (jobs j)[idx := None]\<rparr>)"
proof -
  obtain bj where b: "idx < length (jobs j)" "jobs j ! idx = Some bj" "job_state bj = Input"
    and best: "\<And>i jb. i < length (jobs j) \<Longrightarrow> jobs j ! i = Some jb \<Longrightarrow> job_state jb = Input \<Longrightarrow>
      job_priority jb \<le> job_priority bj \<and> (i < idx \<longrightarrow> job_priority jb < job_priority bj)"
    using pick_next_best [of j] assms by (auto simp: best_of_def)
  let ?g = "\<lambda>xs. map the (filter input_slot xs)"
  let ?xs = "?g (take idx (jobs j))" and ?ys = "?g (drop (Suc idx) (jobs j))"
  have u: "unat (job_priority jb) < 256" for jb using unsigned_less [of "job_priority jb"] by simp
  have "jobs j = take idx (jobs j) @ Some bj # drop (Suc idx) (jobs j)" using b id_take_nth_drop by metis
  then have "?g (jobs j) = ?g (take idx (jobs j) @ Some bj # drop (Suc idx) (jobs j))" by (rule arg_cong)
  then have i1: "input_jobs j = ?xs @ bj # ?ys" unfolding input_jobs_def using b(3) by (simp add: input_slot_def)
  have i2: "input_jobs (j\<lparr>jobs := (jobs j)[idx := None]\<rparr>) = ?xs @ ?ys"
    using b(1) by (simp add: input_jobs_def upd_conv_take_nth_drop input_slot_def)
  have "rank bj < rank x" if x: "x \<in> set ?xs" for x
  proof -
    obtain i where "i < length (take idx (jobs j))" "take idx (jobs j) ! i = Some x" "job_state x = Input"
      using x by (fastforce simp: input_slot_def in_set_conv_nth split: option.splits)
    then have "job_priority x < job_priority bj" using best [of i x] b(1) by simp
    then show ?thesis using u [of bj] by (simp add: rank_def word_less_nat_alt)
  qed
  moreover have "rank bj \<le> rank y" if y: "y \<in> set ?ys" for y
  proof -
    obtain i where "i < length (drop (Suc idx) (jobs j))" "drop (Suc idx) (jobs j) ! i = Some y" "job_state y = Input"
      using y by (fastforce simp: input_slot_def in_set_conv_nth split: option.splits)
    then have "job_priority y \<le> job_priority bj" using best [of "Suc idx + i" y] b(1) by simp
    then show ?thesis by (simp add: rank_def word_le_nat_alt)
  qed
  ultimately show ?thesis unfolding batch_order_def i1 i2 using sort_key_first [of ?xs rank bj ?ys] b(2) by simp
qed

lemma jes_wf_dispatch: "jes_wf j \<Longrightarrow> jes_wf (j\<lparr>jobs := (jobs j)[idx := None]\<rparr>)"
  by (cases "idx < length (jobs j)") (auto simp: jes_wf_def list_all_length nth_list_update list_update_beyond)

text \<open>What a batch leaves in a slot.\<close>

definition left_over :: "Job option \<Rightarrow> Job option" where
  "left_over slot = (if input_slot slot then None else slot)"

lemma left_over_update: "input_slot (js ! idx) \<Longrightarrow> map left_over (js[idx := None]) = map left_over js"
  by (cases "idx < length js") (auto intro!: nth_equalityI simp: nth_list_update left_over_def input_slot_def list_update_beyond split: option.splits)

lemma run_spec:
  assumes "jes_wf j"
  shows "\<exists>z'. run (j, z) = Some (j\<lparr>jobs := map left_over (jobs j)\<rparr>, z') \<and>
    shown (crlf (concat (map (job_report (fst (take_space (spaces j)))) (batch_order j)))) z z'"
  using assms
proof (induction "waiting_slots j" arbitrary: j z rule: less_induct)
  case less
  show ?case
  proof (cases "pick_next j")
    case None
    then have n: "\<not> list_ex input_slot (jobs j)" using pick_next_best [of j] by (simp add: best_of_def)
    then have "map left_over (jobs j) = jobs j" "input_jobs j = []"
      by (auto simp: left_over_def list_ex_iff input_jobs_def filter_empty_conv intro!: map_idI)
    then show ?thesis using None by (simp add: run.simps batch_order_def)
  next
    case (Some idx)
    note s = pick_next_slot [OF Some]
    obtain job where job: "jobs j ! idx = Some job" using s by (auto simp: input_slot_def split: option.splits)
    let ?j = "j\<lparr>jobs := (jobs j)[idx := None]\<rparr>"
    obtain z1 where z1: "dispatch idx (j, z) = Some (?j, z1)" "shown (crlf (job_report (fst (take_space (spaces j))) job)) z z1"
      using dispatch_spec [OF less.prems _ job] s by blast
    have w: "waiting_slots ?j < waiting_slots j"
      using s filter_update_None [of idx "jobs j" input_slot None] by (simp add: waiting_slots_def input_slot_def)
    obtain z2 where z2: "run (?j, z1) = Some (?j\<lparr>jobs := map left_over (jobs ?j)\<rparr>, z2)"
      "shown (crlf (concat (map (job_report (fst (take_space (spaces j)))) (batch_order ?j)))) z1 z2"
      using less.hyps [OF w jes_wf_dispatch [OF less.prems], of z1] by auto
    have "run (j, z) = Some (j\<lparr>jobs := map left_over (jobs j)\<rparr>, z2)"
      using Some z1(1) z2(1) s by (simp add: run.simps [of j z] left_over_update)
    moreover have "shown (crlf (concat (map (job_report (fst (take_space (spaces j)))) (batch_order j)))) z z2"
      using shown_append [OF z1(2) z2(2)] batch_order_pick [OF Some] job by simp
    ultimately show ?thesis by blast
  qed
qed

lemma free_slot_spec:
  "(case free_slot slots i of
      None \<Rightarrow> None \<notin> set slots
    | Some k \<Rightarrow> i \<le> k \<and> k - i < length slots \<and> slots ! (k - i) = None)"
proof (induction slots i rule: free_slot.induct)
  case (2 slot slots i)
  then show ?case by (auto simp: nth_Cons' Suc_diff_le split: option.splits)
qed simp

lemma input_jobs_update:
  assumes "i < length (jobs j)" and "jobs j ! i = None" and "job_state job = Input"
  shows "mset (input_jobs (j\<lparr>next_job_no := n, jobs := (jobs j)[i := Some job]\<rparr>)) = add_mset job (mset (input_jobs j))"
proof -
  have "filter input_slot (jobs j) = filter input_slot (take i (jobs j)) @ filter input_slot (drop (Suc i) (jobs j))"
    using assms(1,2) by (metis (no_types, lifting) append_Cons append_Nil filter.simps filter_append id_take_nth_drop input_slot_def option.simps(4))
  then show ?thesis using assms by (simp add: input_jobs_def upd_conv_take_nth_drop input_slot_def)
qed

section \<open>Reachable states\<close>

text \<open>The subsystem as a state machine: jobs are submitted, the chosen job is dispatched.\<close>

inductive jstep :: "Jes \<times> zconsole \<Rightarrow> Jes \<times> zconsole \<Rightarrow> bool" where
  jstep_submit: "length name = 8 \<Longrightarrow> submit name class priority steps j = (no, j') \<Longrightarrow> jstep (j, z) (j', z)"
| jstep_dispatch: "pick_next j = Some idx \<Longrightarrow> dispatch idx (j, z) = Some (j', z') \<Longrightarrow> jstep (j, z) (j', z')"

inductive_cases jstepE: "jstep (j, z) x"

text \<open>Between two steps all address spaces are free and every job waits.\<close>

definition job_typed :: "Job option \<Rightarrow> bool" where
  "job_typed slot = (case slot of None \<Rightarrow> True | Some jb \<Rightarrow> length (job_name jb) = 8 \<and> job_state jb = Input \<and> job_asid jb = 0)"

definition jes_typed :: "Jes \<Rightarrow> bool" where
  "jes_typed j \<longleftrightarrow> length (jobs j) = MAX_JOBS \<and> list_all job_typed (jobs j) \<and> spaces j = spaces Jes_new"

lemma jes_typed_new: "jes_typed Jes_new"
  by (simp add: jes_typed_def job_typed_def Jes_new_def list_all_iff)

lemma jes_typed_wf: "jes_typed j \<Longrightarrow> jes_wf j"
proof -
  assume t: "jes_typed j"
  have "distinct (map sp_asid (spaces Jes_new)) \<and> 0 \<notin> set (map sp_asid (spaces Jes_new))" by code_simp
  with t show ?thesis by (fastforce simp: jes_typed_def jes_wf_def job_typed_def list_all_iff split: option.splits)
qed

lemma jes_typed_update: "jes_typed j \<Longrightarrow> job_typed slot \<Longrightarrow> jes_typed (j\<lparr>next_job_no := n, jobs := (jobs j)[i := slot]\<rparr>)"
  by (cases "i < length (jobs j)") (auto simp: jes_typed_def list_all_length nth_list_update list_update_beyond)

lemma jstep_typed: "jstep x y \<Longrightarrow> jes_typed (fst x) \<Longrightarrow> jes_typed (fst y)"
proof (induction rule: jstep.induct)
  case (jstep_submit name cl priority steps j no j' z)
  then show ?case by (auto simp: submit_def job_typed_def intro: jes_typed_update split: option.splits)
next
  case (jstep_dispatch j idx z j' z')
  then obtain job where job: "jobs j ! idx = Some job" "idx < length (jobs j)"
    using pick_next_slot [of j idx] by (auto simp: input_slot_def split: option.splits)
  then have "j' = j\<lparr>next_job_no := next_job_no j, jobs := (jobs j)[idx := None]\<rparr>"
    using dispatch_spec [OF jes_typed_wf job(2,1), of z] jstep_dispatch by simp
  with jstep_dispatch show ?case using jes_typed_update [of j None idx "next_job_no j"] by (simp add: job_typed_def)
qed

lemma jsteps_typed: "jstep\<^sup>*\<^sup>* x y \<Longrightarrow> jes_typed (fst x) \<Longrightarrow> jes_typed (fst y)"
  by (induction rule: rtranclp_induct) (auto dest: jstep_typed)

section \<open>Properties\<close>

text \<open>C23: the batch ends. From every well-formed state \<^verbatim>\<open>run\<close> takes all waiting jobs, and no others, in the order of a
  stable sort by falling priority, reports the way of each through its states, empties their slots, and leaves the
  address spaces, the other slots and the job counter as they were.\<close>

theorem jes_run_batch:
  assumes "jes_wf j"
  shows "\<exists>z'. run (j, z) = Some (j\<lparr>jobs := map left_over (jobs j)\<rparr>, z') \<and>
    console_text z' = console_text z @ crlf (concat (map (job_report (fst (take_space (spaces j)))) (batch_order j))) \<and>
    sorted_wrt (\<lambda>a b. job_priority b \<le> job_priority a) (batch_order j) \<and> mset (batch_order j) = mset (input_jobs j)"
proof -
  have "sorted (map rank (batch_order j))" by (simp add: batch_order_def)
  then have "sorted_wrt (\<lambda>a b. rank a \<le> rank b) (batch_order j)" by (simp add: sorted_wrt_map)
  moreover have u: "unat (job_priority jb) < 256" for jb using unsigned_less [of "job_priority jb"] by simp
  have "rank a \<le> rank b \<Longrightarrow> job_priority b \<le> job_priority a" for a b
    using u [of a] u [of b] unfolding rank_def word_le_nat_alt by linarith
  ultimately have "sorted_wrt (\<lambda>a b. job_priority b \<le> job_priority a) (batch_order j)" by (rule sorted_wrt_mono_rel [rotated]) 
  moreover have "mset (batch_order j) = mset (input_jobs j)" by (simp add: batch_order_def)
  ultimately show ?thesis using run_spec [OF assms, of z] shown_text by blast
qed

definition demo_job :: "u32 \<Rightarrow> string \<Rightarrow> u8 \<Rightarrow> u8 \<Rightarrow> u8 \<Rightarrow> Job" where
  "demo_job no name class priority steps = \<lparr>job_no = no, job_name = bytes name, job_class = class, job_priority = priority,
     job_state = Input, job_asid = 0, job_steps = steps\<rparr>"

definition demo_jes :: Jes where
  "demo_jes = Jes_new\<lparr>next_job_no := 4, jobs := [Some (demo_job 1 ''PAYROLL '' 0x41 9 3), Some (demo_job 2 ''BACKUP  '' 0x42 3 2),
     Some (demo_job 3 ''REPORTS '' 0x41 6 2)] @ replicate 13 None\<rparr>"

lemma demo_jes_facts:
  "jes_wf demo_jes" "fst (take_space (spaces demo_jes)) = 1"
  "batch_order demo_jes = [demo_job 1 ''PAYROLL '' 0x41 9 3, demo_job 3 ''REPORTS '' 0x41 6 2, demo_job 2 ''BACKUP  '' 0x42 3 2]"
  "snd (submit (bytes ''REPORTS '') 0x41 6 2 (snd (submit (bytes ''BACKUP  '') 0x42 3 2 (snd (submit (bytes ''PAYROLL '') 0x41 9 3 Jes_new))))) = demo_jes"
  by code_simp+

theorem jes_run_batch_witness:
  "\<exists>z'. run (demo_jes, \<lparr>SCCB = [], calls = []\<rparr>) = Some (demo_jes\<lparr>jobs := replicate 16 None\<rparr>, z')"
proof -
  have "map left_over (jobs demo_jes) = replicate 16 None" by code_simp
  then show ?thesis using jes_run_batch [OF demo_jes_facts(1), of "\<lparr>SCCB = [], calls = []\<rparr>"] by auto
qed

text \<open>a submitted job gets the next number and joins the waiting jobs; when all sixteen slots are taken the answer is 0
  and nothing changes. Either way the state stays well-formed.\<close>

theorem jes_submit_queues:
  assumes "jes_wf j" and "length name = 8"
  shows "(case submit name class priority steps j of (no, j') \<Rightarrow> jes_wf j' \<and>
    (if None \<in> set (jobs j) then no = next_job_no j \<and> next_job_no j' = no + 1 \<and> spaces j' = spaces j \<and>
        mset (input_jobs j') = add_mset \<lparr>job_no = no, job_name = name, job_class = class, job_priority = priority,
          job_state = Input, job_asid = 0, job_steps = steps\<rparr> (mset (input_jobs j))
     else no = 0 \<and> j' = j))"
proof (cases "free_slot (jobs j) 0")
  case None
  then show ?thesis using free_slot_spec [of "jobs j" 0] assms(1) by (simp add: submit_def)
next
  case (Some i)
  then have i: "i < length (jobs j)" "jobs j ! i = None" using free_slot_spec [of "jobs j" 0] by simp_all
  then have "None \<in> set (jobs j)" by (metis nth_mem)
  moreover have "jes_wf (snd (submit name class priority steps j))"
    using assms i Some by (auto simp: submit_def jes_wf_def list_all_length nth_list_update)
  ultimately show ?thesis using Some input_jobs_update [OF i] by (simp add: submit_def)
qed

theorem jes_submit_queues_witness:
  "fst (submit (bytes ''PAYROLL '') 0x41 9 3 Jes_new) = 1 \<and> jes_wf (snd (submit (bytes ''PAYROLL '') 0x41 9 3 Jes_new))"
proof -
  have "jes_wf Jes_new" by code_simp
  moreover have "length (bytes ''PAYROLL '') = 8" "None \<in> set (jobs Jes_new)" "next_job_no Jes_new = 1" by (simp_all add: bytes_def Jes_new_def)
  ultimately show ?thesis using jes_submit_queues [of Jes_new "bytes ''PAYROLL ''" "0x41" 9 3] by (simp add: split_def)
qed

text \<open>C24: every state that submissions and dispatches lead to has its sixteen slots, all address spaces free, and every job in
  it waiting with a name of eight bytes and no address space (preservation); and as long as a job is there, the
  dispatcher chooses one and its dispatch succeeds (progress).\<close>

theorem jes_reachable_typed:
  assumes "jstep\<^sup>*\<^sup>* (Jes_new, z0) (j, z)"
  shows "jes_typed j \<and>
    (if list_all (\<lambda>slot. slot = None) (jobs j) then pick_next j = None
     else \<exists>idx j' z'. pick_next j = Some idx \<and> dispatch idx (j, z) = Some (j', z') \<and> jes_typed j')"
proof -
  have t: "jes_typed j" using jsteps_typed [OF assms] jes_typed_new by simp
  have i: "input_slot slot \<longleftrightarrow> slot \<noteq> None" if "slot \<in> set (jobs j)" for slot
    using t that by (auto simp: jes_typed_def job_typed_def input_slot_def list_all_iff split: option.splits)
  show ?thesis
  proof (cases "pick_next j")
    case None
    then have "\<not> list_ex input_slot (jobs j)" using pick_next_best [of j] by (simp add: best_of_def)
    then show ?thesis using t None i by (auto simp: list_ex_iff list_all_iff)
  next
    case (Some idx)
    then have s: "idx < length (jobs j)" "input_slot (jobs j ! idx)" using pick_next_slot by blast+
    then obtain job where job: "jobs j ! idx = Some job" using i by (metis nth_mem not_None_eq)
    obtain z' where d: "dispatch idx (j, z) = Some (j\<lparr>jobs := (jobs j)[idx := None]\<rparr>, z')"
      using dispatch_spec [OF jes_typed_wf [OF t] s(1) job] by blast
    have "jes_typed (j\<lparr>jobs := (jobs j)[idx := None]\<rparr>)" using jstep_typed [OF jstep_dispatch [OF Some d]] t by simp
    moreover have "\<not> list_all (\<lambda>slot. slot = None) (jobs j)" using s(1) job by (auto simp: list_all_length)
    ultimately show ?thesis using t Some d by auto
  qed
qed

theorem jes_reachable_typed_witness:
  "\<exists>idx j' z'. pick_next demo_jes = Some idx \<and> dispatch idx (demo_jes, \<lparr>SCCB = [], calls = []\<rparr>) = Some (j', z')"
proof -
  let ?z = "\<lparr>SCCB = [], calls = []\<rparr>" and ?l = "\<lambda>s :: string. length (bytes s) = 8"
  let ?j1 = "snd (submit (bytes ''PAYROLL '') 0x41 9 3 Jes_new)" and ?j2 = "\<lambda>j. snd (submit (bytes ''BACKUP  '') 0x42 3 2 j)"
  have l: "?l ''PAYROLL ''" "?l ''BACKUP  ''" "?l ''REPORTS ''" by (simp_all add: bytes_def)
  have st: "jstep (j, ?z) (snd (submit name cl priority steps j), ?z)" if "length name = 8" for name cl priority steps j
    using that by (intro jstep_submit) (auto intro: prod.collapse [symmetric])
  have "jstep\<^sup>*\<^sup>* (Jes_new, ?z) (demo_jes, ?z)"
    unfolding demo_jes_facts(4) [symmetric] using st [OF l(1)] st [OF l(2)] st [OF l(3)]
    by (meson converse_rtranclp_into_rtranclp rtranclp.rtrancl_refl)
  moreover have "\<not> list_all (\<lambda>slot. slot = None) (jobs demo_jes)" by (simp add: demo_jes_def)
  ultimately show ?thesis using jes_reachable_typed [of ?z demo_jes ?z] by auto
qed

text \<open>C88: the mainframe kernel shows its banner and runs its three jobs to the end, PAYROLL before REPORTS before BACKUP,
  all in address space 1, and nothing is cut from its texts.\<close>

definition zos_banner :: "u8 list" where
  "zos_banner = [10] @ bytes ''========================================'' @ [10] @ bytes ''   Munux z/OS  -  s390x / z-Architecture'' @ [10] @
     bytes ''   hello, mainframe!'' @ [10] @ bytes ''========================================'' @ [10] @
     bytes ''[fase 1] boot + console SCLP: OK'' @ [10]"

theorem zos_kmain_transcript:
  "\<exists>j z'. kmain z = Some (j, z') \<and> jobs j = replicate 16 None \<and>
     console_text z' = console_text z @ crlf (zos_banner @ [10] @ bytes ''[JES] 3 jobs submetidos (fila INPUT).'' @ [10] @
       bytes ''[JES] Escalonamento batch por prioridade (maior primeiro):'' @ [10, 10] @
       job_report 1 (demo_job 1 ''PAYROLL '' 0x41 9 3) @ job_report 1 (demo_job 3 ''REPORTS '' 0x41 6 2) @
       job_report 1 (demo_job 2 ''BACKUP  '' 0x42 3 2) @ bytes ''[fase 2] address spaces + escalonamento + estados: OK'' @ [10])"
proof -
  obtain z0 where z0: "sclp_setup z = Some z0" "shown [] z z0"
    by (auto simp: sclp_setup_def put16_def put32_def shown_def sclp_service_call_def event_text_def)
  let ?b = "map Str [[10], bytes ''========================================'' @ [10], bytes ''   Munux z/OS  -  s390x / z-Architecture'' @ [10],
    bytes ''   hello, mainframe!'' @ [10], bytes ''========================================'' @ [10], bytes ''[fase 1] boot + console SCLP: OK'' @ [10],
    [10] @ bytes ''[JES] 3 jobs submetidos (fila INPUT).'' @ [10], bytes ''[JES] Escalonamento batch por prioridade (maior primeiro):'' @ [10, 10]]"
  let ?e = "bytes ''[fase 2] address spaces + escalonamento + estados: OK'' @ [10]"
  have "pieces_ok ?b" by (simp add: pieces_ok_def bytes_def)
  then obtain z1 where z1: "emit ?b z0 = Some z1" "shown (crlf (concat (map piece_text ?b))) z0 z1" using emit_spec by blast
  obtain z2 where z2: "run (demo_jes, z1) = Some (demo_jes\<lparr>jobs := map left_over (jobs demo_jes)\<rparr>, z2)"
    "shown (crlf (concat (map (job_report 1) (batch_order demo_jes)))) z1 z2"
    using run_spec [OF demo_jes_facts(1), of z1] unfolding demo_jes_facts(2) by blast
  have "length ?e \<le> 2000" by (simp add: bytes_def)
  then obtain z3 where z3: "console_write ?e z2 = Some z3" "shown (crlf ?e) z2 z3" by (rule console_write_short)
  have "kmain z = do { z \<leftarrow> sclp_setup z; z \<leftarrow> emit ?b z; (j, z) \<leftarrow> run (demo_jes, z); z \<leftarrow> console_write ?e z; Some (j, z) }"
    by (simp add: kmain_def run_demo_def split_def demo_jes_facts(4) del: append.simps)
  then have k: "kmain z = Some (demo_jes\<lparr>jobs := map left_over (jobs demo_jes)\<rparr>, z3)" by (simp only: z0(1) z1(1) z2(1) z3(1) Option.bind.simps prod.case)
  have "map left_over (jobs demo_jes) = replicate 16 None" by code_simp
  moreover have "shown (crlf (concat (map piece_text ?b) @ concat (map (job_report 1) (batch_order demo_jes)) @ ?e)) z z3"
    using shown_append [OF z0(2) shown_append [OF z1(2) shown_append [OF z2(2) z3(2)]]] by simp
  then have "console_text z3 = console_text z @ crlf (concat (map piece_text ?b) @ concat (map (job_report 1) (batch_order demo_jes)) @ ?e)"
    by (rule shown_text)
  ultimately show ?thesis unfolding k demo_jes_facts(3) by (simp add: zos_banner_def)
qed

end
