(* ===== verification/Spec2Isabelle.thy ===== *)
theory Spec2Isabelle
  imports Multiboot Sync Bootloader Scheduler Mouse Jes
begin

text \<open>
  \<^bold>\<open>Munux: a model of the two kernels and their correctness\<close>

  \<^bold>\<open>The program.\<close> \<^verbatim>\<open>munux-os\<close> is a 32-bit x86 kernel in C with a memory allocator and a file system in Rust
  (\<^verbatim>\<open>src/munux-os/kernel\<close>). A Multiboot loader enters \<^verbatim>\<open>start\<close>, which calls \<^verbatim>\<open>kernel_main\<close> with the Multiboot
  information (a boot sector of its own, \<^verbatim>\<open>src/munux-os/boot\<close>, loads a flat image instead). The kernel sets up
  screen and serial port, the interrupt table, the physical frames, paging and the heap; tests the heap; starts timer
  and keyboard, switches interrupts on; tests the timer interrupt, the C library, the file system and the system calls,
  and, when a disk is there, the sector cache and the ext2 reader; then it runs a shell for ever. Interrupts reach the
  drivers through assembly stubs and a handler table; system calls reach the file system the same way. \<^verbatim>\<open>munux-zos\<close> is a
  small kernel in Rust for s390x (\<^verbatim>\<open>src/munux-zos/kernel\<close>) with a console on the service processor and a batch job
  subsystem.

  \<^bold>\<open>Conventions.\<close> C structures are records, C integers words of their width, where overflow is undefined behaviour
  integers with a check. A C function is a HOL function that takes and returns the state it changes. \<^const>\<open>None\<close> is undefined
  behaviour (an access outside an object, a null or freed block, signed overflow) or a loop that never ends, so that a
  theorem that a function returns a value also says that neither happens. Rust code returns a sum: \<^const>\<open>Inl\<close> is a
  panic (the crates are built with overflow checks) or a deadlock. What a device answers is a function of the port accesses so
  far (type \<open>device\<close>), and the accesses are recorded (\<open>history\<close>); a theorem about a device states what it relies
  on. What stands for code that is not modelled is a parameter: addresses of the stubs, the coming scancodes, the passes of a
  waiting loop that the timer interrupts.

  \<^bold>\<open>The theories\<close>, in the order in which they use one another:

  \<^item> \<open>Prelude\<close>, \<open>Machine\<close>: integer types, C objects and strings, checked arithmetic, byte-addressed memory with little-endian
    words, \<^verbatim>\<open>memset\<close>, \<^verbatim>\<open>memcpy\<close>, \<^verbatim>\<open>memcmp\<close> (\<^verbatim>\<open>memory/utils.c\<close>), and the lemmas on words they share.
  \<^item> \<open>Pmm\<close> (\<^verbatim>\<open>memory/pmm.c\<close>): the frame bitmap and its counters. The interface \<open>frame_allocator\<close> and its interpretation: a
    frame handed out was free, is marked, and no other changes. First fit; the invariant; two defects (frames past the end of
    memory, a bitmap larger than its page).
  \<^item> \<open>Vmm\<close> (\<^verbatim>\<open>memory/vmm.c\<close>): page tables in physical memory. The interface \<open>address_space\<close>: mapping and unmapping are
    updates of the translation at one page. The identity map of the start-up.
  \<^item> \<open>HeapGrow\<close>, \<open>RustHeap\<close>, \<open>Heap\<close> (\<^verbatim>\<open>memory/heap.c\<close>, \<^verbatim>\<open>heap.rs\<close>, \<^verbatim>\<open>sync.rs\<close>, the allocator of \<^verbatim>\<open>munux-rs-ffi\<close>): growth by pages, the
    free list with splitting and merging, the lock, the entry points of C and of the Rust collections. The invariant is a
    list of blocks that tile the heap; the interface \<open>allocator\<close> says that payloads are disjoint and releases exact, and any
    sequence of requests keeps it.
  \<^item> \<open>Sync\<close> (\<^verbatim>\<open>sync.rs\<close>): the mutex that masks interrupts, as single steps of a task that interrupt handlers may preempt at
    every step. Critical sections never overlap and every task completes; the interface \<open>guarded_data\<close> gives each
    structure the kernel guards (heap, file system) the view of a sequence of whole operations.
  \<^item> \<open>PortIO\<close>, \<open>Interrupts\<close>, \<open>Stubs\<close> (\<^verbatim>\<open>interrupts/\<close>): port accesses, gates, interrupt controllers, dispatch and
    acknowledgement; the stubs of \<^verbatim>\<open>interrupt.asm\<close> as operations on registers and stack.
  \<^item> \<open>Process\<close>, \<open>Scheduler\<close> (\<^verbatim>\<open>process/\<close>): control blocks in a store of addresses, so that sharing and use after free are
    visible; ready queues as rings; the context switch. The interface \<open>run_queue\<close>; round robin; three defects.
  \<^item> \<open>Keyboard\<close>, \<open>Serial\<close>, \<open>Timer\<close>, \<open>Mouse\<close>, \<open>Disk\<close> (\<^verbatim>\<open>drivers/\<close>): every operation. The keyboard buffer is proved first-in
    first-out under every interleaving of the interrupt handler with single accesses of the reader (a step relation and an
    invariant by rule induction), through the interface \<open>bounded_fifo\<close>.
  \<^item> \<open>Libk\<close>, \<open>Printf\<close> (\<^verbatim>\<open>lib/\<close>): strings, conversions, formatted output, against reference definitions.
  \<^item> \<open>Terminal\<close>, \<open>Console\<close> (\<^verbatim>\<open>kernel.c\<close>): the text screen as a refinement of a list of lines, the panic screen, the log on
    screen and serial port.
  \<^item> \<open>BTreeMap\<close>, \<open>Vfs\<close> (\<^verbatim>\<open>vfs.rs\<close>): ordered maps as sorted association lists; the file system in memory, paths, descriptors.
    The interface \<open>filesystem\<close>.
  \<^item> \<open>Syscall\<close>, \<open>Shell\<close> (\<^verbatim>\<open>syscall.c\<close>, \<^verbatim>\<open>kernel.c\<close>): the dispatcher on the saved registers, what each call may change, a session
    that reads a file; line editing and the commands, with the transcript of a session.
  \<^item> \<open>Bcache\<close>, \<open>Ext2\<close>, \<open>Ext2Image\<close> (\<^verbatim>\<open>bcache.rs\<close>, \<^verbatim>\<open>ext2.rs\<close>): the sector cache is invisible; a file is read block by block through
    direct and indirect blocks; the file system that a disk image describes, as a specification, and a calculus of
    reads through the cache by which mounting, directories and files refine it, down to the ports of the drive.
  \<^item> \<open>Kernel\<close>, \<open>Boot\<close> (\<^verbatim>\<open>kernel.c\<close>, \<^verbatim>\<open>panic.rs\<close>): memory detection, the self tests and \<^verbatim>\<open>kernel_main\<close> over all components;
    every stage passes from the state the stage before leaves, so that the kernel reaches its shell, and a self test that
    fails ends in the panic screen.
  \<^item> \<open>Multiboot\<close> (\<^verbatim>\<open>multiboot.asm\<close>): the header a loader looks for and the entry point: the magic number and the information
    reach \<^verbatim>\<open>kernel_main\<close> as its arguments, on the stack of the kernel.
  \<^item> \<open>Bootloader\<close> (\<^verbatim>\<open>boot/\<close>): the boot sector in real mode with its calls of the firmware, the descriptor table, and the
    switch to protected mode.
  \<^item> \<open>Sclp\<close>, \<open>Jes\<close> (\<^verbatim>\<open>munux-zos\<close>): the control block of the console byte by byte; the job subsystem with its step relation,
    typed reachable states, and the batch as a stable sort by priority.

  \<^bold>\<open>Bounds and fuel.\<close> Loops that the source bounds keep its bound (500000000 passes in the self test of the timer, the polling limits of
    disk and mouse). Loops over linked structures and open loops are partial functions whose termination is proved where they
    terminate; the endless shell is cut after the number of lines in question, which is arbitrary. Theorems on the
    start-up assume at most 128 MiB, because above the frame bitmap overwrites the kernel, as \<open>Pmm\<close> shows.

  \<^bold>\<open>Not modelled.\<close> The firmware and the Multiboot loader (what they answer is a parameter), the words that the boot sector pushes on its stack, the translation lookaside buffer (\<^verbatim>\<open>invlpg\<close> has no effect),
    the contents of the stacks of processes, the machine code around the service call on s390x, generated headers and build
    files. The memory that the Rust collections of file system and cache take from the heap is not recorded in the state of the
    start-up (the allocator they use is proved correct in \<open>Heap\<close>).
\<close>

end
